(* ===== verification/ZX_Base.thy ===== *)
theory ZX_Base
  imports Main "HOL-Library.Word"
begin

unbundle bit_operations_syntax

text \<open>
  The prelude: machine integers at the widths the kernel uses
  (\<open>zxfoundation/base/types.cxxm\<close>), the error type of \<open>lib/error.cxxm\<close>,
  \<open>std::expected\<close> as a sum, a trap outcome for \<open>__builtin_trap\<close> and for a
  dereference of a null pointer, and the generic facts on lists, masks and words that
  the component theories share.

  Signed overflow wraps in this program: \<open>cmake/flags.cmake\<close> requires
  \<open>-fwrapv\<close>, so a signed 64-bit integer is a \<^typ>\<open>64 word\<close> read by \<^const>\<open>sint\<close>.
\<close>

section \<open>Machine types\<close>

type_synonym u8 = "8 word"
type_synonym u16 = "16 word"
type_synonym u32 = "32 word"
type_synonym u64 = "64 word"
type_synonym u128 = "128 word"
type_synonym i64 = "64 word"

text \<open>A non-null object address and a function pointer; a pointer is an \<open>option\<close> of them.\<close>

type_synonym addr = "64 word"
type_synonym fnptr = "64 word"

section \<open>Errors (lib/error.cxxm)\<close>

text \<open>
  \<open>kernel_error\<close> is a category and a code of that category. Every value the code
  builds goes through a \<open>from_*\<close> factory, so the pair is a datatype with one
  constructor per factory; two errors are equal exactly when category and code agree.
\<close>

datatype arch_error =
    arch_none | sigp_busy | sigp_not_operational | sigp_invalid_order | psw_invalid_mask
  | psw_invalid_address | stfle_failed | stsi_failed | cpu_not_available | invalid_cpu_id
  | sthyi_failed | sclp_failed | ecag_failed | cpu_mf_failed | uv_failed | stp_failed
  | ptff_failed | diag_failed | sigp_failed

datatype time_error = time_none | clock_not_available | invalid_timestamp | adjustment_failed

datatype memory_error =
    mem_none | out_of_memory | invalid_address | alignment_error | region_overlap
  | hhdm_init_failed | page_fault | invalid_irq_contex | transaction_aborted
  | capability_invalid | purpose_mismatch | zone_exhausted | ssp_check_fail

datatype locking_error =
    lock_none | lock_timeout | deadlock_detected | already_locked | not_locked
  | max_depth_exceeded

datatype crypto_error = crypto_none | invalid_input | hash_mismatch | verification_failed

datatype driver_error = drv_none | drv_not_found | not_ready | io_error | drv_timeout | busy

datatype init_error = init_none | boot_failed | invalid_protocol | checksum_mismatch

datatype generic_error =
    gen_none | invalid_arg | not_supported | not_implemented | internal_error | not_found
  | gen_unknown | out_of_range | uninitialized | stall

datatype machine_error =
    mach_none | system_damage | inst_process_damage | system_recovery | timing_facility
  | external_damage | failing_storage_addr | storage_error_uncorrected | storage_key_error
  | storage_degradation | degradation | mach_warning | channel_report_pending
  | service_processor_damage | channel_subsystem_damage | backlog

datatype kernel_error =
    no_error
  | from_arch arch_error
  | from_memory memory_error
  | from_locking locking_error
  | from_crypto crypto_error
  | from_driver driver_error
  | from_init init_error
  | from_time time_error
  | from_generic generic_error
  | from_machine machine_error

text \<open>\<open>std::expected<T, kernel_error>\<close>: \<^const>\<open>Inl\<close> is \<open>std::unexpected\<close>.\<close>

type_synonym 'a expected = "kernel_error + 'a"

text \<open>
  A call either traps (\<open>__builtin_trap\<close>, a null or dangling dereference, an index
  outside an array) or is done with a value.
\<close>

datatype 'a exec = Trap | Done 'a

definition exec_bind :: "'a exec \<Rightarrow> ('a \<Rightarrow> 'b exec) \<Rightarrow> 'b exec" where
  "exec_bind m f = (case m of Trap \<Rightarrow> Trap | Done x \<Rightarrow> f x)"

lemma exec_bind_simps [simp]:
  "exec_bind Trap f = Trap"
  "exec_bind (Done x) f = f x"
  by (simp_all add: exec_bind_def)

lemma exec_bind_Done_iff:
  "exec_bind m f = Done y \<longleftrightarrow> (\<exists>x. m = Done x \<and> f x = Done y)"
  by (cases m) auto

lemma exec_bind_sum_Done_iff:
  "exec_bind m (case_sum f g) = Done y \<longleftrightarrow>
     (\<exists>e. m = Done (Inl e) \<and> f e = Done y) \<or> (\<exists>x. m = Done (Inr x) \<and> g x = Done y)"
  by (cases m) (auto split: sum.split)

lemma exec_bind_assoc: "exec_bind (exec_bind m f) g = exec_bind m (\<lambda>x. exec_bind (f x) g)"
  by (cases m) auto

section \<open>Collections of simplification rules\<close>

named_theorems op_defs \<open>definitions of the operations of a component\<close>
named_theorems inv_defs \<open>definitions of the invariants of a component\<close>

section \<open>Masks\<close>

text \<open>
  The kernel tests a set of rights with \<open>(available & requested) == requested\<close>. The
  three rights masks of the program (isolation rights, memory access, capability rights)
  share the laws of this test.
\<close>

definition mask_has :: "'w::len word \<Rightarrow> 'w word \<Rightarrow> bool" where
  "mask_has available requested \<longleftrightarrow> available AND requested = requested"

lemma mask_has_bits: "mask_has a r \<longleftrightarrow> (\<forall>n. bit r n \<longrightarrow> bit a n)"
proof
  assume "mask_has a r"
  then have "bit r n = bit (a AND r) n" for n
    by (simp add: mask_has_def)
  then show "\<forall>n. bit r n \<longrightarrow> bit a n"
    unfolding bit_and_iff by blast
next
  assume "\<forall>n. bit r n \<longrightarrow> bit a n"
  then show "mask_has a r"
    by (auto simp: mask_has_def bit_eq_iff bit_simps)
qed

lemma mask_has_refl [simp, intro]: "mask_has a a"
  by (simp add: mask_has_def)

lemma mask_has_zero [simp]: "mask_has a 0"
  by (simp add: mask_has_def)

lemma mask_has_zero_left [simp]: "mask_has 0 r \<longleftrightarrow> r = 0"
  by (auto simp: mask_has_def)

lemma mask_has_trans: "mask_has a b \<Longrightarrow> mask_has b c \<Longrightarrow> mask_has a c"
  by (auto simp: mask_has_bits)

lemma mask_has_or: "mask_has a (b OR c) \<longleftrightarrow> mask_has a b \<and> mask_has a c"
  by (auto simp: mask_has_bits bit_simps)

lemma mask_has_antisym: "mask_has a b \<Longrightarrow> mask_has b a \<Longrightarrow> a = b"
  by (auto simp: mask_has_bits bit_eq_iff)

lemma mask_has_and [simp]: "mask_has a (a AND b)" "mask_has b (a AND b)"
  by (auto simp: mask_has_bits bit_simps)

section \<open>Lists\<close>

lemma nth_list_update_if:
  "i < length xs \<Longrightarrow> xs[i := v] ! j = (if j = i then v else xs ! j)"
  by auto

lemma list_update_cases:
  "x \<in> set (xs[i := v]) \<Longrightarrow> x = v \<or> x \<in> set xs"
  using set_update_subset_insert [of xs i v] by auto

text \<open>The least index of a range that satisfies a predicate: the kernel's linear scans.\<close>

fun first_from :: "(nat \<Rightarrow> bool) \<Rightarrow> nat \<Rightarrow> nat \<Rightarrow> nat option" where
  "first_from P i 0 = None"
| "first_from P i (Suc n) = (if P i then Some i else first_from P (Suc i) n)"

lemma first_from_Some:
  "first_from P i n = Some k \<Longrightarrow> i \<le> k \<and> k < i + n \<and> P k \<and> (\<forall>j. i \<le> j \<and> j < k \<longrightarrow> \<not> P j)"
proof (induction n arbitrary: i)
  case 0
  then show ?case by simp
next
  case (Suc n)
  show ?case
  proof (cases "P i")
    case True
    with Suc.prems show ?thesis by auto
  next
    case False
    with Suc.prems have "first_from P (Suc i) n = Some k" by simp
    from Suc.IH [OF this] False show ?thesis
      by (metis Suc_leI add_Suc_right add_Suc_shift le_neq_implies_less Suc_leD)
  qed
qed

lemma first_from_None: "first_from P i n = None \<longleftrightarrow> (\<forall>k. i \<le> k \<and> k < i + n \<longrightarrow> \<not> P k)"
proof (induction n arbitrary: i)
  case 0
  then show ?case by auto
next
  case (Suc n)
  show ?case
    by (auto simp: Suc.IH) (metis Suc_leI add_Suc_shift le_neq_implies_less)
qed

section \<open>Words\<close>

lemma word_succ_neq [simp]: "x + 1 \<noteq> (x :: 'w::len word)"
  by simp

lemma unat_word_less: "unat (x :: 'w::len word) < 2 ^ LENGTH('w)"
  by (rule unsigned_less)

lemma replicate_update_same: "(replicate n x)[i := x] = replicate n x"
  by (induction n arbitrary: i) (auto split: nat.splits)

end
