(* ===== verification/ZX_Kobject.thy ===== *)
theory ZX_Kobject
  imports ZX_Base
begin

text \<open>
  Kernel objects (\<open>zxfoundation/scoms/kobject.zcomponent\<close>): the lifecycle states, the
  saturating reference count \<open>kref\<close>, the object header \<open>bobject\<close> and its operations.
  The store maps addresses to headers; a lock field has no counterpart because every
  operation that takes the lock is one step of the model.
\<close>

section \<open>Lifecycle states and object types\<close>

datatype lifecycle_state = Embryo | Sealed | Active | Suspended | Dying | Destroyed

datatype kobject_type =
    KT_none | KT_domain | KT_gate | KT_portal | KT_vm_region | KT_io_binding
  | KT_capability | KT_strand | KT_irq_desc | KT_memory_resource | KT_memory_extent
  | KT_memory_folio | KT_page | KT_storage | KT_grant | KT_mapping | KT_address_space
  | KT_page_table | KT_key | KT_endpoint | KT_message | KT_kmem_cache | KT_policy_server
  | KT_service_entry | KT_device_binding | KT_dataset_extent

definition KOBJECT_ID_INVALID :: u32 where
  "KOBJECT_ID_INVALID = - 1"

section \<open>Reference counts\<close>

text \<open>
  \<open>kref::try_get\<close> retries its compare-exchange until it wins; the winning round is the
  step modelled here. A count of \<open>0x7FFFFFFE\<close> or more traps.
\<close>

definition KREF_LIMIT :: u32 where
  "KREF_LIMIT = 0x7FFFFFFE"

definition kref_try_get :: "u32 \<Rightarrow> (u32 \<times> bool) exec" where
  "kref_try_get count =
     (if count = 0 then Done (count, False)
      else if count \<ge> KREF_LIMIT then Trap
      else Done (count + 1, True))"

text \<open>\<open>kref::put\<close> subtracts first and then looks at the value it found.\<close>

definition kref_put :: "u32 \<Rightarrow> (u32 \<times> bool) exec" where
  "kref_put count =
     (let prev = count; count' = count - 1
      in if prev = 0 then Trap
         else if prev = 1 then Done (count', True)
         else Done (count', False))"

section \<open>The object header\<close>

record bobject =
  ko_id :: u32
  ko_type :: kobject_type
  ko_state :: lifecycle_state
  ko_ref :: u32
  ko_generation :: u32
  object_flags :: u32

definition bobject_default :: bobject where
  "bobject_default =
     \<lparr>ko_id = - 1, ko_type = KT_none, ko_state = Embryo, ko_ref = 1, ko_generation = 0,
      object_flags = 0\<rparr>"

text \<open>\<open>bobject::transition\<close>: which current states admit a target state.\<close>

fun transition_allowed :: "lifecycle_state \<Rightarrow> lifecycle_state \<Rightarrow> bool" where
  "transition_allowed state Embryo = (state = Destroyed)"
| "transition_allowed state Sealed = (state = Embryo)"
| "transition_allowed state Active = (state = Embryo \<or> state = Sealed \<or> state = Suspended)"
| "transition_allowed state Suspended = (state = Active)"
| "transition_allowed state Dying = (state = Embryo \<or> state = Active \<or> state = Suspended)"
| "transition_allowed state Destroyed = (state = Dying)"

definition transition :: "bobject \<Rightarrow> lifecycle_state \<Rightarrow> bobject \<times> bool" where
  "transition b target =
     (if transition_allowed (ko_state b) target then (b\<lparr>ko_state := target\<rparr>, True)
      else (b, False))"

definition initialize :: "bobject \<Rightarrow> u32 \<Rightarrow> kobject_type \<Rightarrow> bobject" where
  "initialize b object_id object_type =
     b\<lparr>ko_id := object_id, ko_type := object_type, ko_state := Embryo, ko_ref := 1,
       object_flags := 0\<rparr>"

section \<open>The object store\<close>

record kheap =
  objs :: "addr \<Rightarrow> bobject option"
  g_bobject_finalizer :: "fnptr option"

definition upd_obj :: "addr \<Rightarrow> bobject \<Rightarrow> 'h kheap_scheme \<Rightarrow> 'h kheap_scheme" where
  "upd_obj a b h = h\<lparr>objs := (objs h)(a := Some b)\<rparr>"

definition install_bobject_finalizer ::
  "fnptr option \<Rightarrow> 'h kheap_scheme \<Rightarrow> 'h kheap_scheme exec" where
  "install_bobject_finalizer finalizer h =
     (case finalizer of
        None \<Rightarrow> Trap
      | Some f \<Rightarrow>
          (case g_bobject_finalizer h of
             Some g \<Rightarrow> if g \<noteq> f then Trap else Done (h\<lparr>g_bobject_finalizer := Some f\<rparr>)
           | None \<Rightarrow> Done (h\<lparr>g_bobject_finalizer := Some f\<rparr>)))"

definition bobject_try_get :: "addr \<Rightarrow> 'h kheap_scheme \<Rightarrow> ('h kheap_scheme \<times> bool) exec" where
  "bobject_try_get a h =
     (case objs h a of
        None \<Rightarrow> Trap
      | Some b \<Rightarrow>
          exec_bind (kref_try_get (ko_ref b))
            (\<lambda>(r, ok). Done (upd_obj a (b\<lparr>ko_ref := r\<rparr>) h, ok)))"

text \<open>
  \<open>bobject::put\<close> calls the installed finalizer on the last reference. What the
  function behind the pointer does is the parameter \<open>call_fin\<close>;
  \<open>ZX_Metadata.finalize_last_put\<close> is the function the kernel installs.
\<close>

definition bobject_put ::
  "(fnptr \<Rightarrow> addr \<Rightarrow> 'h kheap_scheme \<Rightarrow> 'h kheap_scheme exec) \<Rightarrow>
   addr \<Rightarrow> 'h kheap_scheme \<Rightarrow> 'h kheap_scheme exec" where
  "bobject_put call_fin a h =
     (case objs h a of
        None \<Rightarrow> Trap
      | Some b \<Rightarrow>
          exec_bind (kref_put (ko_ref b))
            (\<lambda>(r, last_ref).
               let h' = upd_obj a (b\<lparr>ko_ref := r\<rparr>) h
               in if \<not> last_ref then Done h'
                  else case g_bobject_finalizer h' of
                         None \<Rightarrow> Trap
                       | Some f \<Rightarrow> call_fin f a h'))"

section \<open>Basic facts\<close>

lemma kref_try_get_Done:
  "kref_try_get c = Done (c', ok) \<longleftrightarrow>
     (c = 0 \<and> c' = 0 \<and> \<not> ok) \<or> (c \<noteq> 0 \<and> c < KREF_LIMIT \<and> c' = c + 1 \<and> ok)"
  by (auto simp: kref_try_get_def not_le)

lemma kref_put_Done:
  "kref_put c = Done (c', l) \<longleftrightarrow> c \<noteq> 0 \<and> c' = c - 1 \<and> l = (c = 1)"
  by (auto simp: kref_put_def Let_def)

lemma unat_succ_below_limit: "c < KREF_LIMIT \<Longrightarrow> unat (c + 1) = Suc (unat c)"
  by (simp add: KREF_LIMIT_def unat_word_ariths word_less_nat_alt)

lemma unat_pred: "c \<noteq> (0 :: 'w::len word) \<Longrightarrow> unat (c - 1) = unat c - 1"
  by (simp add: unat_minus_one)

lemma objs_upd_obj [simp]: "objs (upd_obj a b h) = (objs h)(a := Some b)"
  by (simp add: upd_obj_def)

lemma finalizer_upd_obj [simp]: "g_bobject_finalizer (upd_obj a b h) = g_bobject_finalizer h"
  by (simp add: upd_obj_def)

lemma more_upd_obj [simp]: "kheap.more (upd_obj a b h) = kheap.more h"
  by (simp add: upd_obj_def)

lemma transition_result:
  "transition b t = (b', ok) \<Longrightarrow>
     ok = transition_allowed (ko_state b) t \<and>
     b' = (if ok then b\<lparr>ko_state := t\<rparr> else b)"
  by (auto simp: transition_def split: if_splits)

text \<open>A put that is not the last one only decrements, and cannot trap.\<close>

lemma bobject_put_shared:
  assumes "objs h a = Some b" and "1 < unat (ko_ref b)"
  shows "bobject_put call_fin a h = Done (upd_obj a (b\<lparr>ko_ref := ko_ref b - 1\<rparr>) h)"
proof -
  from assms(2) have "ko_ref b \<noteq> 0" and "ko_ref b \<noteq> 1"
    by auto
  then show ?thesis
    by (simp add: bobject_put_def assms(1) kref_put_def Let_def)
qed

lemma bobject_try_get_live:
  assumes "objs h a = Some b" and "ko_ref b \<noteq> 0" and "ko_ref b < KREF_LIMIT"
  shows "bobject_try_get a h = Done (upd_obj a (b\<lparr>ko_ref := ko_ref b + 1\<rparr>) h, True)"
  using assms by (simp add: bobject_try_get_def kref_try_get_def not_le [symmetric])

section \<open>Lifecycle runs\<close>

text \<open>A run applies a sequence of requested transitions, valid or not.\<close>

fun transitions :: "bobject \<Rightarrow> lifecycle_state list \<Rightarrow> bobject" where
  "transitions b [] = b"
| "transitions b (t # ts) = transitions (fst (transition b t)) ts"

lemma transition_keeps_retired:
  "ko_state b \<in> {Dying, Destroyed} \<Longrightarrow> t \<noteq> Embryo \<Longrightarrow>
     ko_state (fst (transition b t)) \<in> {Dying, Destroyed}"
  by (cases t) (auto simp: transition_def)

lemma transitions_keep_retired:
  "ko_state b \<in> {Dying, Destroyed} \<Longrightarrow> Embryo \<notin> set ts \<Longrightarrow>
     ko_state (transitions b ts) \<in> {Dying, Destroyed}"
proof (induction ts arbitrary: b)
  case Nil
  then show ?case by simp
next
  case (Cons t ts)
  then have "ko_state (fst (transition b t)) \<in> {Dying, Destroyed}"
    by (intro transition_keeps_retired) auto
  with Cons show ?case by simp
qed

lemma transition_frame:
  "ko_id (fst (transition b t)) = ko_id b" "ko_type (fst (transition b t)) = ko_type b"
  "ko_ref (fst (transition b t)) = ko_ref b"
  "ko_generation (fst (transition b t)) = ko_generation b"
  "object_flags (fst (transition b t)) = object_flags b"
  by (simp_all add: transition_def)

end
