(* ===== verification/ZX_Metadata.thy ===== *)
theory ZX_Metadata
  imports ZX_Kobject
begin

text \<open>
  The nucleus-owned object metadata (\<open>zxfoundation/scoms/metadata.zcomponent/core.cxx\<close>):
  a table of 16384 entries in blocks of 256 that are allocated on demand. An object
  header links to its entry through \<open>object_flags\<close> (index plus one); an entry links to
  the parent's entry through \<open>parent_slot\<close> and counts its own dependents.

  Pointers to entries are entry indices. \<open>kmalloc\<close> is reached through a symbol alias;
  whether it succeeds when the scan reaches an index is the parameter \<open>alloc_ok\<close>.
\<close>

section \<open>State\<close>

definition MAX_OBJECT_METADATA :: nat where
  "MAX_OBJECT_METADATA = 16384"

definition METADATA_BLOCK_SIZE :: nat where
  "METADATA_BLOCK_SIZE = 256"

definition METADATA_BLOCK_COUNT :: nat where
  "METADATA_BLOCK_COUNT = 64"

lemmas metadata_consts =
  MAX_OBJECT_METADATA_def METADATA_BLOCK_SIZE_def METADATA_BLOCK_COUNT_def

record object_metadata =
  md_object :: "addr option"
  owner_domain :: u32
  parent_slot :: u32
  parent_type :: kobject_type
  parent_id :: u32
  parent_generation :: u32
  md_object_flags :: u32
  dependent_count :: u32
  hardware_generation :: u32
  reclaimer :: "fnptr option"
  md_active :: bool
  reclaim_pending :: bool

definition object_metadata_default :: object_metadata where
  "object_metadata_default =
     \<lparr>md_object = None, owner_domain = KOBJECT_ID_INVALID, parent_slot = 0,
      parent_type = KT_none, parent_id = KOBJECT_ID_INVALID, parent_generation = 0,
      md_object_flags = 0, dependent_count = 0, hardware_generation = 0, reclaimer = None,
      md_active = False, reclaim_pending = False\<rparr>"

record meta_state = kheap +
  g_metadata :: "object_metadata list option list"

definition metadata_at ::
  "nat \<Rightarrow> bool \<Rightarrow> bool \<Rightarrow> 'a meta_state_scheme \<Rightarrow> 'a meta_state_scheme \<times> object_metadata option"
where
  "metadata_at index create alloc_ok s =
     (let block = index div METADATA_BLOCK_SIZE
      in case g_metadata s ! block of
           Some blk \<Rightarrow> (s, Some (blk ! (index mod METADATA_BLOCK_SIZE)))
         | None \<Rightarrow>
             if \<not> create then (s, None)
             else if \<not> alloc_ok then (s, None)
             else let blk = replicate METADATA_BLOCK_SIZE object_metadata_default
                  in (s\<lparr>g_metadata := (g_metadata s)[block := Some blk]\<rparr>,
                      Some (blk ! (index mod METADATA_BLOCK_SIZE))))"

text \<open>The entry an index designates (\<open>metadata_at(index)\<close>), and a store through that pointer.\<close>

definition entry_at :: "'a meta_state_scheme \<Rightarrow> nat \<Rightarrow> object_metadata option" where
  "entry_at s index = snd (metadata_at index False False s)"

definition entry_upd ::
  "nat \<Rightarrow> object_metadata \<Rightarrow> 'a meta_state_scheme \<Rightarrow> 'a meta_state_scheme" where
  "entry_upd index e s =
     (let block = index div METADATA_BLOCK_SIZE
      in s\<lparr>g_metadata :=
             (g_metadata s)[block :=
                map_option (\<lambda>blk. blk[index mod METADATA_BLOCK_SIZE := e]) (g_metadata s ! block)]\<rparr>)"

section \<open>Operations\<close>

definition find_locked :: "'a meta_state_scheme \<Rightarrow> addr \<Rightarrow> bobject \<Rightarrow> (nat \<times> object_metadata) option"
where
  "find_locked s a b =
     (if object_flags b = 0 then None
      else let index = unat (object_flags b - 1)
           in if index \<ge> MAX_OBJECT_METADATA then None
              else case entry_at s index of
                     None \<Rightarrow> None
                   | Some e \<Rightarrow> if md_active e \<and> md_object e = Some a then Some (index, e) else None)"

definition retired_locked ::
  "'a meta_state_scheme \<Rightarrow> addr \<Rightarrow> bobject \<Rightarrow> (nat \<times> object_metadata) option"
where
  "retired_locked s a b =
     (if object_flags b = 0 then None
      else let index = unat (object_flags b - 1)
           in if index \<ge> MAX_OBJECT_METADATA then None
              else case entry_at s index of
                     None \<Rightarrow> None
                   | Some e \<Rightarrow>
                       if reclaim_pending e \<and> md_object e = Some a then Some (index, e) else None)"

definition cleared_parent :: "object_metadata \<Rightarrow> object_metadata" where
  "cleared_parent e =
     e\<lparr>parent_slot := 0, parent_type := KT_none, parent_id := KOBJECT_ID_INVALID,
       parent_generation := 0\<rparr>"

text \<open>
  \<open>clear_parent_locked\<close> of the child entry at index \<open>c\<close>. The array of blocks is indexed
  with \<open>parent_slot - 1\<close> without a check, so a block number out of range traps.
\<close>

definition clear_parent_locked ::
  "nat \<Rightarrow> object_metadata \<Rightarrow> 'a meta_state_scheme \<Rightarrow> 'a meta_state_scheme exec" where
  "clear_parent_locked c child s =
     (if parent_id child = KOBJECT_ID_INVALID then Done s
      else
        exec_bind
          (if parent_slot child \<noteq> 0 then
             (let p = unat (parent_slot child - 1)
              in if p div METADATA_BLOCK_SIZE \<ge> METADATA_BLOCK_COUNT then Trap
                 else case entry_at s p of
                   None \<Rightarrow> Done s
                 | Some parent \<Rightarrow>
                     if \<not> md_active parent then Done s
                     else case md_object parent of
                       None \<Rightarrow> Done s
                     | Some pa \<Rightarrow>
                         (case objs s pa of
                            None \<Rightarrow> Trap
                          | Some pb \<Rightarrow>
                              if ko_type pb = parent_type child \<and> ko_id pb = parent_id child \<and>
                                 ko_generation pb = parent_generation child \<and>
                                 dependent_count parent \<noteq> 0
                              then Done (entry_upd p
                                     (parent\<lparr>dependent_count := dependent_count parent - 1\<rparr>) s)
                              else Done s))
           else Done s)
          (\<lambda>s'. case entry_at s' c of
                  None \<Rightarrow> Trap
                | Some child' \<Rightarrow> Done (entry_upd c (cleared_parent child') s')))"

definition registered_entry :: "addr \<Rightarrow> u32 \<Rightarrow> bobject \<Rightarrow> object_metadata" where
  "registered_entry a owner b =
     \<lparr>md_object = Some a, owner_domain = owner, parent_slot = 0, parent_type = KT_none,
      parent_id = KOBJECT_ID_INVALID, parent_generation = 0, md_object_flags = object_flags b,
      dependent_count = 0, hardware_generation = 0, reclaimer = None, md_active = True,
      reclaim_pending = False\<rparr>"

text \<open>The scan of \<open>register_object\<close> from index \<open>i\<close> with \<open>n\<close> indices left.\<close>

fun register_from ::
  "(nat \<Rightarrow> bool) \<Rightarrow> addr \<Rightarrow> bobject \<Rightarrow> u32 \<Rightarrow> nat \<Rightarrow> nat \<Rightarrow> 'a meta_state_scheme \<Rightarrow>
   'a meta_state_scheme \<times> unit expected" where
  "register_from alloc_ok a b owner i 0 s = (s, Inl (from_memory out_of_memory))"
| "register_from alloc_ok a b owner i (Suc n) s =
     (case metadata_at i True (alloc_ok i) s of
        (s', None) \<Rightarrow> register_from alloc_ok a b owner (Suc i) n s'
      | (s', Some e) \<Rightarrow>
          if md_active e \<or> reclaim_pending e then register_from alloc_ok a b owner (Suc i) n s'
          else (upd_obj a (b\<lparr>object_flags := of_nat i + 1\<rparr>)
                  (entry_upd i (registered_entry a owner b) s'), Inr ()))"

definition register_object ::
  "(nat \<Rightarrow> bool) \<Rightarrow> addr \<Rightarrow> u32 \<Rightarrow> 'a meta_state_scheme \<Rightarrow>
   ('a meta_state_scheme \<times> unit expected) exec" where
  "register_object alloc_ok a owner s =
     (case objs s a of
        None \<Rightarrow> Trap
      | Some b \<Rightarrow>
          if find_locked s a b \<noteq> None then Done (s, Inl (from_generic invalid_arg))
          else Done (register_from alloc_ok a b owner 0 MAX_OBJECT_METADATA s))"

definition unregister_object ::
  "addr \<Rightarrow> 'a meta_state_scheme \<Rightarrow> ('a meta_state_scheme \<times> unit expected) exec" where
  "unregister_object a s =
     (case objs s a of
        None \<Rightarrow> Trap
      | Some b \<Rightarrow>
          (case find_locked s a b of
             None \<Rightarrow> Done (s, Inl (from_generic not_found))
           | Some (i, e) \<Rightarrow>
               if dependent_count e \<noteq> 0 then Done (s, Inl (from_generic invalid_arg))
               else exec_bind (clear_parent_locked i e s)
                      (\<lambda>s'. case entry_at s' i of
                              None \<Rightarrow> Trap
                            | Some e' \<Rightarrow>
                                Done (entry_upd i (e'\<lparr>md_active := False, reclaim_pending := True\<rparr>) s',
                                      Inr ()))))"

definition set_reclaimer ::
  "addr \<Rightarrow> fnptr option \<Rightarrow> 'a meta_state_scheme \<Rightarrow> ('a meta_state_scheme \<times> unit expected) exec" where
  "set_reclaimer a rec s =
     (if rec = None then Done (s, Inl (from_generic invalid_arg))
      else case objs s a of
        None \<Rightarrow> Trap
      | Some b \<Rightarrow>
          (case find_locked s a b of
             None \<Rightarrow> Done (s, Inl (from_generic not_found))
           | Some (i, e) \<Rightarrow> Done (entry_upd i (e\<lparr>reclaimer := rec\<rparr>) s, Inr ())))"

text \<open>What the table-specific reclaimer behind a pointer does is the parameter \<open>call_rec\<close>.\<close>

definition finalize_last_put ::
  "(fnptr \<Rightarrow> addr \<Rightarrow> 'a meta_state_scheme \<Rightarrow> 'a meta_state_scheme exec) \<Rightarrow>
   addr \<Rightarrow> 'a meta_state_scheme \<Rightarrow> 'a meta_state_scheme exec" where
  "finalize_last_put call_rec a s =
     (case objs s a of
        None \<Rightarrow> Trap
      | Some b \<Rightarrow>
          (case retired_locked s a b of
             None \<Rightarrow> Trap
           | Some (i, e) \<Rightarrow>
               (case reclaimer e of None \<Rightarrow> Trap | Some f \<Rightarrow> call_rec f a s)))"

definition complete_reclaim :: "addr \<Rightarrow> 'a meta_state_scheme \<Rightarrow> 'a meta_state_scheme exec" where
  "complete_reclaim a s =
     (case objs s a of
        None \<Rightarrow> Trap
      | Some b \<Rightarrow>
          (case retired_locked s a b of
             None \<Rightarrow> Trap
           | Some (i, e) \<Rightarrow>
               Done (upd_obj a (b\<lparr>object_flags := 0\<rparr>)
                      (entry_upd i
                         (e\<lparr>md_object := None, reclaimer := None, reclaim_pending := False\<rparr>) s))))"

definition set_owner ::
  "addr \<Rightarrow> u32 \<Rightarrow> 'a meta_state_scheme \<Rightarrow> ('a meta_state_scheme \<times> unit expected) exec" where
  "set_owner a owner s =
     (case objs s a of
        None \<Rightarrow> Trap
      | Some b \<Rightarrow>
          (case find_locked s a b of
             None \<Rightarrow> Done (s, Inl (from_generic not_found))
           | Some (i, e) \<Rightarrow> Done (entry_upd i (e\<lparr>owner_domain := owner\<rparr>) s, Inr ())))"

definition attach ::
  "addr \<Rightarrow> addr \<Rightarrow> 'a meta_state_scheme \<Rightarrow> ('a meta_state_scheme \<times> unit expected) exec" where
  "attach child parent s =
     (if child = parent then Done (s, Inl (from_generic invalid_arg))
      else case (objs s child, objs s parent) of
        (Some cb, Some pb) \<Rightarrow>
          (case (find_locked s child cb, find_locked s parent pb) of
             (Some (c, ce), Some (p, pe)) \<Rightarrow>
               if parent_id ce \<noteq> KOBJECT_ID_INVALID then Done (s, Inl (from_generic not_found))
               else Done (entry_upd p (pe\<lparr>dependent_count := dependent_count pe + 1\<rparr>)
                            (entry_upd c (ce\<lparr>parent_type := ko_type pb, parent_id := ko_id pb,
                                             parent_generation := ko_generation pb,
                                             parent_slot := object_flags pb\<rparr>) s), Inr ())
           | _ \<Rightarrow> Done (s, Inl (from_generic not_found)))
      | _ \<Rightarrow> Trap)"

definition detach ::
  "addr \<Rightarrow> 'a meta_state_scheme \<Rightarrow> ('a meta_state_scheme \<times> unit expected) exec" where
  "detach child s =
     (case objs s child of
        None \<Rightarrow> Trap
      | Some b \<Rightarrow>
          (case find_locked s child b of
             None \<Rightarrow> Done (s, Inl (from_generic not_found))
           | Some (c, ce) \<Rightarrow>
               if parent_id ce = KOBJECT_ID_INVALID then Done (s, Inr ())
               else exec_bind (clear_parent_locked c ce s) (\<lambda>s'. Done (s', Inr ()))))"

definition has_dependents :: "addr \<Rightarrow> 'a meta_state_scheme \<Rightarrow> bool exec" where
  "has_dependents a s =
     (case objs s a of
        None \<Rightarrow> Trap
      | Some b \<Rightarrow>
          (case find_locked s a b of
             None \<Rightarrow> Done False
           | Some (i, e) \<Rightarrow> Done (dependent_count e \<noteq> 0)))"

definition bump_hardware_generation ::
  "addr \<Rightarrow> 'a meta_state_scheme \<Rightarrow> ('a meta_state_scheme \<times> u32 expected) exec" where
  "bump_hardware_generation a s =
     (case objs s a of
        None \<Rightarrow> Trap
      | Some b \<Rightarrow>
          (case find_locked s a b of
             None \<Rightarrow> Done (s, Inl (from_generic not_found))
           | Some (i, e) \<Rightarrow>
               let g = hardware_generation e + 1
               in Done (entry_upd i (e\<lparr>hardware_generation := g\<rparr>) s, Inr g)))"

definition metadata :: "addr \<Rightarrow> 'a meta_state_scheme \<Rightarrow> object_metadata expected exec" where
  "metadata a s =
     (case objs s a of
        None \<Rightarrow> Trap
      | Some b \<Rightarrow>
          (case find_locked s a b of
             None \<Rightarrow> Done (Inl (from_generic not_found))
           | Some (i, e) \<Rightarrow> Done (Inr e)))"

section \<open>The table as a function of the index\<close>

text \<open>
  Entries of a block that is not allocated yet read as default entries. Creating a block
  is then invisible, and an operation is described by what it does to this view.
\<close>

definition meta_view :: "'a meta_state_scheme \<Rightarrow> nat \<Rightarrow> object_metadata" where
  "meta_view s i = (case entry_at s i of None \<Rightarrow> object_metadata_default | Some e \<Rightarrow> e)"

definition shape_ok :: "'a meta_state_scheme \<Rightarrow> bool" where
  "shape_ok s \<longleftrightarrow>
     length (g_metadata s) = METADATA_BLOCK_COUNT \<and>
     (\<forall>b < METADATA_BLOCK_COUNT. \<forall>blk. g_metadata s ! b = Some blk \<longrightarrow> length blk = METADATA_BLOCK_SIZE)"

lemma entry_at_alt:
  "entry_at s i =
     map_option (\<lambda>blk. blk ! (i mod METADATA_BLOCK_SIZE)) (g_metadata s ! (i div METADATA_BLOCK_SIZE))"
  by (auto simp: entry_at_def metadata_at_def Let_def split: option.splits)

lemma block_in_range: "i < MAX_OBJECT_METADATA \<Longrightarrow> i div METADATA_BLOCK_SIZE < METADATA_BLOCK_COUNT"
  by (simp add: metadata_consts less_mult_imp_div_less)

lemma offset_in_range: "i mod METADATA_BLOCK_SIZE < METADATA_BLOCK_SIZE"
  by (simp add: metadata_consts)

lemma same_block_offset:
  "i div METADATA_BLOCK_SIZE = j div METADATA_BLOCK_SIZE \<Longrightarrow>
   i mod METADATA_BLOCK_SIZE = j mod METADATA_BLOCK_SIZE \<Longrightarrow> i = j"
  by (metis div_mult_mod_eq)

lemma objs_entry_upd [simp]: "objs (entry_upd i e s) = objs s"
  by (simp add: entry_upd_def Let_def)

lemma finalizer_entry_upd [simp]: "g_bobject_finalizer (entry_upd i e s) = g_bobject_finalizer s"
  by (simp add: entry_upd_def Let_def)

lemma g_metadata_upd_obj [simp]: "g_metadata (upd_obj a b s) = g_metadata s"
  by (simp add: upd_obj_def)

lemma entry_at_upd_obj [simp]: "entry_at (upd_obj a b s) i = entry_at s i"
  by (simp add: entry_at_alt)

lemma meta_view_upd_obj [simp]: "meta_view (upd_obj a b s) = meta_view s"
  by (rule ext) (simp add: meta_view_def)

lemma shape_ok_upd_obj [simp]: "shape_ok (upd_obj a b s) = shape_ok s"
  by (simp add: shape_ok_def)

lemma shape_ok_entry_upd [simp]:
  assumes "shape_ok s"
  shows "shape_ok (entry_upd i e s)"
  unfolding shape_ok_def
proof (intro conjI allI impI)
  show "length (g_metadata (entry_upd i e s)) = METADATA_BLOCK_COUNT"
    using assms by (simp add: shape_ok_def entry_upd_def Let_def)
next
  fix b blk
  assume b: "b < METADATA_BLOCK_COUNT" and blk: "g_metadata (entry_upd i e s) ! b = Some blk"
  show "length blk = METADATA_BLOCK_SIZE"
    using assms b blk
    by (cases "b = i div METADATA_BLOCK_SIZE")
      (auto simp: shape_ok_def entry_upd_def Let_def)
qed

lemma entry_at_entry_upd:
  assumes "shape_ok s" and "i < MAX_OBJECT_METADATA" and "entry_at s i \<noteq> None"
  shows "entry_at (entry_upd i e s) j = (if j = i then Some e else entry_at s j)"
proof -
  let ?b = "i div METADATA_BLOCK_SIZE"
  from assms(3) obtain blk where blk: "g_metadata s ! ?b = Some blk"
    by (auto simp: entry_at_alt)
  have len: "?b < length (g_metadata s)" and len': "length blk = METADATA_BLOCK_SIZE"
    using assms blk block_in_range [OF assms(2)] by (auto simp: shape_ok_def)
  show ?thesis
  proof (cases "j div METADATA_BLOCK_SIZE = ?b")
    case True
    have "j mod METADATA_BLOCK_SIZE = i mod METADATA_BLOCK_SIZE \<longleftrightarrow> j = i"
      using True same_block_offset [of j i] by auto
    then show ?thesis
      using True blk len len' offset_in_range [of i]
      by (auto simp: entry_at_alt entry_upd_def Let_def nth_list_update)
  next
    case False
    then show ?thesis
      by (auto simp: entry_at_alt entry_upd_def Let_def nth_list_update)
  qed
qed

lemma meta_view_entry_upd:
  "shape_ok s \<Longrightarrow> i < MAX_OBJECT_METADATA \<Longrightarrow> entry_at s i \<noteq> None \<Longrightarrow>
     meta_view (entry_upd i e s) = (meta_view s)(i := e)"
  by (rule ext) (simp add: meta_view_def entry_at_entry_upd)

text \<open>Creating a block changes no entry of the view.\<close>

lemma metadata_at_create:
  assumes "shape_ok s" and "i < MAX_OBJECT_METADATA" and "metadata_at i True ok s = (s', r)"
  shows "shape_ok s'" and "meta_view s' = meta_view s" and "objs s' = objs s"
    and "r \<noteq> None \<Longrightarrow> entry_at s' i = r"
    and "g_bobject_finalizer s' = g_bobject_finalizer s"
proof -
  let ?b = "i div METADATA_BLOCK_SIZE"
  let ?blk = "replicate METADATA_BLOCK_SIZE object_metadata_default"
  have len: "?b < length (g_metadata s)"
    using assms(1) block_in_range [OF assms(2)] by (simp add: shape_ok_def)
  show "shape_ok s'"
    using assms len
    by (auto simp: metadata_at_def shape_ok_def Let_def nth_list_update split: option.splits if_splits)
  show "objs s' = objs s" and "g_bobject_finalizer s' = g_bobject_finalizer s"
    using assms(3) by (auto simp: metadata_at_def Let_def split: option.splits if_splits)
  show "r \<noteq> None \<Longrightarrow> entry_at s' i = r"
    using assms(3) len
    by (auto simp: metadata_at_def entry_at_alt Let_def split: option.splits if_splits)
  show "meta_view s' = meta_view s"
  proof (rule ext)
    fix j
    show "meta_view s' j = meta_view s j"
      using assms(3) len offset_in_range [of j]
      by (auto simp: metadata_at_def meta_view_def entry_at_alt Let_def nth_list_update
          split: option.splits if_splits)
  qed
qed

section \<open>The invariant\<close>

text \<open>
  Over the view: a live or retired entry is linked both ways with its object; only live
  entries have a parent, the parent is live and is the object recorded; the dependent
  count of an entry is the number of its children.
\<close>

definition children :: "(nat \<Rightarrow> object_metadata) \<Rightarrow> nat \<Rightarrow> nat set" where
  "children v p =
     {c. c < MAX_OBJECT_METADATA \<and> parent_id (v c) \<noteq> KOBJECT_ID_INVALID \<and>
         parent_slot (v c) = of_nat p + 1}"

definition linked :: "(nat \<Rightarrow> object_metadata) \<Rightarrow> (addr \<Rightarrow> bobject option) \<Rightarrow> nat \<Rightarrow> bool" where
  "linked v ob i \<longleftrightarrow>
     (\<exists>a b. md_object (v i) = Some a \<and> ob a = Some b \<and> object_flags b = of_nat i + 1 \<and>
            ko_id b \<noteq> KOBJECT_ID_INVALID)"

text \<open>The identity under which a child records its parent.\<close>

definition identity ::
  "(addr \<Rightarrow> bobject option) \<Rightarrow> addr option \<Rightarrow> (kobject_type \<times> u32 \<times> u32) option" where
  "identity ob m =
     Option.bind m (\<lambda>a. map_option (\<lambda>b. (ko_type b, ko_id b, ko_generation b)) (ob a))"

definition parent_ok :: "(nat \<Rightarrow> object_metadata) \<Rightarrow> (addr \<Rightarrow> bobject option) \<Rightarrow> nat \<Rightarrow> bool" where
  "parent_ok v ob c \<longleftrightarrow>
     md_active (v c) \<and>
     (\<exists>p. p < MAX_OBJECT_METADATA \<and> p \<noteq> c \<and> parent_slot (v c) = of_nat p + 1 \<and>
        md_active (v p) \<and>
        identity ob (md_object (v p)) =
          Some (parent_type (v c), parent_id (v c), parent_generation (v c)))"

definition view_inv :: "(nat \<Rightarrow> object_metadata) \<Rightarrow> (addr \<Rightarrow> bobject option) \<Rightarrow> bool" where
  "view_inv v ob \<longleftrightarrow>
     (\<forall>i < MAX_OBJECT_METADATA.
        (md_active (v i) \<or> reclaim_pending (v i) \<longrightarrow> linked v ob i) \<and>
        \<not> (md_active (v i) \<and> reclaim_pending (v i)) \<and>
        (parent_id (v i) \<noteq> KOBJECT_ID_INVALID \<longrightarrow> parent_ok v ob i) \<and>
        dependent_count (v i) = of_nat (card (children v i)))"

definition meta_inv :: "'a meta_state_scheme \<Rightarrow> bool" where
  "meta_inv s \<longleftrightarrow> shape_ok s \<and> view_inv (meta_view s) (objs s)"

section \<open>What the invariant gives\<close>

lemma view_invD:
  assumes "view_inv v ob" and "i < MAX_OBJECT_METADATA"
  shows "md_active (v i) \<or> reclaim_pending (v i) \<Longrightarrow> linked v ob i"
    and "md_active (v i) \<Longrightarrow> \<not> reclaim_pending (v i)"
    and "parent_id (v i) \<noteq> KOBJECT_ID_INVALID \<Longrightarrow> parent_ok v ob i"
    and "dependent_count (v i) = of_nat (card (children v i))"
  using assms unfolding view_inv_def by blast+

lemma slot_inject:
  assumes "i < MAX_OBJECT_METADATA" and "j < MAX_OBJECT_METADATA"
  shows "(of_nat i :: u32) = of_nat j \<longleftrightarrow> i = j"
proof
  assume "(of_nat i :: u32) = of_nat j"
  then have "unat (of_nat i :: u32) = unat (of_nat j :: u32)" by simp
  with assms show "i = j" by (simp add: metadata_consts unat_of_nat)
qed simp

lemma slot_nonzero: "i < MAX_OBJECT_METADATA \<Longrightarrow> (of_nat i + 1 :: u32) \<noteq> 0"
  by (simp add: metadata_consts unat_eq_zero [symmetric] unat_word_ariths unat_of_nat)

lemma slot_index: "i < MAX_OBJECT_METADATA \<Longrightarrow> unat ((of_nat i + 1 :: u32) - 1) = i"
  by (simp add: metadata_consts unat_of_nat)

lemma children_finite [simp]: "finite (children v p)"
  by (simp add: children_def)

lemma card_children_le: "card (children v p) \<le> MAX_OBJECT_METADATA"
  using card_mono [of "{..<MAX_OBJECT_METADATA}" "children v p"]
  by (auto simp: children_def subset_iff)

lemma dependent_count_zero:
  assumes "view_inv v ob" and "i < MAX_OBJECT_METADATA"
  shows "dependent_count (v i) = 0 \<longleftrightarrow> children v i = {}"
proof -
  have "card (children v i) < 2 ^ 32"
    using card_children_le [of v i] by (simp add: metadata_consts)
  then have "(of_nat (card (children v i)) :: u32) = 0 \<longleftrightarrow> card (children v i) = 0"
    by (simp add: unat_eq_zero [symmetric] unat_of_nat)
  with view_invD(4) [OF assms] show ?thesis by simp
qed

text \<open>A slot that is not live has no children, and two entries never share an object.\<close>

lemma no_children_of_inactive:
  assumes "view_inv v ob" and "i < MAX_OBJECT_METADATA" and "\<not> md_active (v i)"
  shows "children v i = {}"
proof (rule ccontr)
  assume "children v i \<noteq> {}"
  then obtain c where c: "c < MAX_OBJECT_METADATA" "parent_id (v c) \<noteq> KOBJECT_ID_INVALID"
    "parent_slot (v c) = of_nat i + 1"
    by (auto simp: children_def)
  from view_invD(3) [OF assms(1) c(1,2)] c(3) assms(2,3) show False
    by (auto simp: parent_ok_def slot_inject)
qed

lemma linked_unique:
  assumes "linked v ob i" and "linked v ob j" and "md_object (v i) = md_object (v j)"
    and "i < MAX_OBJECT_METADATA" and "j < MAX_OBJECT_METADATA"
  shows "i = j"
  using assms by (auto simp: linked_def slot_inject)

lemma entry_at_active: "md_active (meta_view s i) \<Longrightarrow> entry_at s i = Some (meta_view s i)"
  by (auto simp: meta_view_def object_metadata_default_def split: option.splits)

lemma entry_at_pending: "reclaim_pending (meta_view s i) \<Longrightarrow> entry_at s i = Some (meta_view s i)"
  by (auto simp: meta_view_def object_metadata_default_def split: option.splits)

text \<open>Under the invariant \<open>find_locked\<close> finds exactly the live entry of an object.\<close>

lemma find_locked_Some:
  "find_locked s a b = Some (i, e) \<longleftrightarrow>
     object_flags b = of_nat i + 1 \<and> i < MAX_OBJECT_METADATA \<and> e = meta_view s i \<and>
     md_active e \<and> md_object e = Some a"
proof
  assume "find_locked s a b = Some (i, e)"
  then show "object_flags b = of_nat i + 1 \<and> i < MAX_OBJECT_METADATA \<and> e = meta_view s i \<and>
     md_active e \<and> md_object e = Some a"
    by (auto simp: find_locked_def meta_view_def Let_def split: if_splits option.splits)
next
  assume "object_flags b = of_nat i + 1 \<and> i < MAX_OBJECT_METADATA \<and> e = meta_view s i \<and>
     md_active e \<and> md_object e = Some a"
  then show "find_locked s a b = Some (i, e)"
    using slot_nonzero [of i] slot_index [of i]
    by (auto simp: find_locked_def Let_def entry_at_active)
qed

lemma retired_locked_Some:
  "retired_locked s a b = Some (i, e) \<longleftrightarrow>
     object_flags b = of_nat i + 1 \<and> i < MAX_OBJECT_METADATA \<and> e = meta_view s i \<and>
     reclaim_pending e \<and> md_object e = Some a"
proof
  assume "retired_locked s a b = Some (i, e)"
  then show "object_flags b = of_nat i + 1 \<and> i < MAX_OBJECT_METADATA \<and> e = meta_view s i \<and>
     reclaim_pending e \<and> md_object e = Some a"
    by (auto simp: retired_locked_def meta_view_def Let_def split: if_splits option.splits)
next
  assume "object_flags b = of_nat i + 1 \<and> i < MAX_OBJECT_METADATA \<and> e = meta_view s i \<and>
     reclaim_pending e \<and> md_object e = Some a"
  then show "retired_locked s a b = Some (i, e)"
    using slot_nonzero [of i] slot_index [of i]
    by (auto simp: retired_locked_def Let_def entry_at_pending)
qed

lemma find_locked_view:
  assumes "view_inv (meta_view s) (objs s)" and "objs s a = Some b"
    and "i < MAX_OBJECT_METADATA" and "md_active (meta_view s i)" and "md_object (meta_view s i) = Some a"
  shows "find_locked s a b = Some (i, meta_view s i)"
proof -
  have "linked (meta_view s) (objs s) i"
    using view_invD(1) assms(1,3,4) by blast
  then show ?thesis
    using assms by (simp add: linked_def find_locked_Some)
qed

section \<open>Updates that keep the invariant\<close>

text \<open>Fields the invariant does not read may change freely.\<close>

lemma view_inv_frame:
  assumes inv: "view_inv v ob"
    and same: "md_object e = md_object (v i)" "parent_slot e = parent_slot (v i)"
      "parent_type e = parent_type (v i)" "parent_id e = parent_id (v i)"
      "parent_generation e = parent_generation (v i)" "dependent_count e = dependent_count (v i)"
      "md_active e = md_active (v i)" "reclaim_pending e = reclaim_pending (v i)"
  shows "view_inv (v(i := e)) ob"
proof -
  define w where "w = v(i := e)"
  have w: "md_object (w j) = md_object (v j)" "parent_slot (w j) = parent_slot (v j)"
    "parent_type (w j) = parent_type (v j)" "parent_id (w j) = parent_id (v j)"
    "parent_generation (w j) = parent_generation (v j)"
    "dependent_count (w j) = dependent_count (v j)" "md_active (w j) = md_active (v j)"
    "reclaim_pending (w j) = reclaim_pending (v j)" for j
    by (simp_all add: w_def same)
  have "view_inv w ob = view_inv v ob"
    unfolding view_inv_def children_def linked_def parent_ok_def w ..
  with inv show ?thesis by (simp add: w_def)
qed

lemma parent_ok_transfer:
  assumes "parent_ok v ob c"
    and "md_active (w c)" "parent_slot (w c) = parent_slot (v c)"
      "parent_type (w c) = parent_type (v c)" "parent_id (w c) = parent_id (v c)"
      "parent_generation (w c) = parent_generation (v c)"
    and "\<And>p. p < MAX_OBJECT_METADATA \<Longrightarrow> parent_slot (v c) = of_nat p + 1 \<Longrightarrow> md_active (v p) \<Longrightarrow>
           md_active (w p) \<and> identity ob' (md_object (w p)) = identity ob (md_object (v p))"
  shows "parent_ok w ob' c"
  using assms unfolding parent_ok_def by fastforce

lemma view_inv_attach:
  assumes inv: "view_inv v ob" and c: "c < MAX_OBJECT_METADATA" and p: "p < MAX_OBJECT_METADATA"
    and "c \<noteq> p" and act: "md_active (v c)" "md_active (v p)"
    and free: "parent_id (v c) = KOBJECT_ID_INVALID"
    and pa: "md_object (v p) = Some pa" "ob pa = Some pb"
  shows "view_inv (v(c := (v c)\<lparr>parent_type := ko_type pb, parent_id := ko_id pb,
                                parent_generation := ko_generation pb,
                                parent_slot := of_nat p + 1\<rparr>,
                    p := (v p)\<lparr>dependent_count := dependent_count (v p) + 1\<rparr>)) ob"
    (is "view_inv ?w ob")
proof -
  have idp: "ko_id pb \<noteq> KOBJECT_ID_INVALID"
    using view_invD(1) [OF inv p] act(2) pa by (auto simp: linked_def)
  have li: "linked ?w ob = linked v ob"
    by (auto simp: linked_def fun_eq_iff)
  have ch: "children ?w j = (if j = p then insert c (children v p) else children v j)"
    if "j < MAX_OBJECT_METADATA" for j
    using that \<open>c \<noteq> p\<close> c p free idp by (auto simp: children_def slot_inject)
  have "c \<notin> children v p"
    using free by (simp add: children_def)
  then have card: "card (children ?w p) = Suc (card (children v p))"
    using ch [OF p] by simp
  have parc: "parent_ok ?w ob c"
    unfolding parent_ok_def using \<open>c \<noteq> p\<close> p act pa
    by (auto simp: identity_def intro!: exI [of _ p])
  have par: "parent_ok ?w ob j" if "parent_ok v ob j" "j \<noteq> c" for j
    using that(1) by (rule parent_ok_transfer) (use that in \<open>auto simp: parent_ok_def\<close>)
  show ?thesis
    unfolding view_inv_def
  proof (intro allI impI)
    fix i
    assume i: "i < MAX_OBJECT_METADATA"
    show "(md_active (?w i) \<or> reclaim_pending (?w i) \<longrightarrow> linked ?w ob i) \<and>
       \<not> (md_active (?w i) \<and> reclaim_pending (?w i)) \<and>
       (parent_id (?w i) \<noteq> KOBJECT_ID_INVALID \<longrightarrow> parent_ok ?w ob i) \<and>
       dependent_count (?w i) = of_nat (card (children ?w i))"
    proof (cases "i = c")
      case True
      then show ?thesis
        using view_invD [OF inv i] parc ch [OF i] \<open>c \<noteq> p\<close> unfolding li by simp
    next
      case False
      then show ?thesis
        using view_invD [OF inv i] par [of i] ch [OF i] card unfolding li
        by (cases "i = p") auto
    qed
  qed
qed

lemma cleared_parent_fields [simp]:
  "md_object (cleared_parent e) = md_object e" "parent_slot (cleared_parent e) = 0"
  "parent_id (cleared_parent e) = KOBJECT_ID_INVALID"
  "dependent_count (cleared_parent e) = dependent_count e"
  "reclaimer (cleared_parent e) = reclaimer e"
  "md_active (cleared_parent e) = md_active e"
  "reclaim_pending (cleared_parent e) = reclaim_pending e"
  by (simp_all add: cleared_parent_def)

lemma pred_count: "d = of_nat n \<Longrightarrow> n = Suc m \<Longrightarrow> d - 1 = (of_nat m :: u32)"
  by simp

lemma view_inv_clear:
  assumes inv: "view_inv v ob" and c: "c < MAX_OBJECT_METADATA" and p: "p < MAX_OBJECT_METADATA"
    and "p \<noteq> c" and att: "parent_id (v c) \<noteq> KOBJECT_ID_INVALID" "parent_slot (v c) = of_nat p + 1"
  shows "view_inv (v(p := (v p)\<lparr>dependent_count := dependent_count (v p) - 1\<rparr>,
                    c := cleared_parent (v c))) ob"
    (is "view_inv ?w ob")
proof -
  have li: "linked ?w ob = linked v ob"
    by (rule ext) (simp add: linked_def)
  have ch: "children ?w j = (if j = p then children v p - {c} else children v j)"
    if "j < MAX_OBJECT_METADATA" for j
    using that \<open>p \<noteq> c\<close> c p att by (auto simp: children_def slot_inject)
  have "c \<in> children v p"
    using c att by (simp add: children_def)
  then have "card (children v p) = Suc (card (children v p - {c}))"
    using card_Suc_Diff1 [OF children_finite] by metis
  moreover have "children v p - {c} = children ?w p"
    using ch [OF p] by simp
  ultimately have "card (children v p) = Suc (card (children ?w p))"
    by (simp only:)
  then have "dependent_count (v p) - 1 = of_nat (card (children ?w p))"
    by (rule pred_count [OF view_invD(4) [OF inv p]])
  then have card: "dependent_count (?w p) = of_nat (card (children ?w p))"
    using \<open>p \<noteq> c\<close> by simp
  have par: "parent_ok ?w ob j" if "parent_ok v ob j" "j \<noteq> c" for j
    using that(1)
    by (rule parent_ok_transfer) (use that in \<open>auto simp: parent_ok_def\<close>)
  show ?thesis
    unfolding view_inv_def
  proof (intro allI impI)
    fix i
    assume i: "i < MAX_OBJECT_METADATA"
    show "(md_active (?w i) \<or> reclaim_pending (?w i) \<longrightarrow> linked ?w ob i) \<and>
       \<not> (md_active (?w i) \<and> reclaim_pending (?w i)) \<and>
       (parent_id (?w i) \<noteq> KOBJECT_ID_INVALID \<longrightarrow> parent_ok ?w ob i) \<and>
       dependent_count (?w i) = of_nat (card (children ?w i))"
    proof (cases "i = c")
      case True
      then show ?thesis
        using view_invD [OF inv i] ch [OF i] \<open>p \<noteq> c\<close> unfolding li by simp
    next
      case False
      have "dependent_count (?w i) = of_nat (card (children ?w i))"
      proof (cases "i = p")
        case True
        show ?thesis unfolding True by (rule card)
      next
        case np: False
        with False view_invD(4) [OF inv i] ch [OF i] show ?thesis by simp
      qed
      with False show ?thesis
        using view_invD(1-3) [OF inv i] par [of i] unfolding li by (cases "i = p") auto
    qed
  qed
qed

text \<open>
  The steps that change whether one slot is live. The entry has no parent and no
  children before and after, and the object headers keep their identities.
\<close>

lemma view_inv_slot:
  assumes inv: "view_inv v ob" and i: "i < MAX_OBJECT_METADATA"
    and nochild: "children v i = {}" and noparent: "parent_id (v i) = KOBJECT_ID_INVALID"
    and e: "parent_id e = KOBJECT_ID_INVALID" "dependent_count e = 0"
      "\<not> (md_active e \<and> reclaim_pending e)"
    and link: "md_active e \<or> reclaim_pending e \<Longrightarrow> linked (v(i := e)) ob' i"
    and others: "\<And>j. j < MAX_OBJECT_METADATA \<Longrightarrow> j \<noteq> i \<Longrightarrow> linked v ob j \<Longrightarrow> linked (v(i := e)) ob' j"
    and ids: "\<And>m. identity ob' m = identity ob m"
  shows "view_inv (v(i := e)) ob'"
proof -
  let ?w = "v(i := e)"
  have ch: "children ?w j = children v j" for j
    using noparent e by (auto simp: children_def)
  have par: "parent_ok ?w ob' j" if j: "j < MAX_OBJECT_METADATA"
    and pid: "parent_id (v j) \<noteq> KOBJECT_ID_INVALID" for j
  proof (rule parent_ok_transfer)
    show ok: "parent_ok v ob j" using inv j pid by (rule view_invD(3))
    have "j \<noteq> i" using pid noparent by auto
    then show "md_active (?w j)" "parent_slot (?w j) = parent_slot (v j)"
      "parent_type (?w j) = parent_type (v j)" "parent_id (?w j) = parent_id (v j)"
      "parent_generation (?w j) = parent_generation (v j)"
      using ok by (auto simp: parent_ok_def)
    fix p
    assume "parent_slot (v j) = of_nat p + 1" and "md_active (v p)"
    then have "p \<noteq> i" using nochild j pid by (auto simp: children_def)
    then show "md_active (?w p) \<and> identity ob' (md_object (?w p)) = identity ob (md_object (v p))"
      using \<open>md_active (v p)\<close> by (simp add: ids)
  qed
  show ?thesis
    unfolding view_inv_def
  proof (intro allI impI)
    fix j
    assume j: "j < MAX_OBJECT_METADATA"
    show "(md_active (?w j) \<or> reclaim_pending (?w j) \<longrightarrow> linked ?w ob' j) \<and>
       \<not> (md_active (?w j) \<and> reclaim_pending (?w j)) \<and>
       (parent_id (?w j) \<noteq> KOBJECT_ID_INVALID \<longrightarrow> parent_ok ?w ob' j) \<and>
       dependent_count (?w j) = of_nat (card (children ?w j))"
    proof (cases "j = i")
      case True
      then show ?thesis using link e nochild ch by simp
    next
      case False
      then show ?thesis using view_invD [OF inv j] others [OF j False] par [OF j] ch by auto
    qed
  qed
qed

lemma linked_other:
  assumes "linked v ob j" and "j \<noteq> i" and "\<And>a b. md_object (v j) = Some a \<Longrightarrow> ob a = Some b \<Longrightarrow>
     object_flags b = of_nat j + 1 \<Longrightarrow> ob' a = ob a"
  shows "linked (v(i := e)) ob' j"
  using assms by (auto simp: linked_def)

lemma identity_flags:
  assumes "ob a = Some b"
  shows "identity (ob(a := Some (b\<lparr>object_flags := f\<rparr>))) m = identity ob m"
  using assms by (cases m) (auto simp: identity_def)

section \<open>The operations keep the invariant\<close>

lemma meta_invD: "meta_inv s \<Longrightarrow> shape_ok s" "meta_inv s \<Longrightarrow> view_inv (meta_view s) (objs s)"
  by (simp_all add: meta_inv_def)

lemma meta_inv_entry_upd:
  assumes "meta_inv s" and "i < MAX_OBJECT_METADATA" and "entry_at s i \<noteq> None"
    and "view_inv ((meta_view s)(i := e)) (objs s)"
  shows "meta_inv (entry_upd i e s)"
  using assms by (simp add: meta_inv_def meta_view_entry_upd)

text \<open>An update of the owner, the reclaimer or the generation goes through this.\<close>

lemma meta_inv_frame:
  assumes "meta_inv s" and "find_locked s a b = Some (i, e)"
    and "md_object e' = md_object e" "parent_slot e' = parent_slot e"
      "parent_type e' = parent_type e" "parent_id e' = parent_id e"
      "parent_generation e' = parent_generation e" "dependent_count e' = dependent_count e"
      "md_active e' = md_active e" "reclaim_pending e' = reclaim_pending e"
  shows "meta_inv (entry_upd i e' s)"
proof -
  have e: "i < MAX_OBJECT_METADATA" "e = meta_view s i" "md_active (meta_view s i)"
    using assms(2) by (auto simp: find_locked_Some)
  have "view_inv ((meta_view s)(i := e')) (objs s)"
    using meta_invD(2) [OF assms(1)] by (rule view_inv_frame) (use assms e in simp_all)
  then show ?thesis
    using assms(1) e by (intro meta_inv_entry_upd) (auto simp: entry_at_active)
qed

lemma clear_parent_locked_ok:
  assumes inv: "meta_inv s" and c: "c < MAX_OBJECT_METADATA" and act: "md_active (meta_view s c)"
  obtains s' where "clear_parent_locked c (meta_view s c) s = Done s'" and "meta_inv s'"
    and "objs s' = objs s" and "g_bobject_finalizer s' = g_bobject_finalizer s"
    and "parent_id (meta_view s' c) = KOBJECT_ID_INVALID"
    and "dependent_count (meta_view s' c) = dependent_count (meta_view s c)"
    and "\<And>j. md_active (meta_view s' j) = md_active (meta_view s j) \<and>
              reclaim_pending (meta_view s' j) = reclaim_pending (meta_view s j) \<and>
              md_object (meta_view s' j) = md_object (meta_view s j) \<and>
              reclaimer (meta_view s' j) = reclaimer (meta_view s j)"
    and "\<And>j. j \<noteq> c \<Longrightarrow> parent_id (meta_view s' j) = parent_id (meta_view s j) \<and>
              parent_slot (meta_view s' j) = parent_slot (meta_view s j)"
proof (cases "parent_id (meta_view s c) = KOBJECT_ID_INVALID")
  case True
  then show ?thesis
    using that [of s] inv by (simp add: clear_parent_locked_def)
next
  case False
  let ?v = "meta_view s"
  note vi = meta_invD(2) [OF inv] and sh = meta_invD(1) [OF inv]
  from view_invD(3) [OF vi c False] obtain p where
    p: "p < MAX_OBJECT_METADATA" "p \<noteq> c" "parent_slot (?v c) = of_nat p + 1" "md_active (?v p)"
    and idp: "identity (objs s) (md_object (?v p)) =
       Some (parent_type (?v c), parent_id (?v c), parent_generation (?v c))"
    by (auto simp: parent_ok_def)
  have "c \<in> children ?v p" using c False p by (simp add: children_def)
  then have dep: "dependent_count (?v p) \<noteq> 0"
    using dependent_count_zero [OF vi p(1)] by auto
  let ?pe = "(?v p)\<lparr>dependent_count := dependent_count (?v p) - 1\<rparr>"
  let ?s1 = "entry_upd p ?pe s"
  let ?s2 = "entry_upd c (cleared_parent (?v c)) ?s1"
  have v1: "meta_view ?s1 = ?v(p := ?pe)"
    using sh p by (simp add: meta_view_entry_upd entry_at_active)
  have ec: "entry_at ?s1 c = Some (?v c)"
    using sh p act by (simp add: entry_at_entry_upd entry_at_active)
  have v2: "meta_view ?s2 = ?v(p := ?pe, c := cleared_parent (?v c))"
    using sh c ec by (simp add: meta_view_entry_upd v1)
  have run: "clear_parent_locked c (?v c) s = Done ?s2"
    using False p idp dep ec slot_nonzero [OF p(1)] block_in_range [OF p(1)] slot_index [OF p(1)]
    by (auto simp: clear_parent_locked_def Let_def entry_at_active identity_def bind_eq_Some_conv
        split: option.splits)
  show ?thesis
  proof (rule that [OF run])
    show "meta_inv ?s2"
      using view_inv_clear [OF vi c p(1,2) False p(3)] sh by (simp add: meta_inv_def v2)
  qed (use p in \<open>auto simp: v2\<close>)
qed

lemma unregister_object_ok:
  assumes inv: "meta_inv s" and a: "objs s a = Some b" and f: "find_locked s a b = Some (i, e)"
    and leaf: "dependent_count e = 0"
  obtains s' where "unregister_object a s = Done (s', Inr ())" and "meta_inv s'"
    and "objs s' = objs s" and "g_bobject_finalizer s' = g_bobject_finalizer s"
    and "\<And>j. md_active (meta_view s' j) = (md_active (meta_view s j) \<and> j \<noteq> i)"
    and "\<And>j. md_object (meta_view s' j) = md_object (meta_view s j)"
    and "reclaim_pending (meta_view s' i)" and "reclaimer (meta_view s' i) = reclaimer e"
    and "\<And>j. j \<noteq> i \<Longrightarrow> parent_id (meta_view s' j) = parent_id (meta_view s j) \<and>
              parent_slot (meta_view s' j) = parent_slot (meta_view s j)"
proof -
  from f have i: "i < MAX_OBJECT_METADATA" "e = meta_view s i" "md_active (meta_view s i)"
    by (auto simp: find_locked_Some)
  obtain s1 where s1: "clear_parent_locked i (meta_view s i) s = Done s1" "meta_inv s1"
    "objs s1 = objs s" "g_bobject_finalizer s1 = g_bobject_finalizer s"
    "parent_id (meta_view s1 i) = KOBJECT_ID_INVALID"
    "dependent_count (meta_view s1 i) = dependent_count (meta_view s i)"
    and s1': "\<And>j. md_active (meta_view s1 j) = md_active (meta_view s j) \<and>
              reclaim_pending (meta_view s1 j) = reclaim_pending (meta_view s j) \<and>
              md_object (meta_view s1 j) = md_object (meta_view s j) \<and>
              reclaimer (meta_view s1 j) = reclaimer (meta_view s j)"
    "\<And>j. j \<noteq> i \<Longrightarrow> parent_id (meta_view s1 j) = parent_id (meta_view s j) \<and>
              parent_slot (meta_view s1 j) = parent_slot (meta_view s j)"
    by (rule clear_parent_locked_ok [OF inv i(1,3)]) (rule that; assumption)
  have act1: "md_active (meta_view s1 i)" and dep1: "dependent_count (meta_view s1 i) = 0"
    using s1' i leaf s1(6) by auto
  note vi1 = meta_invD(2) [OF s1(2)]
  let ?e = "(meta_view s1 i)\<lparr>md_active := False, reclaim_pending := True\<rparr>"
  let ?s2 = "entry_upd i ?e s1"
  have v2: "meta_view ?s2 = (meta_view s1)(i := ?e)"
    using meta_invD(1) [OF s1(2)] i act1 by (simp add: meta_view_entry_upd entry_at_active)
  have run: "unregister_object a s = Done (?s2, Inr ())"
    using a f leaf i(2) s1(1) act1 by (simp add: unregister_object_def entry_at_active)
  have "view_inv ((meta_view s1)(i := ?e)) (objs s1)"
  proof (rule view_inv_slot [OF vi1 i(1)])
    show "children (meta_view s1) i = {}"
      using dependent_count_zero [OF vi1 i(1)] dep1 by simp
    show "linked ((meta_view s1)(i := ?e)) (objs s1) i"
      using view_invD(1) [OF vi1 i(1)] act1 by (simp add: linked_def)
  qed (use s1(5) dep1 in \<open>simp_all add: linked_def\<close>)
  then have "meta_inv ?s2"
    using s1(2) i act1 by (intro meta_inv_entry_upd) (auto simp: entry_at_active)
  then show ?thesis
    by (rule that [OF run]) (use s1 s1' i(2) in \<open>auto simp: v2\<close>)
qed

lemma attach_ok:
  assumes inv: "meta_inv s" and "child \<noteq> parent"
    and cb: "objs s child = Some cb" "find_locked s child cb = Some (c, ce)"
    and pb: "objs s parent = Some pb" "find_locked s parent pb = Some (p, pe)"
    and free: "parent_id ce = KOBJECT_ID_INVALID"
  obtains s' where "attach child parent s = Done (s', Inr ())" and "meta_inv s'"
    and "objs s' = objs s"
    and "meta_view s' = (meta_view s)
           (c := ce\<lparr>parent_type := ko_type pb, parent_id := ko_id pb,
                    parent_generation := ko_generation pb, parent_slot := of_nat p + 1\<rparr>,
            p := pe\<lparr>dependent_count := dependent_count pe + 1\<rparr>)"
proof -
  note vi = meta_invD(2) [OF inv] and sh = meta_invD(1) [OF inv]
  from cb pb have c: "c < MAX_OBJECT_METADATA" "ce = meta_view s c" "md_active (meta_view s c)"
    "md_object (meta_view s c) = Some child"
    and p: "p < MAX_OBJECT_METADATA" "pe = meta_view s p" "md_active (meta_view s p)"
    "md_object (meta_view s p) = Some parent" "object_flags pb = of_nat p + 1"
    by (auto simp: find_locked_Some)
  have "c \<noteq> p" using c p \<open>child \<noteq> parent\<close> by auto
  let ?ce = "ce\<lparr>parent_type := ko_type pb, parent_id := ko_id pb,
                parent_generation := ko_generation pb, parent_slot := of_nat p + 1\<rparr>"
  let ?pe = "pe\<lparr>dependent_count := dependent_count pe + 1\<rparr>"
  let ?s1 = "entry_upd c ?ce s"
  let ?s2 = "entry_upd p ?pe ?s1"
  have v1: "meta_view ?s1 = (meta_view s)(c := ?ce)"
    using sh c by (simp add: meta_view_entry_upd entry_at_active)
  have "entry_at ?s1 p \<noteq> None"
    using sh c p \<open>c \<noteq> p\<close> by (simp add: entry_at_entry_upd entry_at_active)
  then have v2: "meta_view ?s2 = (meta_view s)(c := ?ce, p := ?pe)"
    using sh p(1) by (simp add: meta_view_entry_upd v1)
  have "view_inv (meta_view ?s2) (objs s)"
    unfolding v2 unfolding c(2) p(2)
    by (rule view_inv_attach [OF vi c(1) p(1) \<open>c \<noteq> p\<close> c(3) p(3)]) (use c p pb free in auto)
  then have "meta_inv ?s2" using sh by (simp add: meta_inv_def)
  moreover have "attach child parent s = Done (?s2, Inr ())"
    using assms p(5) by (simp add: attach_def)
  ultimately show ?thesis by (intro that [of ?s2]) (simp_all add: v2)
qed

lemma register_entry_ok:
  assumes inv: "meta_inv s" and a: "objs s a = Some b" "object_flags b = 0"
      "ko_id b \<noteq> KOBJECT_ID_INVALID"
    and i: "i < MAX_OBJECT_METADATA" "entry_at s i = Some e" "\<not> md_active e" "\<not> reclaim_pending e"
  shows "meta_inv (upd_obj a (b\<lparr>object_flags := of_nat i + 1\<rparr>)
                     (entry_upd i (registered_entry a owner b) s))"
proof -
  note vi = meta_invD(2) [OF inv] and sh = meta_invD(1) [OF inv]
  have v: "meta_view s i = e" using i(2) by (simp add: meta_view_def)
  let ?e = "registered_entry a owner b"
  let ?ob = "(objs s)(a := Some (b\<lparr>object_flags := of_nat i + 1\<rparr>))"
  have par: "parent_id (meta_view s i) = KOBJECT_ID_INVALID"
    using view_invD(3) [OF vi i(1)] i(3) v by (auto simp: parent_ok_def)
  have "view_inv ((meta_view s)(i := ?e)) ?ob"
  proof (rule view_inv_slot [OF vi i(1) _ par])
    show "children (meta_view s) i = {}"
      using vi i v by (simp add: no_children_of_inactive)
    show "linked ((meta_view s)(i := ?e)) ?ob i"
      using a by (simp add: linked_def registered_entry_def)
    show "identity ?ob m = identity (objs s) m" for m
      using a(1) by (rule identity_flags)
    fix j
    assume "j < MAX_OBJECT_METADATA" "j \<noteq> i" "linked (meta_view s) (objs s) j"
    then show "linked ((meta_view s)(i := ?e)) ?ob j"
      using a slot_nonzero [of j]
      by (intro linked_other [where v = "meta_view s" and i = i and ob = "objs s"]) auto
  qed (simp_all add: registered_entry_def)
  then show ?thesis
    using sh i by (simp add: meta_inv_def meta_view_entry_upd)
qed

text \<open>
  The outcome of a scan: the first free slot that can be reached takes the object, or
  nothing changes and every slot that can be reached is occupied.
\<close>

definition register_post ::
  "(nat \<Rightarrow> bool) \<Rightarrow> addr \<Rightarrow> bobject \<Rightarrow> u32 \<Rightarrow> nat \<Rightarrow> nat \<Rightarrow> 'a meta_state_scheme \<Rightarrow>
   'a meta_state_scheme \<Rightarrow> unit expected \<Rightarrow> bool" where
  "register_post alloc_ok a b owner i n s s' r \<longleftrightarrow>
     (case r of
        Inl err \<Rightarrow> err = from_memory out_of_memory \<and> meta_view s' = meta_view s \<and> objs s' = objs s \<and>
          (\<forall>j. i \<le> j \<and> j < i + n \<and> alloc_ok j \<longrightarrow>
               md_active (meta_view s j) \<or> reclaim_pending (meta_view s j))
      | Inr _ \<Rightarrow>
          (\<exists>j. i \<le> j \<and> j < i + n \<and> \<not> md_active (meta_view s j) \<and> \<not> reclaim_pending (meta_view s j) \<and>
               meta_view s' = (meta_view s)(j := registered_entry a owner b) \<and>
               objs s' = (objs s)(a := Some (b\<lparr>object_flags := of_nat j + 1\<rparr>))))"

lemma register_post_skip:
  assumes "register_post alloc_ok a b owner (Suc i) n s1 s' r"
    and "meta_view s1 = meta_view s" "objs s1 = objs s"
    and "alloc_ok i \<Longrightarrow> md_active (meta_view s i) \<or> reclaim_pending (meta_view s i)"
  shows "register_post alloc_ok a b owner i (Suc n) s s' r"
proof -
  show ?thesis
  proof (cases r)
    case (Inl err)
    have "\<forall>j. (j = i \<or> Suc i \<le> j \<and> j < Suc i + n) \<and> alloc_ok j \<longrightarrow>
            md_active (meta_view s j) \<or> reclaim_pending (meta_view s j)"
      using assms Inl by (auto simp: register_post_def)
    then show ?thesis
      using assms(1-3) Inl by (simp add: register_post_def) (metis Suc_leI le_neq_implies_less)
  next
    case (Inr u)
    then obtain j where "Suc i \<le> j" "j < Suc i + n" "\<not> md_active (meta_view s j)"
      "\<not> reclaim_pending (meta_view s j)"
      "meta_view s' = (meta_view s)(j := registered_entry a owner b)"
      "objs s' = (objs s)(a := Some (b\<lparr>object_flags := of_nat j + 1\<rparr>))"
      using assms by (auto simp: register_post_def)
    then show ?thesis using Inr by (auto simp: register_post_def intro!: exI [of _ j])
  qed
qed

lemma register_from_ok:
  assumes "meta_inv s" and "objs s a = Some b" "object_flags b = 0" "ko_id b \<noteq> KOBJECT_ID_INVALID"
    and "i + n \<le> MAX_OBJECT_METADATA" and "register_from alloc_ok a b owner i n s = (s', r)"
  shows "meta_inv s' \<and> register_post alloc_ok a b owner i n s s' r"
  using assms
proof (induction n arbitrary: i s)
  case 0
  then show ?case by (auto simp: register_post_def)
next
  case (Suc n)
  have i: "i < MAX_OBJECT_METADATA" using Suc.prems(5) by simp
  obtain s1 m where at: "metadata_at i True (alloc_ok i) s = (s1, m)"
    by (cases "metadata_at i True (alloc_ok i) s")
  note s1 = metadata_at_create [OF meta_invD(1) [OF Suc.prems(1)] i at]
  have inv1: "meta_inv s1" using Suc.prems(1) s1(1-3) by (simp add: meta_inv_def)
  have m: "m = None \<Longrightarrow> \<not> alloc_ok i"
    using at by (auto simp: metadata_at_def Let_def split: option.splits if_splits)
  show ?case
  proof (cases "\<exists>e. m = Some e \<and> \<not> md_active e \<and> \<not> reclaim_pending e")
    case True
    then obtain e where e: "m = Some e" "\<not> md_active e" "\<not> reclaim_pending e" by blast
    have at1: "entry_at s1 i = Some e" using s1(4) e by simp
    have r: "s' = upd_obj a (b\<lparr>object_flags := of_nat i + 1\<rparr>)
               (entry_upd i (registered_entry a owner b) s1)" "r = Inr ()"
      using Suc.prems(6) at e by auto
    have "meta_inv s'"
      unfolding r(1) using inv1 _ Suc.prems(3,4) i at1 e(2,3)
      by (rule register_entry_ok) (simp add: s1(3) Suc.prems(2))
    moreover have "meta_view s i = e" using at1 s1(2) by (metis meta_view_def option.simps(5))
    ultimately show ?thesis
      using r e s1 i at1 by (auto simp: register_post_def meta_view_entry_upd intro!: exI [of _ i])
  next
    case False
    then have "register_from alloc_ok a b owner (Suc i) n s1 = (s', r)"
      using Suc.prems(6) at by (auto split: option.splits if_splits)
    then have "meta_inv s'" and "register_post alloc_ok a b owner (Suc i) n s1 s' r"
      using Suc.IH [OF inv1 _ Suc.prems(3,4), of "Suc i"] Suc.prems(2,5) s1(3) by simp_all
    moreover have "alloc_ok i \<Longrightarrow> md_active (meta_view s i) \<or> reclaim_pending (meta_view s i)"
      using False m s1(4) meta_view_def [of s1 i] unfolding s1(2) by (cases m) auto
    ultimately show ?thesis using register_post_skip s1(2,3) by blast
  qed
qed

lemma complete_reclaim_ok:
  assumes inv: "meta_inv s" and a: "objs s a = Some b" and f: "retired_locked s a b = Some (i, e)"
  obtains s' where "complete_reclaim a s = Done s'" and "meta_inv s'"
    and "objs s' = (objs s)(a := Some (b\<lparr>object_flags := 0\<rparr>))"
    and "meta_view s' = (meta_view s)(i := e\<lparr>md_object := None, reclaimer := None, reclaim_pending := False\<rparr>)"
proof -
  note vi = meta_invD(2) [OF inv] and sh = meta_invD(1) [OF inv]
  from f have i: "i < MAX_OBJECT_METADATA" "e = meta_view s i" "reclaim_pending (meta_view s i)"
    "md_object (meta_view s i) = Some a" "object_flags b = of_nat i + 1"
    by (auto simp: retired_locked_Some)
  have na: "\<not> md_active (meta_view s i)" using view_invD(2) [OF vi i(1)] i(3) by blast
  have par: "parent_id (meta_view s i) = KOBJECT_ID_INVALID"
    using view_invD(3) [OF vi i(1)] na by (auto simp: parent_ok_def)
  have ch: "children (meta_view s) i = {}"
    using vi i na by (simp add: no_children_of_inactive)
  let ?e = "e\<lparr>md_object := None, reclaimer := None, reclaim_pending := False\<rparr>"
  let ?ob = "(objs s)(a := Some (b\<lparr>object_flags := 0\<rparr>))"
  have "view_inv ((meta_view s)(i := ?e)) ?ob"
  proof (rule view_inv_slot [OF vi i(1) ch par])
    show "dependent_count ?e = 0"
      using dependent_count_zero [OF vi i(1)] ch i(2) by simp
    show "identity ?ob m = identity (objs s) m" for m
      using a by (rule identity_flags)
    fix j
    assume j: "j < MAX_OBJECT_METADATA" "j \<noteq> i" "linked (meta_view s) (objs s) j"
    then show "linked ((meta_view s)(i := ?e)) ?ob j"
      using a i(5) slot_inject [OF j(1) i(1)]
      by (intro linked_other [where v = "meta_view s" and i = i and ob = "objs s"]) auto
  qed (use par na i(2) in simp_all)
  moreover let ?s1 = "upd_obj a (b\<lparr>object_flags := 0\<rparr>) (entry_upd i ?e s)"
  have "meta_view ?s1 = (meta_view s)(i := ?e)"
    using sh i by (simp add: meta_view_entry_upd entry_at_pending)
  ultimately show ?thesis
    using a f sh by (intro that [of ?s1]) (simp_all add: complete_reclaim_def meta_inv_def)
qed

lemma meta_inv_set_reclaimer:
  "meta_inv s \<Longrightarrow> set_reclaimer a r s = Done (s', res) \<Longrightarrow> meta_inv s'"
  by (auto simp: set_reclaimer_def split: option.splits if_splits intro: meta_inv_frame)

lemma meta_inv_set_owner:
  "meta_inv s \<Longrightarrow> set_owner a d s = Done (s', res) \<Longrightarrow> meta_inv s'"
  by (auto simp: set_owner_def split: option.splits intro: meta_inv_frame)

lemma meta_inv_bump_hardware_generation:
  "meta_inv s \<Longrightarrow> bump_hardware_generation a s = Done (s', res) \<Longrightarrow> meta_inv s'"
  by (auto simp: bump_hardware_generation_def Let_def split: option.splits intro: meta_inv_frame)

lemma meta_inv_attach:
  assumes "meta_inv s" and "attach c p s = Done (s', res)"
  shows "meta_inv s'"
proof (cases "res = Inr ()")
  case True
  from assms(2) True obtain cb pb i ce j pe where *: "c \<noteq> p" "objs s c = Some cb"
    "objs s p = Some pb" "find_locked s c cb = Some (i, ce)" "find_locked s p pb = Some (j, pe)"
    "parent_id ce = KOBJECT_ID_INVALID"
    by (auto simp: attach_def split: option.splits if_splits)
  from attach_ok [OF assms(1) *(1,2,4,3,5,6)] assms(2) show ?thesis by auto
next
  case False
  with assms show ?thesis
    by (auto simp: attach_def split: option.splits if_splits prod.splits)
qed

lemma meta_inv_detach:
  assumes "meta_inv s" and "detach c s = Done (s', res)"
  shows "meta_inv s'"
proof -
  have "meta_inv s1" if "find_locked s c b = Some (i, e)" "clear_parent_locked i e s = Done s1"
    for b i e s1
    using clear_parent_locked_ok [OF assms(1), of i] that by (auto simp: find_locked_Some)
  with assms show ?thesis
    by (auto simp: detach_def split: option.splits if_splits dest!: exec_bind_Done_iff [THEN iffD1])
qed

lemma meta_inv_unregister_object:
  assumes "meta_inv s" and "unregister_object a s = Done (s', res)"
  shows "meta_inv s'"
proof -
  obtain b where b: "objs s a = Some b"
    using assms(2) by (auto simp: unregister_object_def split: option.splits)
  show ?thesis
  proof (cases "\<exists>i e. find_locked s a b = Some (i, e) \<and> dependent_count e = 0")
    case True
    then obtain i e where "find_locked s a b = Some (i, e)" "dependent_count e = 0" by blast
    from unregister_object_ok [OF assms(1) b this] assms(2) show ?thesis by auto
  next
    case False
    with assms b show ?thesis
      by (auto simp: unregister_object_def split: option.splits if_splits)
  qed
qed

lemma meta_inv_register_object:
  assumes "meta_inv s" and "objs s a = Some b" "object_flags b = 0" "ko_id b \<noteq> KOBJECT_ID_INVALID"
    and "register_object alloc_ok a owner s = Done (s', res)"
  shows "meta_inv s'"
  using assms register_from_ok [OF assms(1-4), of 0 MAX_OBJECT_METADATA alloc_ok owner s' res]
  by (auto simp: register_object_def split: if_splits)

lemma meta_inv_complete_reclaim:
  assumes "meta_inv s" and "complete_reclaim a s = Done s'"
  shows "meta_inv s'"
proof -
  obtain b i e where "objs s a = Some b" "retired_locked s a b = Some (i, e)"
    using assms(2) by (auto simp: complete_reclaim_def split: option.splits)
  from complete_reclaim_ok [OF assms(1) this] assms(2) show ?thesis by auto
qed

lemmas meta_inv_intros =
  meta_inv_set_reclaimer meta_inv_set_owner meta_inv_bump_hardware_generation meta_inv_attach
  meta_inv_detach meta_inv_unregister_object meta_inv_register_object meta_inv_complete_reclaim

end
