(* ===== verification/ZX_Registry.thy ===== *)
theory ZX_Registry
  imports ZX_Metadata
begin

text \<open>
  The object registry as its clients see it: which objects are live, who is whose parent,
  in which order a tree of objects can be torn down, and what every sequence of registry
  operations keeps. The contract is the locale \<open>object_registry\<close>; the metadata table of
  \<open>ZX_Metadata\<close> is its interpretation.
\<close>

section \<open>Changes of the object headers\<close>

text \<open>
  A header change is harmless when every header that carries an index keeps the fields the
  table relies on. Reference counting, lifecycle transitions, the creation of an object at
  a free address and the release of an unregistered object are of this form.
\<close>

definition keeps_registered :: "(addr \<Rightarrow> bobject option) \<Rightarrow> (addr \<Rightarrow> bobject option) \<Rightarrow> bool" where
  "keeps_registered ob ob' \<longleftrightarrow>
     (\<forall>a b. ob a = Some b \<and> object_flags b \<noteq> 0 \<longrightarrow>
        (\<exists>b'. ob' a = Some b' \<and> object_flags b' = object_flags b \<and> ko_id b' = ko_id b \<and>
              ko_type b' = ko_type b \<and> ko_generation b' = ko_generation b))"

lemma keeps_registered_upd:
  assumes "ob a = Some b" and "object_flags b' = object_flags b" "ko_id b' = ko_id b"
    "ko_type b' = ko_type b" "ko_generation b' = ko_generation b"
  shows "keeps_registered ob (ob(a := Some b'))"
  using assms by (auto simp: keeps_registered_def)

lemma linked_keeps:
  assumes "keeps_registered ob ob'" and "linked v ob i" and "i < MAX_OBJECT_METADATA"
  shows "linked v ob' i" and "identity ob' (md_object (v i)) = identity ob (md_object (v i))"
proof -
  from assms(2) obtain a b where ab: "md_object (v i) = Some a" "ob a = Some b"
    "object_flags b = of_nat i + 1" "ko_id b \<noteq> KOBJECT_ID_INVALID"
    by (auto simp: linked_def)
  moreover from this assms(1) slot_nonzero [OF assms(3)] obtain b' where
    "ob' a = Some b'" "object_flags b' = object_flags b" "ko_id b' = ko_id b"
    "ko_type b' = ko_type b" "ko_generation b' = ko_generation b"
    unfolding keeps_registered_def by metis
  ultimately show "linked v ob' i" "identity ob' (md_object (v i)) = identity ob (md_object (v i))"
    by (auto simp: linked_def identity_def)
qed

lemma view_inv_keeps:
  assumes inv: "view_inv v ob" and k: "keeps_registered ob ob'"
  shows "view_inv v ob'"
  unfolding view_inv_def
proof (intro allI impI)
  fix i
  assume i: "i < MAX_OBJECT_METADATA"
  have "parent_ok v ob' i" if "parent_ok v ob i"
    using that
  proof (rule parent_ok_transfer)
    fix p
    assume p: "p < MAX_OBJECT_METADATA" "md_active (v p)"
    with view_invD(1) [OF inv] have "linked v ob p" by blast
    with p show "md_active (v p) \<and> identity ob' (md_object (v p)) = identity ob (md_object (v p))"
      using linked_keeps(2) [OF k] by simp
  qed (use that in \<open>auto simp: parent_ok_def\<close>)
  with view_invD [OF inv i] linked_keeps(1) [OF k _ i]
  show "(md_active (v i) \<or> reclaim_pending (v i) \<longrightarrow> linked v ob' i) \<and>
       \<not> (md_active (v i) \<and> reclaim_pending (v i)) \<and>
       (parent_id (v i) \<noteq> KOBJECT_ID_INVALID \<longrightarrow> parent_ok v ob' i) \<and>
       dependent_count (v i) = of_nat (card (children v i))"
    by blast
qed

lemma meta_inv_keeps:
  assumes "meta_inv s" and "g_metadata s' = g_metadata s" and "keeps_registered (objs s) (objs s')"
  shows "meta_inv s'"
proof -
  have "meta_view s' = meta_view s" and "shape_ok s' = shape_ok s"
    using assms(2) by (auto simp: fun_eq_iff meta_view_def entry_at_alt shape_ok_def)
  with assms(1,3) show ?thesis
    by (auto simp: meta_inv_def intro: view_inv_keeps)
qed

section \<open>Liveness and parents\<close>

definition live :: "'a meta_state_scheme \<Rightarrow> addr \<Rightarrow> bool" where
  "live s a = (case objs s a of None \<Rightarrow> False | Some b \<Rightarrow> find_locked s a b \<noteq> None)"

definition parent_of :: "'a meta_state_scheme \<Rightarrow> addr \<Rightarrow> addr option" where
  "parent_of s a =
     (case objs s a of
        None \<Rightarrow> None
      | Some b \<Rightarrow>
          (case find_locked s a b of
             None \<Rightarrow> None
           | Some (i, e) \<Rightarrow>
               if parent_id e = KOBJECT_ID_INVALID then None
               else md_object (meta_view s (unat (parent_slot e - 1)))))"

lemma live_iff:
  assumes "meta_inv s"
  shows "live s a \<longleftrightarrow>
    (\<exists>i < MAX_OBJECT_METADATA. md_active (meta_view s i) \<and> md_object (meta_view s i) = Some a)"
proof
  assume "live s a"
  then show "\<exists>i < MAX_OBJECT_METADATA. md_active (meta_view s i) \<and> md_object (meta_view s i) = Some a"
    by (auto simp: live_def find_locked_Some split: option.splits)
next
  assume "\<exists>i < MAX_OBJECT_METADATA. md_active (meta_view s i) \<and> md_object (meta_view s i) = Some a"
  then obtain i where i: "i < MAX_OBJECT_METADATA" "md_active (meta_view s i)"
    "md_object (meta_view s i) = Some a" by blast
  note vi = meta_invD(2) [OF assms]
  from view_invD(1) [OF vi i(1)] i obtain b where "objs s a = Some b" by (auto simp: linked_def)
  with find_locked_view [OF vi this i] show "live s a" by (simp add: live_def)
qed

lemma live_E:
  assumes "meta_inv s" and "live s a"
  obtains b i where "objs s a = Some b" and "find_locked s a b = Some (i, meta_view s i)"
    and "i < MAX_OBJECT_METADATA" and "md_active (meta_view s i)" and "md_object (meta_view s i) = Some a"
  using assms by (fastforce simp: live_def find_locked_Some split: option.splits)

lemma parent_of_live:
  assumes "meta_inv s" and "objs s c = Some b" and "find_locked s c b = Some (i, e)"
    and "p < MAX_OBJECT_METADATA" and "md_active (meta_view s p)" and "md_object (meta_view s p) = Some a"
  shows "parent_of s c = Some a \<longleftrightarrow>
    parent_id e \<noteq> KOBJECT_ID_INVALID \<and> parent_slot e = of_nat p + 1"
proof -
  note vi = meta_invD(2) [OF assms(1)]
  have i: "i < MAX_OBJECT_METADATA" "e = meta_view s i" using assms(3) by (auto simp: find_locked_Some)
  have lp: "linked (meta_view s) (objs s) p" using view_invD(1) [OF vi assms(4)] assms(5) by blast
  have po: "parent_of s c = (if parent_id e = KOBJECT_ID_INVALID then None
      else md_object (meta_view s (unat (parent_slot e - 1))))"
    using assms(2,3) by (simp add: parent_of_def)
  show ?thesis
  proof (cases "parent_id e = KOBJECT_ID_INVALID")
    case False
    with view_invD(3) [OF vi i(1)] i(2) obtain q where
      q: "q < MAX_OBJECT_METADATA" "parent_slot e = of_nat q + 1" "md_active (meta_view s q)"
      by (auto simp: parent_ok_def)
    have lq: "linked (meta_view s) (objs s) q" using view_invD(1) [OF vi q(1)] q(3) by blast
    have "md_object (meta_view s q) = Some a \<longleftrightarrow> q = p"
      using linked_unique [OF lq lp _ q(1) assms(4)] assms(6) by auto
    with False slot_index [OF q(1)] show ?thesis
      by (simp add: po q(2) slot_inject [OF q(1) assms(4)])
  qed (simp add: po)
qed

text \<open>An object without live children is one whose dependent count is zero.\<close>

lemma no_live_children:
  assumes "meta_inv s" and "objs s a = Some b" and "find_locked s a b = Some (i, e)"
  shows "dependent_count e = 0 \<longleftrightarrow> (\<forall>c. live s c \<longrightarrow> parent_of s c \<noteq> Some a)"
proof -
  note vi = meta_invD(2) [OF assms(1)]
  from assms(3) have i: "i < MAX_OBJECT_METADATA" "e = meta_view s i" "md_active (meta_view s i)"
    "md_object (meta_view s i) = Some a"
    by (auto simp: find_locked_Some)
  have "children (meta_view s) i = {} \<longleftrightarrow> (\<forall>c. live s c \<longrightarrow> parent_of s c \<noteq> Some a)"
  proof safe
    fix c
    assume none: "children (meta_view s) i = {}" and c: "live s c" "parent_of s c = Some a"
    from live_E [OF assms(1) c(1)] obtain cb j where "objs s c = Some cb"
      "find_locked s c cb = Some (j, meta_view s j)" "j < MAX_OBJECT_METADATA" by blast
    with c(2) none parent_of_live [OF assms(1) this(1,2) i(1,3,4)] show False
      by (auto simp: children_def)
  next
    fix j
    assume all: "\<forall>c. live s c \<longrightarrow> parent_of s c \<noteq> Some a" and "j \<in> children (meta_view s) i"
    then have j: "j < MAX_OBJECT_METADATA" "parent_id (meta_view s j) \<noteq> KOBJECT_ID_INVALID"
      "parent_slot (meta_view s j) = of_nat i + 1" by (auto simp: children_def)
    have aj: "md_active (meta_view s j)"
      using view_invD(3) [OF vi j(1,2)] by (simp add: parent_ok_def)
    with view_invD(1) [OF vi j(1)] obtain c cb where c: "md_object (meta_view s j) = Some c"
      "objs s c = Some cb" by (auto simp: linked_def)
    note fl = find_locked_view [OF vi c(2) j(1) aj c(1)]
    have "live s c" using c fl by (simp add: live_def)
    moreover have "parent_of s c = Some a"
      using parent_of_live [OF assms(1) c(2) fl i(1,3,4)] j by simp
    ultimately show "j \<in> {}" using all by blast
  qed
  then show ?thesis
    using dependent_count_zero [OF vi i(1)] i(2) by simp
qed

section \<open>The contract and its client\<close>

text \<open>
  What a client may rely on: an object with a live child cannot be unregistered and the
  attempt changes nothing; an object without live children can, and nothing else changes.
\<close>

locale object_registry =
  fixes inv :: "'s \<Rightarrow> bool"
    and is_live :: "'s \<Rightarrow> addr \<Rightarrow> bool"
    and parent :: "'s \<Rightarrow> addr \<Rightarrow> addr option"
    and unregister :: "addr \<Rightarrow> 's \<Rightarrow> ('s \<times> unit expected) exec"
  assumes unregister_leaf:
      "inv s \<Longrightarrow> is_live s a \<Longrightarrow> (\<And>c. is_live s c \<Longrightarrow> parent s c \<noteq> Some a) \<Longrightarrow>
       \<exists>s'. unregister a s = Done (s', Inr ()) \<and> inv s' \<and>
            (\<forall>x. is_live s' x = (is_live s x \<and> x \<noteq> a)) \<and>
            (\<forall>x. x \<noteq> a \<longrightarrow> parent s' x = parent s x)"
    and unregister_parent:
      "inv s \<Longrightarrow> is_live s a \<Longrightarrow> is_live s c \<Longrightarrow> parent s c = Some a \<Longrightarrow>
       unregister a s = Done (s, Inl (from_generic invalid_arg))"
begin

text \<open>Unregistering a list of objects, one after the other, stopping at the first error.\<close>

primrec unregister_all :: "addr list \<Rightarrow> 's \<Rightarrow> ('s \<times> unit expected) exec" where
  "unregister_all [] s = Done (s, Inr ())"
| "unregister_all (a # as) s =
     exec_bind (unregister a s)
       (\<lambda>(s', r). case r of Inl e \<Rightarrow> Done (s', Inl e) | Inr _ \<Rightarrow> unregister_all as s')"

text \<open>The order: every live child of a listed object is listed before it.\<close>

primrec children_first :: "'s \<Rightarrow> addr set \<Rightarrow> addr list \<Rightarrow> bool" where
  "children_first s D [] = True"
| "children_first s D (a # as) =
     ((\<forall>c. is_live s c \<and> parent s c = Some a \<longrightarrow> c \<in> D) \<and> children_first s (insert a D) as)"

lemma children_first_mono: "children_first s D as \<Longrightarrow> D \<subseteq> E \<Longrightarrow> children_first s E as"
proof (induction as arbitrary: D E)
  case (Cons a as)
  have "children_first s (insert a E) as"
    by (rule Cons.IH [of "insert a D"]) (use Cons.prems in auto)
  with Cons.prems show ?case by auto
qed simp

lemma children_first_step:
  assumes "children_first s D as" and "\<And>x. is_live s' x \<Longrightarrow> is_live s x \<and> x \<noteq> a"
    and "\<And>x. x \<noteq> a \<Longrightarrow> parent s' x = parent s x"
  shows "children_first s' (D - {a}) as"
  using assms(1)
proof (induction as arbitrary: D)
  case (Cons b bs)
  have "children_first s' (insert b D - {a}) bs"
    by (rule Cons.IH) (use Cons.prems in simp)
  then have "children_first s' (insert b (D - {a})) bs"
    by (rule children_first_mono) blast
  moreover have "c \<in> D - {a}" if "is_live s' c" "parent s' c = Some b" for c
    using that assms(2) [OF that(1)] assms(3) [of c] Cons.prems by auto
  ultimately show ?case by simp
qed simp

theorem teardown_children_first:
  assumes "inv s" and "distinct as" and "\<And>a. a \<in> set as \<Longrightarrow> is_live s a" and "children_first s {} as"
  shows "\<exists>s'. unregister_all as s = Done (s', Inr ()) \<and> inv s' \<and>
              (\<forall>x. is_live s' x = (is_live s x \<and> x \<notin> set as))"
  using assms
proof (induction as arbitrary: s)
  case (Cons a as)
  have "is_live s a" using Cons.prems(3) by simp
  moreover have "parent s c \<noteq> Some a" if "is_live s c" for c
    using Cons.prems(4) that by auto
  ultimately obtain s1 where s1: "unregister a s = Done (s1, Inr ())" "inv s1"
    "\<forall>x. is_live s1 x = (is_live s x \<and> x \<noteq> a)" "\<forall>x. x \<noteq> a \<longrightarrow> parent s1 x = parent s x"
    using unregister_leaf [OF Cons.prems(1), of a] by blast
  have "children_first s1 ({a} - {a}) as"
    by (rule children_first_step [of s]) (use Cons.prems(4) s1(3,4) in simp_all)
  moreover have "is_live s1 x" if "x \<in> set as" for x
    using that s1(3) Cons.prems(2,3) by auto
  ultimately obtain s' where "unregister_all as s1 = Done (s', Inr ())" "inv s'"
    "\<forall>x. is_live s' x = (is_live s1 x \<and> x \<notin> set as)"
    using Cons.IH [OF s1(2)] Cons.prems(2) by auto
  then show ?case using s1 by (intro exI [of _ s']) auto
qed simp

text \<open>The other order fails at the first parent and leaves the registry as it was.\<close>

theorem teardown_parent_first:
  assumes "inv s" and "is_live s a" and "is_live s c" and "parent s c = Some a"
  shows "unregister_all (a # as) s = Done (s, Inl (from_generic invalid_arg))"
  using unregister_parent [OF assms] by simp

end

lemma live_after_unregister:
  assumes "meta_inv s" and "meta_inv s'" and "i < MAX_OBJECT_METADATA" and "md_active (meta_view s i)"
    and "md_object (meta_view s i) = Some a"
    and "\<And>j. md_active (meta_view s' j) = (md_active (meta_view s j) \<and> j \<noteq> i)"
    and "\<And>j. md_object (meta_view s' j) = md_object (meta_view s j)"
  shows "live s' x = (live s x \<and> x \<noteq> a)"
proof -
  note vi = meta_invD(2) [OF assms(1)]
  have li: "linked (meta_view s) (objs s) i" using view_invD(1) [OF vi assms(3)] assms(4) by blast
  have "md_object (meta_view s j) = Some x \<Longrightarrow> j \<noteq> i \<longleftrightarrow> x \<noteq> a"
    if "j < MAX_OBJECT_METADATA" "md_active (meta_view s j)" for j
    using linked_unique [OF _ li _ that(1) assms(3)] view_invD(1) [OF vi that(1)] that assms(5) by auto
  then show ?thesis
    unfolding live_iff [OF assms(1)] live_iff [OF assms(2)] assms(6,7) by blast
qed

lemma unregister_live_leaf:
  assumes inv: "meta_inv s" and "live s a" and leaf: "\<And>c. live s c \<Longrightarrow> parent_of s c \<noteq> Some a"
  shows "\<exists>s'. unregister_object a s = Done (s', Inr ()) \<and> meta_inv s' \<and>
            (\<forall>x. live s' x = (live s x \<and> x \<noteq> a)) \<and>
            (\<forall>x. x \<noteq> a \<longrightarrow> parent_of s' x = parent_of s x)"
proof -
  obtain b i where b: "objs s a = Some b" "find_locked s a b = Some (i, meta_view s i)"
    and i: "i < MAX_OBJECT_METADATA" "md_active (meta_view s i)" "md_object (meta_view s i) = Some a"
    by (rule live_E [OF inv \<open>live s a\<close>])
  have "dependent_count (meta_view s i) = 0"
    using no_live_children [OF inv b] leaf by blast
  from unregister_object_ok [OF inv b this] obtain s' where s':
    "unregister_object a s = Done (s', Inr ())" "meta_inv s'" "objs s' = objs s"
    "\<And>j. md_active (meta_view s' j) = (md_active (meta_view s j) \<and> j \<noteq> i)"
    "\<And>j. md_object (meta_view s' j) = md_object (meta_view s j)"
    "\<And>j. j \<noteq> i \<Longrightarrow> parent_id (meta_view s' j) = parent_id (meta_view s j) \<and>
              parent_slot (meta_view s' j) = parent_slot (meta_view s j)"
    by metis
  note lv = live_after_unregister [OF inv s'(2) i s'(4,5)]
  have "parent_of s' x = parent_of s x" if "x \<noteq> a" for x
  proof (cases "live s x")
    case True
    from live_E [OF inv True] obtain xb j where x: "objs s x = Some xb"
      "find_locked s x xb = Some (j, meta_view s j)" "md_object (meta_view s j) = Some x" by metis
    from True \<open>x \<noteq> a\<close> have "live s' x" by (simp add: lv)
    then obtain k where "find_locked s' x xb = Some (k, meta_view s' k)"
      using live_E [OF s'(2)] x(1) s'(3) by (metis option.inject)
    moreover from this x have "k = j"
      by (auto simp: find_locked_Some slot_inject)
    moreover have "j \<noteq> i" using x(3) i(3) \<open>x \<noteq> a\<close> by auto
    ultimately show ?thesis
      using x s'(3) s'(5) s'(6) [of j] by (simp add: parent_of_def)
  next
    case False
    with lv [of x] show ?thesis
      by (auto simp: live_def parent_of_def split: option.splits)
  qed
  with s'(1,2) lv show ?thesis by blast
qed

lemma unregister_live_parent:
  assumes "meta_inv s" and "live s a" and "live s c" and "parent_of s c = Some a"
  shows "unregister_object a s = Done (s, Inl (from_generic invalid_arg))"
proof -
  obtain b i where "objs s a = Some b" "find_locked s a b = Some (i, meta_view s i)"
    by (rule live_E [OF assms(1,2)])
  with no_live_children [OF assms(1) this] assms(3,4) show ?thesis
    by (auto simp: unregister_object_def)
qed

interpretation md: object_registry meta_inv live parent_of unregister_object
  by unfold_locales (rule unregister_live_leaf unregister_live_parent; assumption)+

section \<open>Every sequence of operations\<close>

text \<open>
  One step of the kernel on the registry. Objects come into being by \<open>initialize\<close> at an
  unused address and leave only when they carry no index; an object is registered while it
  carries no index, which is how the object tables use \<open>register_object\<close>.
\<close>

inductive meta_step :: "'a meta_state_scheme \<Rightarrow> 'a meta_state_scheme \<Rightarrow> bool" where
  create: "objs s a = None \<Longrightarrow> meta_step s (upd_obj a (initialize bobject_default i t) s)"
| free: "objs s a = Some b \<Longrightarrow> object_flags b = 0 \<Longrightarrow> meta_step s (s\<lparr>objs := (objs s)(a := None)\<rparr>)"
| get: "bobject_try_get a s = Done (s', ok) \<Longrightarrow> meta_step s s'"
| put_ref: "objs s a = Some b \<Longrightarrow> kref_put (ko_ref b) = Done (r, l) \<Longrightarrow>
    meta_step s (upd_obj a (b\<lparr>ko_ref := r\<rparr>) s)"
| transit: "objs s a = Some b \<Longrightarrow> meta_step s (upd_obj a (fst (transition b t)) s)"
| register: "objs s a = Some b \<Longrightarrow> object_flags b = 0 \<Longrightarrow> ko_id b \<noteq> KOBJECT_ID_INVALID \<Longrightarrow>
    register_object alloc_ok a owner s = Done (s', r) \<Longrightarrow> meta_step s s'"
| unregister: "unregister_object a s = Done (s', r) \<Longrightarrow> meta_step s s'"
| attach: "attach c p s = Done (s', r) \<Longrightarrow> meta_step s s'"
| detach: "detach c s = Done (s', r) \<Longrightarrow> meta_step s s'"
| reclaimer: "set_reclaimer a f s = Done (s', r) \<Longrightarrow> meta_step s s'"
| owner: "set_owner a d s = Done (s', r) \<Longrightarrow> meta_step s s'"
| bump: "bump_hardware_generation a s = Done (s', g) \<Longrightarrow> meta_step s s'"
| reclaim: "complete_reclaim a s = Done s' \<Longrightarrow> meta_step s s'"

definition meta_initial :: "'a meta_state_scheme \<Rightarrow> bool" where
  "meta_initial s \<longleftrightarrow> objs s = Map.empty \<and> g_metadata s = replicate METADATA_BLOCK_COUNT None"

inductive meta_reach :: "'a meta_state_scheme \<Rightarrow> bool" where
  start: "meta_initial s \<Longrightarrow> meta_reach s"
| step: "meta_reach s \<Longrightarrow> meta_step s s' \<Longrightarrow> meta_reach s'"

lemma meta_inv_initial:
  assumes "meta_initial s"
  shows "meta_inv s"
proof -
  have g: "g_metadata s = replicate METADATA_BLOCK_COUNT None"
    using assms by (simp add: meta_initial_def)
  then have sh: "shape_ok s" by (simp add: shape_ok_def)
  have v: "meta_view s i = object_metadata_default" if "i < MAX_OBJECT_METADATA" for i
    using block_in_range [OF that] by (simp add: meta_view_def entry_at_alt g)
  have "children (meta_view s) i = {}" for i
    by (auto simp: children_def v object_metadata_default_def)
  then have "view_inv (meta_view s) (objs s)"
    by (simp add: view_inv_def v) (simp add: object_metadata_default_def)
  with sh show ?thesis by (simp add: meta_inv_def)
qed

text \<open>The steps that change headers only.\<close>

lemma header_steps_keep:
  "objs s a = None \<Longrightarrow> keeps_registered (objs s) (objs (upd_obj a b s))"
  "objs s a = Some b \<Longrightarrow> object_flags b = 0 \<Longrightarrow> keeps_registered (objs s) ((objs s)(a := None))"
  "objs s a = Some b \<Longrightarrow> keeps_registered (objs s) (objs (upd_obj a (b\<lparr>ko_ref := r\<rparr>) s))"
  "objs s a = Some b \<Longrightarrow> keeps_registered (objs s) (objs (upd_obj a (fst (transition b t)) s))"
  by (auto simp: keeps_registered_def transition_frame)

lemma meta_step_inv:
  assumes "meta_step s s'" and inv: "meta_inv s"
  shows "meta_inv s'"
  using assms(1)
proof (cases rule: meta_step.cases)
  case (create a i t)
  then show ?thesis
    using meta_inv_keeps [OF inv _ header_steps_keep(1)] by simp
next
  case (free a b)
  then show ?thesis
    using meta_inv_keeps [OF inv, of s'] header_steps_keep(2) [OF free(2,3)] by simp
next
  case (get a ok)
  then obtain b r where "objs s a = Some b" "s' = upd_obj a (b\<lparr>ko_ref := r\<rparr>) s"
    by (auto simp: bobject_try_get_def exec_bind_Done_iff split: option.splits prod.splits)
  then show ?thesis using meta_inv_keeps [OF inv _ header_steps_keep(3)] by simp
next
  case (put_ref a b r l)
  then show ?thesis using meta_inv_keeps [OF inv _ header_steps_keep(3)] by simp
next
  case (transit a b t)
  then show ?thesis using meta_inv_keeps [OF inv _ header_steps_keep(4)] by simp
qed (use inv in \<open>blast intro: meta_inv_intros\<close>)+

lemma meta_reach_inv: "meta_reach s \<Longrightarrow> meta_inv s"
  by (induction rule: meta_reach.induct) (auto intro: meta_inv_initial meta_step_inv)

section \<open>Retirement\<close>

lemma last_put_live_traps:
  assumes inv: "meta_inv s" and b: "objs s a = Some b" "ko_ref b = 1"
    and "find_locked s a b = Some (i, e)"
  shows "bobject_put (\<lambda>_. finalize_last_put call_rec) a s = Trap"
proof -
  from assms(4) have i: "i < MAX_OBJECT_METADATA" "object_flags b = of_nat i + 1"
    "md_active (meta_view s i)"
    by (auto simp: find_locked_Some)
  have np: "\<not> reclaim_pending (meta_view s i)"
    using view_invD(2) [OF meta_invD(2) [OF inv] i(1,3)] .
  have "retired_locked (upd_obj a (b\<lparr>ko_ref := 0\<rparr>) s) a (b\<lparr>ko_ref := 0\<rparr>) = None"
    using i slot_nonzero [OF i(1)] slot_index [OF i(1)] entry_at_active [OF i(3)] np
    by (simp add: retired_locked_def)
  then show ?thesis
    using b by (simp add: bobject_put_def kref_put_def finalize_last_put_def split: option.split)
qed

lemma unregister_retires:
  assumes "meta_inv s" and "objs s a = Some b" and "find_locked s a b = Some (i, e)"
    and "dependent_count e = 0"
  shows "\<exists>s1. unregister_object a s = Done (s1, Inr ()) \<and> meta_inv s1 \<and> objs s1 = objs s \<and>
     g_bobject_finalizer s1 = g_bobject_finalizer s \<and> md_object (meta_view s1 i) = Some a \<and>
     reclaim_pending (meta_view s1 i) \<and> reclaimer (meta_view s1 i) = reclaimer e"
  by (rule unregister_object_ok [OF assms]) (use assms(3) in \<open>auto simp: find_locked_Some\<close>)

lemma last_put_retired:
  assumes inv: "meta_inv s" and b: "objs s a = Some b" "ko_ref b = 1"
    and f: "g_bobject_finalizer s = Some f" and ret: "retired_locked s a b = Some (i, e)"
    and "reclaimer e = Some g" and g: "\<And>x t. call_rec g x t = complete_reclaim x t"
  shows "\<exists>s2. bobject_put (\<lambda>_. finalize_last_put call_rec) a s = Done s2 \<and> meta_inv s2 \<and>
     objs s2 a = Some (b\<lparr>ko_ref := 0, object_flags := 0\<rparr>) \<and>
     \<not> md_active (meta_view s2 i) \<and> \<not> reclaim_pending (meta_view s2 i)"
proof -
  let ?b0 = "b\<lparr>ko_ref := 0\<rparr>"
  let ?t = "upd_obj a ?b0 s"
  from ret have i: "i < MAX_OBJECT_METADATA" "e = meta_view s i" "reclaim_pending (meta_view s i)"
    "object_flags b = of_nat i + 1" "md_object (meta_view s i) = Some a"
    by (auto simp: retired_locked_Some)
  have na: "\<not> md_active (meta_view s i)"
    using view_invD(2) [OF meta_invD(2) [OF inv] i(1)] i(3) by blast
  have inv_t: "meta_inv ?t"
    using meta_inv_keeps [OF inv _ header_steps_keep(3) [OF b(1)]] by simp
  have ret_t: "retired_locked ?t a ?b0 = Some (i, meta_view s i)"
    using i by (simp add: retired_locked_Some)
  have ota: "objs ?t a = Some ?b0" by simp
  from complete_reclaim_ok [OF inv_t ota ret_t] obtain s2 where s2: "complete_reclaim a ?t = Done s2"
    "meta_inv s2" "objs s2 = (objs ?t)(a := Some (?b0\<lparr>object_flags := 0\<rparr>))"
    "meta_view s2 = (meta_view ?t)(i := (meta_view s i)\<lparr>md_object := None, reclaimer := None, reclaim_pending := False\<rparr>)" .
  have "bobject_put (\<lambda>_. finalize_last_put call_rec) a s = Done s2"
    using b f ret_t s2(1) assms(6) i(2) g
    by (simp add: bobject_put_def kref_put_def finalize_last_put_def)
  then show ?thesis using s2 na by (intro exI [of _ s2]) simp
qed

section \<open>A sample history\<close>

text \<open>
  A domain at address 1 and a vm region at address 2 are created and registered with owner
  7, and the region is attached to the domain. The states on the way are written out, so
  that the properties can be applied to a concrete registry.
\<close>

definition sample_objects :: "u32 \<Rightarrow> u32 \<Rightarrow> addr \<Rightarrow> bobject option" where
  "sample_objects f1 f2 =
     [1 \<mapsto> (initialize bobject_default 10 KT_domain)\<lparr>object_flags := f1\<rparr>,
      2 \<mapsto> (initialize bobject_default 20 KT_vm_region)\<lparr>object_flags := f2\<rparr>]"

definition sample_state :: "u32 \<Rightarrow> u32 \<Rightarrow> object_metadata list option list \<Rightarrow> meta_state" where
  "sample_state f1 f2 g =
     \<lparr>objs = sample_objects f1 f2, g_bobject_finalizer = Some 5, g_metadata = g\<rparr>"

definition sample_entry1 :: "u32 \<Rightarrow> object_metadata" where
  "sample_entry1 n = (registered_entry 1 7 (initialize bobject_default 10 KT_domain))\<lparr>dependent_count := n\<rparr>"

definition sample_entry2 :: object_metadata where
  "sample_entry2 = registered_entry 2 7 (initialize bobject_default 20 KT_vm_region)"

definition sample_entry2_attached :: object_metadata where
  "sample_entry2_attached =
     sample_entry2\<lparr>parent_type := KT_domain, parent_id := 10, parent_generation := 0, parent_slot := 1\<rparr>"

definition sample_blocks :: "object_metadata \<Rightarrow> object_metadata \<Rightarrow> object_metadata list option list" where
  "sample_blocks e1 e2 =
     (replicate METADATA_BLOCK_COUNT None)[0 :=
        Some ((replicate METADATA_BLOCK_SIZE object_metadata_default)[0 := e1, 1 := e2])]"

definition sample_tree :: meta_state where
  "sample_tree = sample_state 1 2 (sample_blocks (sample_entry1 1) sample_entry2_attached)"

lemma register_from_hit:
  assumes "metadata_at i True (alloc_ok i) s = (s', Some e)" and "\<not> md_active e" "\<not> reclaim_pending e"
    and "0 < n"
  shows "register_from alloc_ok a b owner i n s =
     (upd_obj a (b\<lparr>object_flags := of_nat i + 1\<rparr>) (entry_upd i (registered_entry a owner b) s'), Inr ())"
  using assms by (cases n) auto

lemma register_from_pass:
  assumes "metadata_at i True (alloc_ok i) s = (s', Some e)" and "md_active e" and "0 < n"
  shows "register_from alloc_ok a b owner i n s = register_from alloc_ok a b owner (Suc i) (n - 1) s'"
  using assms by (cases n) auto

lemmas sample_defs =
  sample_state_def sample_objects_def sample_blocks_def sample_entry1_def sample_entry2_def
  sample_entry2_attached_def metadata_at_def entry_at_alt entry_upd_def upd_obj_def
  find_locked_def registered_entry_def object_metadata_default_def initialize_def
  bobject_default_def KOBJECT_ID_INVALID_def Let_def

lemma sample_registered_1:
  "register_object (\<lambda>_. True) 1 7 (sample_state 0 0 (replicate METADATA_BLOCK_COUNT None)) =
     Done (sample_state 1 0 (sample_blocks (sample_entry1 0) object_metadata_default), Inr ())"
  by (subst register_object_def)
    (simp add: sample_defs metadata_consts register_from_hit fun_upd_twist list_update_swap
      replicate_update_same)

lemma sample_registered_2:
  "register_object (\<lambda>_. True) 2 7 (sample_state 1 0 (sample_blocks (sample_entry1 0) object_metadata_default)) =
     Done (sample_state 1 2 (sample_blocks (sample_entry1 0) sample_entry2), Inr ())"
  by (subst register_object_def)
    (simp add: sample_defs metadata_consts register_from_hit register_from_pass fun_upd_twist
      list_update_swap replicate_update_same)

lemma sample_attached:
  "attach 2 1 (sample_state 1 2 (sample_blocks (sample_entry1 0) sample_entry2)) = Done (sample_tree, Inr ())"
  by (simp add: attach_def sample_tree_def sample_defs metadata_consts fun_upd_twist
      list_update_swap replicate_update_same)

lemma sample_created:
  "sample_state 0 0 g =
     upd_obj 2 (initialize bobject_default 20 KT_vm_region)
       (upd_obj 1 (initialize bobject_default 10 KT_domain)
          \<lparr>objs = Map.empty, g_bobject_finalizer = Some 5, g_metadata = g\<rparr>)"
  by (simp add: sample_defs)

lemma sample_untouched_reach: "meta_reach (sample_state 0 0 (replicate METADATA_BLOCK_COUNT None))"
proof -
  let ?s = "\<lparr>objs = Map.empty, g_bobject_finalizer = Some 5, g_metadata = replicate METADATA_BLOCK_COUNT None\<rparr>"
  have "meta_reach ?s"
    by (rule meta_reach.start) (simp add: meta_initial_def)
  then show ?thesis
    unfolding sample_created
    by (intro meta_reach.step [OF _ meta_step.create] meta_reach.step [OF _ meta_step.create])
      (simp_all add: upd_obj_def)
qed

lemma sample_registered_reach:
  "meta_reach (sample_state 1 0 (sample_blocks (sample_entry1 0) object_metadata_default))"
  by (rule meta_reach.step [OF sample_untouched_reach])
    (rule meta_step.register [OF _ _ _ sample_registered_1],
      (simp add: sample_state_def sample_objects_def initialize_def KOBJECT_ID_INVALID_def)+)

lemma sample_tree_reach: "meta_reach sample_tree"
proof -
  have "meta_reach (sample_state 1 2 (sample_blocks (sample_entry1 0) sample_entry2))"
    by (rule meta_reach.step [OF sample_registered_reach])
      (rule meta_step.register [OF _ _ _ sample_registered_2],
        (simp add: sample_state_def sample_objects_def initialize_def KOBJECT_ID_INVALID_def)+)
  then show ?thesis
    by (rule meta_reach.step) (rule meta_step.attach [OF sample_attached])
qed

definition sample_single :: meta_state where
  "sample_single =
     sample_state 1 0 (sample_blocks ((sample_entry1 0)\<lparr>reclaimer := Some 9\<rparr>) object_metadata_default)"

lemma sample_single_reach: "meta_reach sample_single"
proof -
  have "set_reclaimer 1 (Some 9) (sample_state 1 0 (sample_blocks (sample_entry1 0) object_metadata_default)) =
      Done (sample_single, Inr ())"
    by (simp add: set_reclaimer_def sample_single_def sample_defs metadata_consts list_update_swap
        replicate_update_same)
  then show ?thesis
    by (intro meta_reach.step [OF sample_registered_reach] meta_step.reclaimer)
qed

lemma sample_tree_facts:
  "live sample_tree 1" "live sample_tree 2" "parent_of sample_tree 2 = Some 1"
  "parent_of sample_tree 1 = None"
  by (simp_all add: live_def parent_of_def meta_view_def sample_tree_def sample_defs metadata_consts)

lemma sample_tree_live: "live sample_tree a \<longleftrightarrow> a = 1 \<or> a = 2"
  using sample_tree_facts(1,2)
  by (auto simp: live_def sample_tree_def sample_state_def sample_objects_def split: if_splits)

lemma sample_tree_parents:
  "(\<exists>c. live sample_tree c \<and> parent_of sample_tree c = Some 1)"
  "\<not> (\<exists>c. live sample_tree c \<and> parent_of sample_tree c = Some 2)"
  using sample_tree_facts by (auto simp: sample_tree_live)

section \<open>Properties\<close>







text \<open>
  C22. Retirement: a live object without live children, with one reference left and a
  reclaimer, can be unregistered; dropping the last reference then runs the reclaimer, and
  when that reclaimer completes the reclaim the header is free of its index, its reference
  count is zero, the object is not live, and its slot can be registered again. While the
  object is still live, dropping its last reference traps.
\<close>

theorem retirement_cycle:
  assumes reach: "meta_reach s" and b: "objs s a = Some b" "ko_ref b = 1"
    and f: "g_bobject_finalizer s = Some f" and leaf: "\<forall>c. live s c \<longrightarrow> parent_of s c \<noteq> Some a"
    and e: "metadata a s = Done (Inr e)" "reclaimer e = Some g"
    and g: "\<forall>x t. call_rec g x t = complete_reclaim x t"
  shows "bobject_put (\<lambda>_. finalize_last_put call_rec) a s = Trap \<and>
    (\<exists>s1 s2. unregister_object a s = Done (s1, Inr ()) \<and>
       bobject_put (\<lambda>_. finalize_last_put call_rec) a s1 = Done s2 \<and>
       objs s2 a = Some (b\<lparr>ko_ref := 0, object_flags := 0\<rparr>) \<and> \<not> live s2 a \<and>
       (let i = unat (object_flags b - 1)
        in \<not> md_active (meta_view s2 i) \<and> \<not> reclaim_pending (meta_view s2 i)))"
proof -
  note inv = meta_reach_inv [OF reach]
  from e(1) b(1) obtain i where fl: "find_locked s a b = Some (i, e)"
    by (auto simp: metadata_def split: option.splits)
  then have i: "i < MAX_OBJECT_METADATA" "object_flags b = of_nat i + 1"
    by (auto simp: find_locked_Some)
  have "dependent_count e = 0"
    using no_live_children [OF inv b(1) fl] leaf by blast
  from unregister_retires [OF inv b(1) fl this] obtain s1 where
    s1: "unregister_object a s = Done (s1, Inr ())" "meta_inv s1" "objs s1 a = Some b"
      "g_bobject_finalizer s1 = Some f" "reclaimer (meta_view s1 i) = Some g"
    and ret: "retired_locked s1 a b = Some (i, meta_view s1 i)"
    using b f e(2) i by (auto simp: retired_locked_Some)
  obtain s2 where s2: "bobject_put (\<lambda>_. finalize_last_put call_rec) a s1 = Done s2"
    "objs s2 a = Some (b\<lparr>ko_ref := 0, object_flags := 0\<rparr>)"
    "\<not> md_active (meta_view s2 i)" "\<not> reclaim_pending (meta_view s2 i)"
    using last_put_retired [OF s1(2,3) b(2) s1(4) ret s1(5), of call_rec] g by auto
  moreover have "\<not> live s2 a"
    using s2(2) by (simp add: live_def find_locked_def)
  ultimately show ?thesis
    using last_put_live_traps [OF inv b fl] s1(1) i(2) slot_index [OF i(1)]
    by (auto simp del: exec.distinct)
qed

theorem retirement_cycle_witness:
  "bobject_put (\<lambda>_. finalize_last_put (\<lambda>_. complete_reclaim)) 1 sample_single = Trap \<and>
   (\<exists>s1 s2. unregister_object 1 sample_single = Done (s1, Inr ()) \<and>
      bobject_put (\<lambda>_. finalize_last_put (\<lambda>_. complete_reclaim)) 1 s1 = Done s2 \<and> \<not> live s2 1)"
proof -
  let ?b = "(initialize bobject_default 10 KT_domain)\<lparr>object_flags := 1\<rparr>"
  have b: "objs sample_single 1 = Some ?b" "ko_ref ?b = 1" "g_bobject_finalizer sample_single = Some 5"
    by (simp_all add: sample_single_def sample_defs)
  have md: "metadata 1 sample_single = Done (Inr ((sample_entry1 0)\<lparr>reclaimer := Some 9\<rparr>))"
    by (simp add: metadata_def sample_single_def sample_defs metadata_consts)
  have "\<forall>c. live sample_single c \<longrightarrow> parent_of sample_single c \<noteq> Some 1"
    by (simp add: live_def parent_of_def sample_single_def sample_defs metadata_consts)
  from retirement_cycle [OF sample_single_reach b this md, of 9 "\<lambda>_. complete_reclaim"]
  show ?thesis by auto
qed

end
