(* ===== verification/ZX_Rights.thy ===== *)
theory ZX_Rights
  imports ZX_Base
begin

text \<open>
  The isolation types (\<open>zxfoundation/dgp/isolation.zcomponent/types.cxxm\<close>): feature and
  rights masks, storage-key constants, the policy and the state record of a domain.
\<close>

section \<open>Storage keys\<close>

definition STORAGE_KEY_AUTO :: u8 where "STORAGE_KEY_AUTO = 0xFF"
definition STORAGE_KEY_COUNT :: u8 where "STORAGE_KEY_COUNT = 16"
definition STORAGE_KEY_USER_BASE :: u8 where "STORAGE_KEY_USER_BASE = 8"
definition STORAGE_KEY_USER_MAX :: u8 where "STORAGE_KEY_USER_MAX = 15"

lemmas storage_key_consts =
  STORAGE_KEY_AUTO_def STORAGE_KEY_COUNT_def STORAGE_KEY_USER_BASE_def STORAGE_KEY_USER_MAX_def

datatype skey_revocation_state = sk_none | sk_active | sk_draining | sk_reusable

section \<open>Feature and rights masks\<close>

text \<open>Scoped enumerations with bitwise operators are words at their underlying type.\<close>

type_synonym isolation_feature = u64
type_synonym isolation_rights = u32

definition rights_none :: isolation_rights where "rights_none = 0"
definition rights_enter :: isolation_rights where "rights_enter = 0x001"
definition rights_map :: isolation_rights where "rights_map = 0x002"
definition rights_share :: isolation_rights where "rights_share = 0x004"
definition rights_signal :: isolation_rights where "rights_signal = 0x008"
definition rights_io :: isolation_rights where "rights_io = 0x010"
definition rights_lifecycle :: isolation_rights where "rights_lifecycle = 0x020"
definition rights_delegate :: isolation_rights where "rights_delegate = 0x040"
definition rights_quota :: isolation_rights where "rights_quota = 0x080"
definition rights_debug :: isolation_rights where "rights_debug = 0x100"
definition rights_sched :: isolation_rights where "rights_sched = 0x200"
definition rights_console :: isolation_rights where "rights_console = 0x400"
definition rights_service :: isolation_rights where "rights_service = 0x800"
definition rights_all :: isolation_rights where "rights_all = 0xFFFF"

lemmas rights_consts =
  rights_none_def rights_enter_def rights_map_def rights_share_def rights_signal_def
  rights_io_def rights_lifecycle_def rights_delegate_def rights_quota_def rights_debug_def
  rights_sched_def rights_console_def rights_service_def rights_all_def

definition has_all_features :: "isolation_feature \<Rightarrow> isolation_feature \<Rightarrow> bool" where
  "has_all_features available requested = mask_has available requested"

definition has_all_rights :: "isolation_rights \<Rightarrow> isolation_rights \<Rightarrow> bool" where
  "has_all_rights available requested = mask_has available requested"

section \<open>Policy and state\<close>

record isolation_policy =
  required_features :: isolation_feature
  default_rights :: isolation_rights
  policy_storage_key :: u8
  policy_numa_node :: u8
  allow_portals :: bool
  allow_user_execute :: bool
  bootstrap_admin :: bool

text \<open>A typed ASCE is the 64-bit word it wraps.\<close>

record isolation_domain_state =
  iso_domain_id :: u32
  iso_asce :: u64
  iso_root_phys :: u64
  iso_storage_key :: u8
  iso_numa_node :: u8
  iso_revocation_epoch :: u16
  iso_storage_key_generation :: u32
  iso_storage_key_state :: skey_revocation_state
  iso_granted_rights :: isolation_rights

definition isolation_domain_state_default :: isolation_domain_state where
  "isolation_domain_state_default =
     \<lparr>iso_domain_id = 0, iso_asce = 0, iso_root_phys = 0, iso_storage_key = 0,
      iso_numa_node = 0, iso_revocation_epoch = 0, iso_storage_key_generation = 0,
      iso_storage_key_state = sk_none, iso_granted_rights = rights_none\<rparr>"

section \<open>Authority as a set of rights\<close>

text \<open>
  The contract of a rights test, for every mask type of the kernel: the test is a preorder
  that respects union, so authority can be combined and weakened but not made up.
\<close>

locale rights_mask =
  fixes has :: "'r \<Rightarrow> 'r \<Rightarrow> bool" and join :: "'r \<Rightarrow> 'r \<Rightarrow> 'r" and empty :: 'r
  assumes has_refl: "has a a"
    and has_trans: "has a b \<Longrightarrow> has b c \<Longrightarrow> has a c"
    and has_join: "has a (join b c) \<longleftrightarrow> has a b \<and> has a c"
    and has_empty: "has a empty"
begin

lemma has_of_join: "has (join a b) a" "has (join a b) b"
  using has_join [of "join a b" a b] has_refl by blast+

lemma join_mono: "has a c \<Longrightarrow> has (join a b) c"
  using has_of_join(1) has_trans by blast

text \<open>A chain of delegations, each within the rights of the one before, stays within the first.\<close>

fun delegations :: "'r \<Rightarrow> 'r list \<Rightarrow> bool" where
  "delegations a [] = True"
| "delegations a (r # rs) = (has a r \<and> delegations r rs)"

lemma delegation_chain: "delegations a rs \<Longrightarrow> r \<in> set rs \<Longrightarrow> has a r"
  by (induction a rs rule: delegations.induct) (auto intro: has_trans)

lemma joined_requests: "has a (fold join rs b) \<longleftrightarrow> has a b \<and> (\<forall>r \<in> set rs. has a r)"
  by (induction rs arbitrary: b) (auto simp: has_join)

end

interpretation iso: rights_mask has_all_rights "(OR)" rights_none
  by unfold_locales
    (auto simp: has_all_rights_def rights_none_def mask_has_or intro: mask_has_trans)

end
