(* ===== verification/ZX_Sync_Contract.thy ===== *)
theory ZX_Sync_Contract
  imports ZX_Base
begin

text \<open>
  The synchronization contract (\<open>zxfoundation/dgp/sync_contract.zcomponent/core.cxx\<close>): the
  snapshot of a CPU's synchronization state, the checks made on it, and the teardown phases
  a domain passes through while it is destroyed.
\<close>

section \<open>Types\<close>

datatype lock_context = boot_single_cpu | lc_thread | irq_disabled | lc_rcu_read_side | lc_teardown

datatype irq_contract = irq_unchanged | must_be_enabled | must_be_disabled

datatype teardown_phase =
    tp_none | deny_new_entries | drain_gates | drain_portals | release_memory | release_identity

record contract_state =
  cs_domain_id :: u32
  cs_cpu_id :: u16
  cs_lock_depth :: u16
  irqs_disabled :: bool
  rcu_read_side :: bool
  cs_context :: lock_context
  cs_phase :: teardown_phase

text \<open>The fields of \<open>percpu_data\<close> that a snapshot reads.\<close>

record percpu_sync =
  pc_cpu_id :: u16
  pc_lock_depth :: u32
  in_rcu_read_side :: u8

section \<open>Operations\<close>

text \<open>Whether interrupts are enabled is read from the PSW; it is an argument here.\<close>

definition contract_snapshot ::
  "percpu_sync \<Rightarrow> bool \<Rightarrow> lock_context \<Rightarrow> teardown_phase \<Rightarrow> u32 \<Rightarrow> contract_state" where
  "contract_snapshot pcp irqs_enabled context phase domain_id =
     \<lparr>cs_domain_id = domain_id, cs_cpu_id = pc_cpu_id pcp,
      cs_lock_depth = ucast (pc_lock_depth pcp), irqs_disabled = (\<not> irqs_enabled),
      rcu_read_side = (in_rcu_read_side pcp \<noteq> 0), cs_context = context, cs_phase = phase\<rparr>"

definition validate_irq_state :: "contract_state \<Rightarrow> irq_contract \<Rightarrow> unit expected" where
  "validate_irq_state state contract =
     (if contract = must_be_disabled \<and> \<not> irqs_disabled state then Inl (from_locking not_locked)
      else if contract = must_be_enabled \<and> irqs_disabled state then Inl (from_locking already_locked)
      else Inr ())"

definition validate_teardown_phase :: "teardown_phase \<Rightarrow> teardown_phase \<Rightarrow> unit expected" where
  "validate_teardown_phase current requested =
     (let is_next =
        (current = tp_none \<and> requested = deny_new_entries)
        \<or> (current = deny_new_entries \<and> requested = drain_gates)
        \<or> (current = drain_gates \<and> requested = drain_portals)
        \<or> (current = drain_portals \<and> requested = release_memory)
        \<or> (current = release_memory \<and> requested = release_identity)
      in if \<not> is_next then Inl (from_generic invalid_arg) else Inr ())"

definition advance_teardown_phase ::
  "teardown_phase \<Rightarrow> teardown_phase \<Rightarrow> teardown_phase \<Rightarrow> teardown_phase \<times> unit expected" where
  "advance_teardown_phase current expected_phase requested =
     (if current \<noteq> expected_phase then (current, Inl (from_generic invalid_arg))
      else case validate_teardown_phase expected_phase requested of
        Inl e \<Rightarrow> (current, Inl e)
      | Inr _ \<Rightarrow> (requested, Inr ()))"

definition validate_authority_lookup :: "contract_state \<Rightarrow> unit expected" where
  "validate_authority_lookup state =
     (if cs_context state = lc_teardown \<and> cs_phase state = release_identity
      then Inl (from_generic invalid_arg) else Inr ())"

section \<open>The order of the phases\<close>

definition teardown_order :: "teardown_phase list" where
  "teardown_order =
     [deny_new_entries, drain_gates, drain_portals, release_memory, release_identity]"

text \<open>A run of advance requests; the second component collects the phases entered.\<close>

fun advance_all ::
  "teardown_phase \<Rightarrow> (teardown_phase \<times> teardown_phase) list \<Rightarrow> teardown_phase \<times> teardown_phase list" where
  "advance_all current [] = (current, [])"
| "advance_all current ((e, r) # reqs) =
     (case advance_teardown_phase current e r of
        (current', Inl _) \<Rightarrow> advance_all current' reqs
      | (current', Inr _) \<Rightarrow> (let (p, ps) = advance_all current' reqs in (p, r # ps)))"

text \<open>The phases still to come after a phase.\<close>

fun phases_after :: "teardown_phase \<Rightarrow> teardown_phase list" where
  "phases_after tp_none = teardown_order"
| "phases_after deny_new_entries = drop 1 teardown_order"
| "phases_after drain_gates = drop 2 teardown_order"
| "phases_after drain_portals = drop 3 teardown_order"
| "phases_after release_memory = drop 4 teardown_order"
| "phases_after release_identity = []"

lemma validate_teardown_phase_next:
  "validate_teardown_phase c r = Inr () \<longleftrightarrow> (\<exists>ps. phases_after c = r # ps)"
  by (cases c; cases r) (auto simp: validate_teardown_phase_def teardown_order_def)

lemma phases_after_next: "phases_after c = r # ps \<Longrightarrow> phases_after r = ps"
  by (cases c) (auto simp: teardown_order_def)

lemma advance_cases:
  "advance_teardown_phase c e r =
     (if c = e \<and> (\<exists>ps. phases_after c = r # ps) then (r, Inr ())
      else (c, Inl (from_generic invalid_arg)))"
  using validate_teardown_phase_next [of c r]
  by (auto simp: advance_teardown_phase_def validate_teardown_phase_def Let_def split: sum.splits if_splits)

lemma advance_all_prefix:
  "\<exists>k. snd (advance_all c reqs) = take k (phases_after c) \<and>
       fst (advance_all c reqs) = last (c # take k (phases_after c))"
proof (induction c reqs rule: advance_all.induct)
  case (1 c)
  show ?case by (rule exI [of _ 0]) simp
next
  case (2 c e r reqs)
  show ?case
  proof (cases "c = e \<and> (\<exists>ps. phases_after c = r # ps)")
    case True
    then obtain ps where ps: "phases_after c = r # ps" by blast
    with True have adv: "advance_teardown_phase c e r = (r, Inr ())" by (simp add: advance_cases)
    from 2(2) [OF adv [symmetric]] obtain k where
      "snd (advance_all r reqs) = take k ps" "fst (advance_all r reqs) = last (r # take k ps)"
      using phases_after_next [OF ps] by auto
    then show ?thesis
      by (intro exI [of _ "Suc k"]) (simp add: adv ps case_prod_beta Let_def)
  next
    case False
    then have adv: "advance_teardown_phase c e r = (c, Inl (from_generic invalid_arg))"
      by (simp only: advance_cases if_False)
    with 2(1) [OF adv [symmetric]] show ?thesis by simp
  qed
qed

section \<open>Properties\<close>

text \<open>
  C27. Teardown runs in one order: whatever sequence of advance requests is made on a domain
  that has not started teardown, the phases it enters are a prefix of
  deny_new_entries, drain_gates, drain_portals, release_memory, release_identity. In
  particular its identity is released only after all four earlier phases were entered.
\<close>

theorem teardown_phases_in_order:
  "\<exists>k. snd (advance_all tp_none reqs) = take k teardown_order \<and>
       (fst (advance_all tp_none reqs) = release_identity \<longleftrightarrow>
        snd (advance_all tp_none reqs) = teardown_order)"
proof -
  obtain k where k: "snd (advance_all tp_none reqs) = take k teardown_order"
    "fst (advance_all tp_none reqs) = last (tp_none # take k teardown_order)"
    using advance_all_prefix [of tp_none reqs] by auto
  have "last (tp_none # take k teardown_order) = release_identity \<longleftrightarrow> take k teardown_order = teardown_order"
    by (cases "k < 5"; cases k; cases "k - 1"; cases "k - 2"; cases "k - 3"; cases "k - 4")
      (auto simp: teardown_order_def numeral_eq_Suc take_Cons' split: nat.splits)
  with k show ?thesis by auto
qed

end
