(* ===== verification/ZX_Sched_Policy.thy ===== *)
theory ZX_Sched_Policy
  imports ZX_Base
begin

text \<open>
  The scheduler policy records (\<open>zxfoundation/sched/policy.cxxm\<close>) that the isolation core
  validates and the scheduling classes consume. The generated configuration value
  \<open>CONFIG_ZX_MAX_CPUS\<close> is a parameter wherever it is used.
\<close>

datatype sched_substate = ss_idle | ss_runnable | ss_running | ss_blocked

datatype sched_class_id = sc_idle | sc_fair | sc_rt | sc_deadline

datatype rt_mode = rt_fifo | rt_round_robin

type_synonym sched_mask = u64

record sched_policy =
  sp_class_id :: sched_class_id
  rt_behavior :: rt_mode
  rt_priority :: u8
  runtime_ns :: u64
  deadline_ns :: u64
  period_ns :: u64
  allowed_cpus :: sched_mask
  allowed_numa_nodes :: sched_mask
  allow_smt_sibling :: bool
  isolation_sensitive :: bool
  user_visible :: bool

definition sched_policy_default :: sched_policy where
  "sched_policy_default =
     \<lparr>sp_class_id = sc_fair, rt_behavior = rt_fifo, rt_priority = 0, runtime_ns = 0,
      deadline_ns = 0, period_ns = 0, allowed_cpus = 0, allowed_numa_nodes = 0,
      allow_smt_sibling = True, isolation_sensitive = False, user_visible = False\<rparr>"

record sched_admission_result =
  admitted_runtime_ns :: u64
  admitted_period_ns :: u64
  preferred_cpu :: u16
  remote_node_allowed :: bool
  smt_sibling_allowed :: bool
  adm_class_id :: sched_class_id

definition sched_admission_result_default :: sched_admission_result where
  "sched_admission_result_default =
     \<lparr>admitted_runtime_ns = 0, admitted_period_ns = 0, preferred_cpu = 0,
      remote_node_allowed = True, smt_sibling_allowed = True, adm_class_id = sc_fair\<rparr>"

end
