(* ===== verification/ZX_Signal_Queue.thy ===== *)
theory ZX_Signal_Queue
  imports ZX_Base
begin

text \<open>
  The per-domain signal queue (\<open>zxfoundation/dgp/signal.zcomponent/types.cxxm\<close>): a ring of
  16 entries that overwrites the oldest one when it is full.

  \<open>signal_kind\<close> is kept at its underlying type: the gate handler that sends a signal takes
  the kind from a register, so values outside the enumeration occur.
\<close>

section \<open>Types\<close>

type_synonym signal_kind = u8

definition sig_none :: signal_kind where "sig_none = 0"
definition sig_timer :: signal_kind where "sig_timer = 1"
definition sig_io :: signal_kind where "sig_io = 2"
definition sig_fault :: signal_kind where "sig_fault = 3"
definition sig_term :: signal_kind where "sig_term = 4"
definition sig_user0 :: signal_kind where "sig_user0 = 5"
definition sig_user1 :: signal_kind where "sig_user1 = 6"
definition sig_ipc :: signal_kind where "sig_ipc = 7"

lemmas signal_kinds =
  sig_none_def sig_timer_def sig_io_def sig_fault_def sig_term_def sig_user0_def
  sig_user1_def sig_ipc_def

datatype signal_default = sd_ignore | sd_terminate | sd_notify

record signal_handler_info =
  sh_handler :: "fnptr option"
  sh_user_data :: "addr option"
  sh_def :: signal_default

definition signal_handler_info_default :: signal_handler_info where
  "signal_handler_info_default = \<lparr>sh_handler = None, sh_user_data = None, sh_def = sd_ignore\<rparr>"

record signal_entry =
  se_kind :: signal_kind
  se_data :: u64

definition signal_entry_default :: signal_entry where
  "signal_entry_default = \<lparr>se_kind = sig_none, se_data = 0\<rparr>"

definition SIGNAL_QUEUE_DEPTH :: u32 where "SIGNAL_QUEUE_DEPTH = 16"

record signal_queue =
  sq_entries :: "signal_entry list"
  sq_head :: u32
  sq_tail :: u32
  sq_count :: u32
  sq_pending_mask :: u32
  sq_blocked_mask :: u32
  sq_handlers :: "signal_handler_info list"

definition signal_queue_default :: signal_queue where
  "signal_queue_default =
     \<lparr>sq_entries = replicate 16 signal_entry_default, sq_head = 0, sq_tail = 0, sq_count = 0,
      sq_pending_mask = 0, sq_blocked_mask = 0,
      sq_handlers = replicate 8 signal_handler_info_default\<rparr>"

section \<open>Operations\<close>

definition kind_bit :: "signal_kind \<Rightarrow> u32" where
  "kind_bit k = push_bit (unat k) 1"

definition has_pending :: "signal_queue \<Rightarrow> bool" where
  "has_pending q \<longleftrightarrow> sq_count q > 0"

definition has_pending_kind :: "signal_kind \<Rightarrow> signal_queue \<Rightarrow> bool" where
  "has_pending_kind k q \<longleftrightarrow> sq_pending_mask q AND kind_bit k \<noteq> 0"

definition enqueue :: "signal_kind \<Rightarrow> u64 \<Rightarrow> signal_queue \<Rightarrow> signal_queue" where
  "enqueue kind payload q =
     (let q1 = (if sq_count q \<ge> SIGNAL_QUEUE_DEPTH
                then q\<lparr>sq_head := (sq_head q + 1) mod SIGNAL_QUEUE_DEPTH, sq_count := sq_count q - 1\<rparr>
                else q)
      in q1\<lparr>sq_entries := (sq_entries q1)[unat (sq_tail q1) := \<lparr>se_kind = kind, se_data = payload\<rparr>],
            sq_tail := (sq_tail q1 + 1) mod SIGNAL_QUEUE_DEPTH, sq_count := sq_count q1 + 1,
            sq_pending_mask := sq_pending_mask q1 OR kind_bit kind\<rparr>)"

definition dequeue :: "signal_queue \<Rightarrow> signal_queue \<times> signal_entry" where
  "dequeue q =
     (if sq_count q = 0 then (q, signal_entry_default)
      else let result = sq_entries q ! unat (sq_head q);
               q1 = q\<lparr>sq_entries := (sq_entries q)[unat (sq_head q) := signal_entry_default],
                      sq_head := (sq_head q + 1) mod SIGNAL_QUEUE_DEPTH, sq_count := sq_count q - 1\<rparr>
           in (if sq_count q1 = 0 then q1\<lparr>sq_pending_mask := 0\<rparr> else q1, result))"

section \<open>The ring as a list\<close>

text \<open>The pending entries, oldest first, and the shape that makes reading them meaningful.\<close>

definition ring_at :: "signal_queue \<Rightarrow> nat \<Rightarrow> signal_entry" where
  "ring_at q i = sq_entries q ! ((unat (sq_head q) + i) mod 16)"

definition contents :: "signal_queue \<Rightarrow> signal_entry list" where
  "contents q = map (ring_at q) [0..<unat (sq_count q)]"

definition ring_shape :: "signal_queue \<Rightarrow> bool" where
  "ring_shape q \<longleftrightarrow>
     length (sq_entries q) = 16 \<and> length (sq_handlers q) = 8 \<and>
     unat (sq_head q) < 16 \<and> unat (sq_tail q) < 16 \<and> unat (sq_count q) \<le> 16"

text \<open>The tail is where the entry after the last one goes.\<close>

definition ring_ok :: "signal_queue \<Rightarrow> bool" where
  "ring_ok q \<longleftrightarrow>
     ring_shape q \<and> unat (sq_tail q) = (unat (sq_head q) + unat (sq_count q)) mod 16"

lemma unat_mod16: "unat ((x :: u32) mod 16) = unat x mod 16"
  by (simp add: unat_mod)

lemma ring_succ: "unat (x :: u32) < 16 \<Longrightarrow> unat ((x + 1) mod SIGNAL_QUEUE_DEPTH) = (unat x + 1) mod 16"
  by (simp add: SIGNAL_QUEUE_DEPTH_def unat_mod16 unat_word_ariths)

lemma length_contents [simp]: "length (contents q) = unat (sq_count q)"
  by (simp add: contents_def)

lemma contents_nth: "i < unat (sq_count q) \<Longrightarrow> contents q ! i = ring_at q i"
  by (simp add: contents_def)

lemma ring_inject_le:
  assumes "(h + i) mod 16 = (h + j) mod (16 :: nat)" and "i \<le> j" and "j < 16"
  shows "i = j"
proof -
  have "16 dvd j - i"
    using mod_eq_dvd_iff_nat [of "h + i" "h + j" 16] assms(1,2) by simp
  moreover have "j - i < 16" using assms(3) by simp
  ultimately have "\<not> 0 < j - i" using nat_dvd_not_less [of "j - i" 16] by blast
  with assms(2) show ?thesis by simp
qed

lemma ring_distinct:
  assumes "i < 16" and "j < 16"
  shows "(h + i) mod 16 = (h + j) mod 16 \<longleftrightarrow> i = (j :: nat)"
  using ring_inject_le [of h i j] ring_inject_le [of h j i] assms by (metis nat_le_linear)

lemma mod_slot: "unat (h :: u32) < 16 \<Longrightarrow> (unat h + 0) mod 16 = unat h"
  by simp

lemma unat_count_pred: "sq_count q \<noteq> 0 \<Longrightarrow> unat (sq_count q - 1) = unat (sq_count q) - 1"
  by (simp add: unat_minus_one)

lemma unat_count_succ: "unat (c :: u32) \<le> 16 \<Longrightarrow> unat (c + 1) = unat c + 1"
  by (simp add: unat_word_ariths)

text \<open>Two rings with the same length and the same entries hold the same list.\<close>

lemma contents_eqI:
  assumes "unat (sq_count q) = length xs" and "\<And>i. i < length xs \<Longrightarrow> ring_at q i = xs ! i"
  shows "contents q = xs"
  using assms by (intro nth_equalityI) (simp_all add: contents_nth)

text \<open>Dropping the oldest entry, as \<open>enqueue\<close> does on a full ring.\<close>

definition drop_oldest :: "signal_queue \<Rightarrow> signal_queue" where
  "drop_oldest q =
     q\<lparr>sq_head := (sq_head q + 1) mod SIGNAL_QUEUE_DEPTH, sq_count := sq_count q - 1\<rparr>"

lemma drop_oldest_ok:
  assumes "ring_ok q" and "sq_count q \<noteq> 0"
  shows "ring_ok (drop_oldest q)" and "contents (drop_oldest q) = tl (contents q)"
proof -
  let ?h = "unat (sq_head q)" and ?n = "unat (sq_count q)"
  have q: "ring_shape q" "unat (sq_tail q) = (?h + ?n) mod 16" "?h < 16" "?n \<le> 16"
    using assms(1) by (auto simp: ring_ok_def ring_shape_def)
  have n: "?n \<noteq> 0" using assms(2) by (simp add: unat_eq_zero)
  have h': "unat (sq_head (drop_oldest q)) = (?h + 1) mod 16"
    using q(3) by (simp add: drop_oldest_def ring_succ)
  have n': "unat (sq_count (drop_oldest q)) = ?n - 1"
    using assms(2) by (simp add: drop_oldest_def unat_count_pred)
  have "((?h + 1) mod 16 + (?n - 1)) mod 16 = (?h + 1 + (?n - 1)) mod 16"
    by (rule mod_add_left_eq)
  also have "?h + 1 + (?n - 1) = ?h + ?n" using n by simp
  finally have "((?h + 1) mod 16 + (?n - 1)) mod 16 = (?h + ?n) mod 16" .
  then show "ring_ok (drop_oldest q)"
    using q h' n' by (simp add: ring_ok_def ring_shape_def) (simp add: drop_oldest_def)
  show "contents (drop_oldest q) = tl (contents q)"
  proof (rule contents_eqI)
    fix i
    assume "i < length (tl (contents q))"
    then have "tl (contents q) ! i = ring_at q (Suc i)"
      by (simp add: nth_tl contents_nth)
    moreover have "((?h + 1) mod 16 + i) mod 16 = (?h + Suc i) mod 16"
      by (simp add: mod_add_left_eq)
    ultimately show "ring_at (drop_oldest q) i = tl (contents q) ! i"
      by (simp add: ring_at_def h') (simp add: drop_oldest_def)
  qed (simp add: n')
qed

definition append_entry :: "signal_kind \<Rightarrow> u64 \<Rightarrow> signal_queue \<Rightarrow> signal_queue" where
  "append_entry k w q =
     q\<lparr>sq_entries := (sq_entries q)[unat (sq_tail q) := \<lparr>se_kind = k, se_data = w\<rparr>],
       sq_tail := (sq_tail q + 1) mod SIGNAL_QUEUE_DEPTH, sq_count := sq_count q + 1,
       sq_pending_mask := sq_pending_mask q OR kind_bit k\<rparr>"

lemma append_entry_ok:
  assumes "ring_ok q" and "unat (sq_count q) < 16"
  shows "ring_ok (append_entry k w q)"
    and "contents (append_entry k w q) = contents q @ [\<lparr>se_kind = k, se_data = w\<rparr>]"
proof -
  let ?h = "unat (sq_head q)" and ?n = "unat (sq_count q)"
  have q: "ring_shape q" "unat (sq_tail q) = (?h + ?n) mod 16" "?h < 16"
    "length (sq_entries q) = 16" "unat (sq_tail q) < 16"
    using assms(1) by (auto simp: ring_ok_def ring_shape_def)
  have n': "unat (sq_count (append_entry k w q)) = ?n + 1"
    using assms(2) by (simp add: append_entry_def unat_count_succ)
  have t': "unat (sq_tail (append_entry k w q)) = (?h + (?n + 1)) mod 16"
    using q(2,5) by (simp add: append_entry_def ring_succ mod_add_left_eq) (simp add: mod_simps)
  show "ring_ok (append_entry k w q)"
    using q n' t' assms(2) by (simp add: ring_ok_def ring_shape_def) (simp add: append_entry_def)
  show "contents (append_entry k w q) = contents q @ [\<lparr>se_kind = k, se_data = w\<rparr>]"
  proof (rule contents_eqI)
    fix i
    assume i: "i < length (contents q @ [\<lparr>se_kind = k, se_data = w\<rparr>])"
    then have "(?h + i) mod 16 = (?h + ?n) mod 16 \<longleftrightarrow> i = ?n"
      using assms(2) by (intro ring_distinct) auto
    with i q show "ring_at (append_entry k w q) i = (contents q @ [\<lparr>se_kind = k, se_data = w\<rparr>]) ! i"
      by (auto simp: ring_at_def append_entry_def nth_append nth_list_update contents_nth)
  qed (simp add: n')
qed

lemma enqueue_alt:
  "enqueue k w q = append_entry k w (if sq_count q \<ge> SIGNAL_QUEUE_DEPTH then drop_oldest q else q)"
  by (simp add: enqueue_def append_entry_def drop_oldest_def Let_def)

lemma enqueue_ok:
  assumes "ring_ok q"
  shows "ring_ok (enqueue k w q)"
    and "contents (enqueue k w q) =
      (if length (contents q) = 16 then tl (contents q) else contents q) @ [\<lparr>se_kind = k, se_data = w\<rparr>]"
proof -
  have n: "unat (sq_count q) \<le> 16" using assms by (simp add: ring_ok_def ring_shape_def)
  then have full: "sq_count q \<ge> SIGNAL_QUEUE_DEPTH \<longleftrightarrow> unat (sq_count q) = 16"
    by (auto simp: SIGNAL_QUEUE_DEPTH_def word_le_nat_alt)
  have "ring_ok (enqueue k w q) \<and> contents (enqueue k w q) =
      (if length (contents q) = 16 then tl (contents q) else contents q) @ [\<lparr>se_kind = k, se_data = w\<rparr>]"
  proof (cases "unat (sq_count q) = 16")
    case True
    then have "sq_count q \<noteq> 0" by auto
    note d = drop_oldest_ok [OF assms this]
    have "unat (sq_count (drop_oldest q)) = 15"
      using arg_cong [OF d(2), of length] True by simp
    with append_entry_ok [OF d(1)] d(2) True full show ?thesis
      by (simp add: enqueue_alt)
  next
    case False
    with n append_entry_ok [OF assms] full show ?thesis
      by (simp add: enqueue_alt)
  qed
  then show "ring_ok (enqueue k w q)" and "contents (enqueue k w q) =
      (if length (contents q) = 16 then tl (contents q) else contents q) @ [\<lparr>se_kind = k, se_data = w\<rparr>]"
    by simp_all
qed

lemma dequeue_alt:
  assumes "sq_count q \<noteq> 0"
  shows "fst (dequeue q) =
     (drop_oldest q)\<lparr>sq_entries := (sq_entries q)[unat (sq_head q) := signal_entry_default],
        sq_pending_mask := if sq_count q = 1 then 0 else sq_pending_mask q\<rparr>"
    and "snd (dequeue q) = sq_entries q ! unat (sq_head q)"
  using assms by (simp_all add: dequeue_def drop_oldest_def Let_def)

lemma dequeue_ok:
  assumes "ring_ok q"
  shows "ring_ok (fst (dequeue q))" and "contents (fst (dequeue q)) = tl (contents q)"
    and "snd (dequeue q) = (if contents q = [] then signal_entry_default else hd (contents q))"
proof -
  have "ring_ok (fst (dequeue q)) \<and> contents (fst (dequeue q)) = tl (contents q) \<and>
      snd (dequeue q) = (if contents q = [] then signal_entry_default else hd (contents q))"
  proof (cases "sq_count q = 0")
    case True
    then have "contents q = []" by (simp add: contents_def)
    with True assms show ?thesis by (simp add: dequeue_def)
  next
    case False
    let ?q = "fst (dequeue q)"
    note d = drop_oldest_ok [OF assms False]
    have h: "unat (sq_head q) < 16" and n: "unat (sq_count q) \<le> 16" "unat (sq_count q) \<noteq> 0"
      using assms False by (auto simp: ring_ok_def ring_shape_def unat_eq_zero)
    then have ne: "contents q \<noteq> []" by (metis length_contents list.size(3))
    have "ring_ok ?q" using d(1) by (simp add: dequeue_alt [OF False] ring_ok_def ring_shape_def drop_oldest_def)
    moreover have "contents ?q = tl (contents q)"
    proof (rule contents_eqI)
      fix i
      assume i: "i < length (tl (contents q))"
      have "ring_at (drop_oldest q) i = tl (contents q) ! i"
        using d(2) i by (metis contents_nth length_contents)
      moreover have "(unat (sq_head q) + Suc i) mod 16 \<noteq> (unat (sq_head q) + 0) mod 16"
        using i n by (subst ring_distinct) auto
      ultimately show "ring_at ?q i = tl (contents q) ! i"
        using h by (simp add: ring_at_def dequeue_alt [OF False] drop_oldest_def ring_succ mod_simps)
    qed (use d(2) in \<open>simp add: dequeue_alt [OF False] drop_oldest_def unat_count_pred [OF False]\<close>)
    moreover have "hd (contents q) = sq_entries q ! unat (sq_head q)"
      using ne n h by (simp add: hd_conv_nth contents_nth ring_at_def)
    ultimately show ?thesis using ne by (simp add: dequeue_alt [OF False])
  qed
  then show "ring_ok (fst (dequeue q))" and "contents (fst (dequeue q)) = tl (contents q)"
    and "snd (dequeue q) = (if contents q = [] then signal_entry_default else hd (contents q))"
    by simp_all
qed

section \<open>The contract of an overwriting queue\<close>

text \<open>
  A bounded queue that never refuses an element: when it is full the oldest one makes room.
\<close>

locale overwriting_queue =
  fixes inv :: "'q \<Rightarrow> bool" and elems :: "'q \<Rightarrow> 'e list" and capacity :: nat
    and put :: "'e \<Rightarrow> 'q \<Rightarrow> 'q" and take_one :: "'q \<Rightarrow> 'q"
  assumes put_inv: "inv q \<Longrightarrow> inv (put e q)"
    and put_elems: "inv q \<Longrightarrow>
      elems (put e q) = (if length (elems q) = capacity then tl (elems q) else elems q) @ [e]"
    and take_inv: "inv q \<Longrightarrow> inv (take_one q)"
    and take_elems: "inv q \<Longrightarrow> elems (take_one q) = tl (elems q)"
    and bounded: "inv q \<Longrightarrow> length (elems q) \<le> capacity"
    and capacity_pos: "0 < capacity"
begin

lemma fold_put_inv: "inv q \<Longrightarrow> inv (fold put es q)"
  by (induction es arbitrary: q) (auto intro: put_inv)

text \<open>After any number of insertions the queue holds the newest elements, in order.\<close>

lemma newest_kept:
  assumes "inv q"
  shows "elems (fold put es q) =
    (let all = elems q @ es in drop (length all - capacity) all)"
  using assms
proof (induction es arbitrary: q)
  case Nil
  then show ?case using bounded [OF Nil] by simp
next
  case (Cons e es)
  have "elems (fold put (e # es) q) =
      (let all = elems (put e q) @ es in drop (length all - capacity) all)"
    using Cons.IH [OF put_inv [OF Cons.prems]] by simp
  also have "\<dots> = (let all = elems q @ e # es in drop (length all - capacity) all)"
  proof (cases "length (elems q) = capacity")
    case True
    then obtain x xs where "elems q = x # xs" using capacity_pos by (cases "elems q") auto
    with True show ?thesis
      by (simp add: put_elems [OF Cons.prems] Suc_diff_le)
  next
    case False
    then show ?thesis by (simp add: put_elems [OF Cons.prems])
  qed
  finally show ?case .
qed

lemma take_all: "inv q \<Longrightarrow> elems ((take_one ^^ n) q) = drop n (elems q) \<and> inv ((take_one ^^ n) q)"
  by (induction n) (auto intro: take_inv simp: take_elems drop_Suc tl_drop)

end

interpretation sq: overwriting_queue ring_ok contents 16
  "\<lambda>e. enqueue (se_kind e) (se_data e)" "\<lambda>q. fst (dequeue q)"
  by unfold_locales
    (simp_all add: enqueue_ok dequeue_ok, simp add: ring_ok_def ring_shape_def)

section \<open>Properties\<close>



end
