(* ===== verification/ZX_Domain.thy ===== *)
theory ZX_Domain
  imports ZX_Kobject ZX_Rights ZX_Sync_Contract ZX_Sched_Policy ZX_Signal_Queue
begin

text \<open>
  The domain, the central entity of the kernel
  (\<open>zxfoundation/dgp/domain.zcomponent/types.cxxm\<close>). The record has the fields that the
  modelled components read or write. List links, the address space, the embedded primary
  strand, the name and the access-register context have no counterpart here.
\<close>

definition DOMAIN_ID_INVALID :: u32 where "DOMAIN_ID_INVALID = 0xFFFFFFFF"
definition DOMAIN_ID_NUCLEUS :: u32 where "DOMAIN_ID_NUCLEUS = 0"
definition MAX_DOMAINS :: u32 where "MAX_DOMAINS = 256"

type_synonym domain_flags = u32

definition df_none :: domain_flags where "df_none = 0"
definition df_idle :: domain_flags where "df_idle = 2"
definition df_need_resched :: domain_flags where "df_need_resched = 4"
definition df_nucleus :: domain_flags where "df_nucleus = 8"

lemmas domain_flag_consts = df_none_def df_idle_def df_need_resched_def df_nucleus_def

record domain =
  dom_ko :: bobject
  dom_flags :: domain_flags
  dom_storage_key :: u8
  dom_root_phys :: u64
  dom_asce :: u64
  dom_gate_count :: u32
  dom_portal_count :: u32
  dom_granted_rights :: isolation_rights
  dom_numa_node :: u8
  dom_revocation_epoch :: u16
  dom_storage_key_generation :: u32
  dom_storage_key_state :: skey_revocation_state
  dom_teardown_phase :: teardown_phase
  dom_pending_rights_revoke_raw :: u32
  dom_signal_queue :: signal_queue
  dom_admin_token :: u64
  dom_rt_capability_token :: u64
  dom_rt_period_ns :: u64
  dom_rt_budget_ns :: u64
  dom_rt_reserved_ns :: u64
  dom_deadline_period_ns :: u64
  dom_deadline_budget_ns :: u64
  dom_deadline_reserved_ns :: u64
  dom_allowed_cpus :: sched_mask
  dom_allowed_numa_nodes :: sched_mask

definition domain_default :: domain where
  "domain_default =
     \<lparr>dom_ko = bobject_default, dom_flags = df_none, dom_storage_key = 0, dom_root_phys = 0,
      dom_asce = 0, dom_gate_count = 0, dom_portal_count = 0, dom_granted_rights = rights_none,
      dom_numa_node = 0, dom_revocation_epoch = 0, dom_storage_key_generation = 0,
      dom_storage_key_state = sk_none, dom_teardown_phase = tp_none,
      dom_pending_rights_revoke_raw = 0, dom_signal_queue = signal_queue_default,
      dom_admin_token = 0, dom_rt_capability_token = 0, dom_rt_period_ns = 100000000,
      dom_rt_budget_ns = 20000000, dom_rt_reserved_ns = 0, dom_deadline_period_ns = 100000000,
      dom_deadline_budget_ns = 10000000, dom_deadline_reserved_ns = 0, dom_allowed_cpus = 0,
      dom_allowed_numa_nodes = 0\<rparr>"

definition is_idle_domain :: "domain \<Rightarrow> bool" where
  "is_idle_domain d \<longleftrightarrow> dom_flags d AND df_idle \<noteq> df_none"

definition is_active_domain :: "domain \<Rightarrow> bool" where
  "is_active_domain d \<longleftrightarrow> ko_state (dom_ko d) = Active"

text \<open>\<open>scoms::kobject::mark_dying\<close> of a domain: the validated transition of its header.\<close>

definition mark_dying :: "domain \<Rightarrow> domain \<times> bool" where
  "mark_dying d =
     (let (b, ok) = transition (dom_ko d) Dying in (d\<lparr>dom_ko := b\<rparr>, ok))"

lemma mark_dying_queue [simp]: "dom_signal_queue (fst (mark_dying d)) = dom_signal_queue d"
  by (simp add: mark_dying_def case_prod_beta Let_def)

end
