(* ===== verification/ZX_Memory_Contract.thy ===== *)
theory ZX_Memory_Contract
  imports ZX_Rights
begin

text \<open>
  The memory contract (\<open>zxfoundation/dgp/memory_contract.zcomponent\<close>): validation of memory
  requests and the policy record attached to an authorized mapping. The global generation
  counter is passed explicitly.
\<close>

section \<open>Types\<close>

type_synonym memory_access = u32

definition access_none :: memory_access where "access_none = 0"
definition access_read :: memory_access where "access_read = 1"
definition access_write :: memory_access where "access_write = 2"
definition access_execute :: memory_access where "access_execute = 4"
definition access_share :: memory_access where "access_share = 8"

lemmas access_consts =
  access_none_def access_read_def access_write_def access_execute_def access_share_def

datatype memory_scope = private_domain | portal_shared | scope_nucleus

datatype numa_policy = deterministic_fallback | strict_node | interleave

datatype invalidation_scope =
  inv_none | local_cpu | address_space | single_page | inv_global | alb_global

definition PTE_NOEXEC :: u64 where "PTE_NOEXEC = 0x100"
definition PTE_PROTECT :: u64 where "PTE_PROTECT = 0x200"
definition PAGE_SIZE :: u64 where "PAGE_SIZE = 0x1000"

record contract_request =
  req_domain_id :: u32
  req_va_start :: u64
  req_va_end :: u64
  req_phys_start :: u64
  req_length :: u64
  req_prot :: u64
  req_storage_key :: u8
  req_numa_node :: u8
  req_access :: memory_access
  req_scope :: memory_scope
  req_policy :: numa_policy

record contract_result =
  res_storage_key :: u8
  res_numa_node :: u8
  res_invalidate :: invalidation_scope
  res_required_rights :: isolation_rights
  res_generation :: u64
  res_access :: memory_access
  res_scope :: memory_scope

section \<open>Operations\<close>

definition memory_access_has :: "memory_access \<Rightarrow> memory_access \<Rightarrow> bool" where
  "memory_access_has available requested = mask_has available requested"

definition is_page_aligned :: "u64 \<Rightarrow> bool" where
  "is_page_aligned address \<longleftrightarrow> address AND (PAGE_SIZE - 1) = 0"

definition required_rights :: "memory_access \<Rightarrow> memory_scope \<Rightarrow> isolation_rights" where
  "required_rights access scope =
     (let rights = rights_map
      in if memory_access_has access access_share \<or> scope = portal_shared
         then rights OR rights_share else rights)"

text \<open>\<open>generation_bump\<close> returns the new value of the counter; it wraps at \<open>2^64\<close>.\<close>

definition generation_bump :: "u64 \<Rightarrow> u64 \<times> u64" where
  "generation_bump g_generation = (g_generation + 1, g_generation + 1)"

definition contract_generation :: "u64 \<Rightarrow> u64" where
  "contract_generation g_generation = g_generation"

definition validate_range :: "u64 \<Rightarrow> u64 \<Rightarrow> unit expected" where
  "validate_range va_start va_end =
     (if va_end = 0 \<or> va_start \<ge> va_end then Inl (from_generic invalid_arg)
      else if \<not> is_page_aligned va_start \<or> \<not> is_page_aligned va_end
      then Inl (from_memory alignment_error)
      else Inr ())"

definition validate_storage_key :: "u8 \<Rightarrow> unit expected" where
  "validate_storage_key storage_key =
     (if storage_key = STORAGE_KEY_AUTO then Inr ()
      else if storage_key \<ge> STORAGE_KEY_COUNT then Inl (from_generic out_of_range)
      else Inr ())"

definition writable_and_executable :: "u64 \<Rightarrow> bool" where
  "writable_and_executable prot \<longleftrightarrow> prot AND PTE_NOEXEC = 0 \<and> prot AND PTE_PROTECT = 0"

definition validate_request :: "contract_request \<Rightarrow> unit expected" where
  "validate_request request =
     (case validate_range (req_va_start request) (req_va_end request) of
        Inl e \<Rightarrow> Inl e
      | Inr _ \<Rightarrow>
          if req_length request = 0 \<or> req_length request \<noteq> req_va_end request - req_va_start request
          then Inl (from_generic invalid_arg)
          else if writable_and_executable (req_prot request) then Inl (from_memory capability_invalid)
          else if req_phys_start request \<noteq> 0 \<and> \<not> is_page_aligned (req_phys_start request)
          then Inl (from_memory alignment_error)
          else validate_storage_key (req_storage_key request))"

definition resolve_storage_key :: "u8 \<Rightarrow> u8 expected" where
  "resolve_storage_key storage_key =
     (case validate_storage_key storage_key of
        Inl e \<Rightarrow> Inl e
      | Inr _ \<Rightarrow> if storage_key = STORAGE_KEY_AUTO then Inr 0 else Inr storage_key)"

definition authorize_mapping :: "u64 \<Rightarrow> contract_request \<Rightarrow> contract_result expected" where
  "authorize_mapping g_generation request =
     (case validate_request request of
        Inl e \<Rightarrow> Inl e
      | Inr _ \<Rightarrow>
          if req_scope request = portal_shared \<and> \<not> memory_access_has (req_access request) access_share
          then Inl (from_memory capability_invalid)
          else if writable_and_executable (req_prot request) then Inl (from_memory capability_invalid)
          else case resolve_storage_key (req_storage_key request) of
            Inl e \<Rightarrow> Inl e
          | Inr key \<Rightarrow>
              Inr \<lparr>res_storage_key = key, res_numa_node = req_numa_node request,
                   res_invalidate = (if req_phys_start request \<noteq> 0 then address_space else inv_none),
                   res_required_rights = required_rights (req_access request) (req_scope request),
                   res_generation = contract_generation g_generation,
                   res_access = req_access request, res_scope = req_scope request\<rparr>)"

definition authorize_protect :: "u64 \<Rightarrow> contract_request \<Rightarrow> u64 \<Rightarrow> contract_result expected" where
  "authorize_protect g_generation request old_prot =
     (case authorize_mapping g_generation request of
        Inl e \<Rightarrow> Inl e
      | Inr result \<Rightarrow>
          Inr (result\<lparr>res_invalidate := if old_prot = req_prot request then inv_none else address_space\<rparr>))"

definition authorize_unmap :: "u64 \<Rightarrow> contract_request \<Rightarrow> contract_result expected" where
  "authorize_unmap g_generation request =
     (case authorize_mapping g_generation request of
        Inl e \<Rightarrow> Inl e
      | Inr result \<Rightarrow>
          Inr (result\<lparr>res_invalidate :=
                 if memory_access_has (req_access request) access_share then alb_global
                 else address_space\<rparr>))"

lemmas memory_contract_defs [op_defs] =
  validate_range_def validate_storage_key_def validate_request_def resolve_storage_key_def
  authorize_mapping_def authorize_protect_def authorize_unmap_def

interpretation mac: rights_mask memory_access_has "(OR)" access_none
  by unfold_locales
    (auto simp: memory_access_has_def access_none_def mask_has_or intro: mask_has_trans)

section \<open>What an accepted request satisfies\<close>

lemma page_aligned_unat: "is_page_aligned a \<longleftrightarrow> 4096 dvd unat a"
proof -
  have "is_page_aligned a \<longleftrightarrow> take_bit 12 a = 0"
    by (simp add: is_page_aligned_def PAGE_SIZE_def take_bit_eq_mask mask_eq_exp_minus_1)
  also have "\<dots> \<longleftrightarrow> unat (take_bit 12 a) = 0" by (rule unat_eq_zero [symmetric])
  also have "\<dots> \<longleftrightarrow> unat a mod 4096 = 0"
    by (subst unsigned_take_bit_eq) (simp add: take_bit_eq_mod)
  finally show ?thesis by (simp add: dvd_eq_mod_eq_0)
qed

text \<open>The conditions under which a request is well formed, in terms of numbers.\<close>

definition request_ok :: "contract_request \<Rightarrow> bool" where
  "request_ok r \<longleftrightarrow>
     unat (req_va_start r) < unat (req_va_end r) \<and>
     4096 dvd unat (req_va_start r) \<and> 4096 dvd unat (req_va_end r) \<and>
     unat (req_length r) = unat (req_va_end r) - unat (req_va_start r) \<and>
     \<not> writable_and_executable (req_prot r) \<and> 4096 dvd unat (req_phys_start r) \<and>
     (req_storage_key r = STORAGE_KEY_AUTO \<or> unat (req_storage_key r) < 16)"

lemma validate_request_iff: "validate_request r = Inr () \<longleftrightarrow> request_ok r"
proof -
  have range: "validate_range s e = Inr () \<longleftrightarrow>
      unat s < unat e \<and> 4096 dvd unat s \<and> 4096 dvd unat e" for s e
    by (auto simp: validate_range_def page_aligned_unat word_less_nat_alt word_le_nat_alt)
  have key: "validate_storage_key k = Inr () \<longleftrightarrow> k = STORAGE_KEY_AUTO \<or> unat k < 16" for k
    by (auto simp: validate_storage_key_def STORAGE_KEY_COUNT_def word_le_nat_alt)
  have len: "l \<noteq> 0 \<and> l = e - s \<longleftrightarrow> unat l = unat e - unat s" if "unat s < unat e" for l e s :: u64
  proof -
    have "unat (e - s) = unat e - unat s"
      using that by (simp add: unat_sub word_le_nat_alt)
    with that show ?thesis by (auto simp: word_unat_eq_iff)
  qed
  show ?thesis
  proof (cases "validate_range (req_va_start r) (req_va_end r)")
    case (Inl e)
    then show ?thesis
      using range [of "req_va_start r" "req_va_end r"] by (auto simp: validate_request_def request_ok_def)
  next
    case (Inr u)
    then have ok: "unat (req_va_start r) < unat (req_va_end r)"
      using range [of "req_va_start r" "req_va_end r"] by auto
    show ?thesis
      using Inr range [of "req_va_start r" "req_va_end r"] len [OF ok, of "req_length r"]
        key [of "req_storage_key r"]
      by (auto simp: validate_request_def request_ok_def page_aligned_unat)
  qed
qed

lemma resolve_after_validate:
  "validate_request r = Inr () \<Longrightarrow>
     resolve_storage_key (req_storage_key r) =
       Inr (if req_storage_key r = STORAGE_KEY_AUTO then 0 else req_storage_key r)"
  by (auto simp: validate_request_def resolve_storage_key_def split: sum.splits if_splits)

section \<open>Properties\<close>

text \<open>
  C28. A mapping is authorized exactly when the range is non-empty and page aligned, the
  length is the length of the range, the frame is page aligned, the key is architected (or
  automatic), the page is not both writable and executable, and a portal mapping asks for
  shared access. The result then carries a key below 16, the rights \<open>map\<close> and, for shared
  access, \<open>share\<close>, and the current generation; the mapping needs an invalidation exactly when
  a frame is given.
\<close>

theorem authorize_mapping_iff:
  "authorize_mapping g r = Inr res \<longleftrightarrow>
     request_ok r \<and> (req_scope r = portal_shared \<longrightarrow> memory_access_has (req_access r) access_share) \<and>
     res = \<lparr>res_storage_key = (if req_storage_key r = STORAGE_KEY_AUTO then 0 else req_storage_key r),
            res_numa_node = req_numa_node r,
            res_invalidate = (if req_phys_start r = 0 then inv_none else address_space),
            res_required_rights =
              (if memory_access_has (req_access r) access_share then rights_map OR rights_share else rights_map),
            res_generation = g, res_access = req_access r, res_scope = req_scope r\<rparr>"
proof (cases "validate_request r")
  case (Inl e)
  then show ?thesis using validate_request_iff [of r] by (auto simp: authorize_mapping_def)
next
  case (Inr u)
  then have ok: "request_ok r" using validate_request_iff [of r] by simp
  then have "\<not> writable_and_executable (req_prot r)" by (simp add: request_ok_def)
  with Inr ok resolve_after_validate [of r] show ?thesis
    by (auto simp: authorize_mapping_def required_rights_def contract_generation_def)
qed

definition sample_request :: contract_request where
  "sample_request =
     \<lparr>req_domain_id = 3, req_va_start = 0x10000, req_va_end = 0x12000, req_phys_start = 0x40000,
      req_length = 0x2000, req_prot = PTE_NOEXEC, req_storage_key = 9, req_numa_node = 0,
      req_access = access_read OR access_share, req_scope = portal_shared,
      req_policy = deterministic_fallback\<rparr>"

theorem authorize_mapping_iff_witness:
  "authorize_mapping 5 sample_request =
     Inr \<lparr>res_storage_key = 9, res_numa_node = 0, res_invalidate = address_space,
          res_required_rights = rights_map OR rights_share, res_generation = 5,
          res_access = access_read OR access_share, res_scope = portal_shared\<rparr>"
proof -
  have "request_ok sample_request"
    by (simp add: request_ok_def sample_request_def writable_and_executable_def PTE_NOEXEC_def)
  moreover have "memory_access_has (req_access sample_request) access_share"
    by (simp add: sample_request_def memory_access_has_def mask_has_def access_consts)
  ultimately show ?thesis
    unfolding authorize_mapping_iff by (simp add: sample_request_def STORAGE_KEY_AUTO_def)
qed

end
