(* ===== verification/ZX_Isolation.thy ===== *)
theory ZX_Isolation
  imports ZX_Domain ZX_Memory_Contract
begin

text \<open>
  The isolation core (\<open>zxfoundation/dgp/isolation.zcomponent/core.cxx\<close>): the storage-key
  registry, creation and destruction of a domain's isolation state, revocation of keys and
  rights, and the structural checks made before scheduling, gate entry and portal use.

  A reference parameter is an argument and a component of the result. The two overloads of
  the revocation functions differ only in whether the epoch is an atomic or is accessed
  through \<open>atomic_ref\<close>; one definition models both.
\<close>

section \<open>State\<close>

record isolation_state =
  g_isolation_initialized :: bool
  g_storage_key_used :: "bool list"
  g_storage_key_generation :: "u32 list"
  g_contract_generation :: u64

text \<open>The fields of a domain that the revocation functions receive by reference.\<close>

record domain_identity =
  di_state :: lifecycle_state
  di_storage_key :: u8
  di_storage_key_generation :: u32
  di_storage_key_state :: skey_revocation_state
  di_revocation_epoch :: u16

section \<open>The storage-key registry\<close>

definition mask_is_valid :: "sched_mask \<Rightarrow> nat \<Rightarrow> bool" where
  "mask_is_valid bits limit =
     (if bits = 0 then True
      else if limit \<ge> 64 then True
      else let valid_mask = push_bit limit 1 - 1 in bits AND NOT valid_mask = 0)"

definition allocate_storage_key :: "u8 \<Rightarrow> 'a isolation_state_scheme \<Rightarrow> 'a isolation_state_scheme \<times> u8 expected"
where
  "allocate_storage_key requested g =
     (if requested \<noteq> STORAGE_KEY_AUTO then
        if requested < STORAGE_KEY_USER_BASE \<or> requested > STORAGE_KEY_USER_MAX
        then (g, Inl (from_generic invalid_arg))
        else if g_storage_key_used g ! unat requested then (g, Inl (from_memory out_of_memory))
        else (g\<lparr>g_storage_key_used := (g_storage_key_used g)[unat requested := True]\<rparr>, Inr requested)
      else
        case first_from (\<lambda>key. \<not> g_storage_key_used g ! key) (unat STORAGE_KEY_USER_BASE)
               (unat STORAGE_KEY_USER_MAX + 1 - unat STORAGE_KEY_USER_BASE) of
          Some key \<Rightarrow> (g\<lparr>g_storage_key_used := (g_storage_key_used g)[key := True]\<rparr>, Inr (of_nat key))
        | None \<Rightarrow> (g, Inl (from_memory out_of_memory)))"

definition release_storage_key :: "u8 \<Rightarrow> 'a isolation_state_scheme \<Rightarrow> 'a isolation_state_scheme \<times> u32" where
  "release_storage_key key g =
     (if key \<ge> STORAGE_KEY_USER_BASE \<and> key \<le> STORAGE_KEY_USER_MAX then
        let k = unat key;
            g' = (if g_storage_key_used g ! k
                  then g\<lparr>g_storage_key_used := (g_storage_key_used g)[k := False],
                         g_storage_key_generation :=
                           (g_storage_key_generation g)[k := g_storage_key_generation g ! k + 1]\<rparr>
                  else g)
        in (g', g_storage_key_generation g' ! k)
      else (g, 0))"

definition storage_key_generation :: "u8 \<Rightarrow> 'a isolation_state_scheme \<Rightarrow> u32" where
  "storage_key_generation key g =
     (if key \<ge> STORAGE_KEY_COUNT then 0 else g_storage_key_generation g ! unat key)"

definition isolation_init :: "'a isolation_state_scheme \<Rightarrow> 'a isolation_state_scheme" where
  "isolation_init g =
     g\<lparr>g_storage_key_used := (replicate (unat STORAGE_KEY_COUNT) False)[0 := True],
       g_storage_key_generation := replicate (unat STORAGE_KEY_COUNT) 1,
       g_isolation_initialized := True\<rparr>"

section \<open>Domains\<close>

definition admin_rights :: isolation_rights where
  "admin_rights =
     rights_lifecycle OR rights_delegate OR rights_quota OR rights_debug OR rights_sched
     OR rights_console OR rights_service"

definition create_domain ::
  "u32 \<Rightarrow> isolation_policy \<Rightarrow> 'a isolation_state_scheme \<Rightarrow>
   'a isolation_state_scheme \<times> isolation_domain_state expected" where
  "create_domain domain_id policy g =
     (if \<not> g_isolation_initialized g then (g, Inl (from_generic uninitialized))
      else case allocate_storage_key (policy_storage_key policy) g of
        (g', Inl e) \<Rightarrow> (g', Inl e)
      | (g', Inr key) \<Rightarrow>
          let state = isolation_domain_state_default
                \<lparr>iso_domain_id := domain_id, iso_storage_key := key,
                 iso_storage_key_generation := storage_key_generation key g',
                 iso_storage_key_state := sk_active, iso_numa_node := policy_numa_node policy,
                 iso_granted_rights := default_rights policy\<rparr>
          in (g', Inr (if bootstrap_admin policy
                       then state\<lparr>iso_granted_rights := iso_granted_rights state OR admin_rights\<rparr>
                       else state)))"

definition bind_asce_root ::
  "isolation_domain_state \<Rightarrow> lifecycle_state \<Rightarrow> u64 \<Rightarrow> u64 \<Rightarrow> isolation_domain_state \<times> unit expected" where
  "bind_asce_root state current_ls asce root_phys =
     (if current_ls \<noteq> Sealed \<or> root_phys = 0 \<or> asce = 0 then (state, Inl (from_generic invalid_arg))
      else (state\<lparr>iso_asce := asce, iso_root_phys := root_phys\<rparr>, Inr ()))"

definition activate_domain ::
  "lifecycle_state \<Rightarrow> u64 \<Rightarrow> u64 \<Rightarrow> u8 \<Rightarrow> lifecycle_state \<times> unit expected" where
  "activate_domain state asce root_phys storage_key =
     (if state \<noteq> Sealed \<or> root_phys = 0 \<or> asce = 0 then (state, Inl (from_generic invalid_arg))
      else (state, Inr ()))"

definition begin_storage_key_revocation :: "domain_identity \<Rightarrow> domain_identity \<times> unit expected" where
  "begin_storage_key_revocation d =
     (if di_state d = Destroyed \<or> di_storage_key_state d = sk_reusable then (d, Inr ())
      else (d\<lparr>di_state := Dying, di_storage_key_state := sk_draining,
              di_revocation_epoch := di_revocation_epoch d + 1\<rparr>, Inr ()))"

definition complete_storage_key_revocation ::
  "domain_identity \<Rightarrow> 'a isolation_state_scheme \<Rightarrow>
   'a isolation_state_scheme \<times> domain_identity \<times> unit expected" where
  "complete_storage_key_revocation d g =
     (if di_storage_key_state d = sk_reusable \<or> di_storage_key d = 0
      then (g, d\<lparr>di_storage_key_state := sk_reusable\<rparr>, Inr ())
      else if di_storage_key_state d \<noteq> sk_draining then (g, d, Inl (from_generic invalid_arg))
      else let (g', gen) = release_storage_key (di_storage_key d) g
           in (g'\<lparr>g_contract_generation := fst (generation_bump (g_contract_generation g'))\<rparr>,
               d\<lparr>di_storage_key_generation := gen, di_storage_key_state := sk_reusable\<rparr>, Inr ()))"

definition begin_portal_teardown :: "u16 \<Rightarrow> u16 \<times> unit expected" where
  "begin_portal_teardown revocation_epoch = (revocation_epoch + 1, Inr ())"

definition destroy_domain ::
  "domain_identity \<Rightarrow> 'a isolation_state_scheme \<Rightarrow>
   'a isolation_state_scheme \<times> domain_identity \<times> unit expected" where
  "destroy_domain d g =
     (if di_state d = Destroyed then (g, d, Inr ())
      else case begin_storage_key_revocation d of
        (d1, Inl e) \<Rightarrow> (g, d1, Inl e)
      | (d1, Inr _) \<Rightarrow>
          (case complete_storage_key_revocation d1 g of
             (g', d2, Inl e) \<Rightarrow> (g', d2, Inl e)
           | (g', d2, Inr _) \<Rightarrow> (g', d2, Inr ())))"

section \<open>Checks\<close>

definition validate_scheduler_admission ::
  "'a isolation_state_scheme \<Rightarrow> lifecycle_state \<Rightarrow> u64 \<Rightarrow> u64 \<Rightarrow> unit expected" where
  "validate_scheduler_admission g state root_phys asce_raw =
     (if \<not> g_isolation_initialized g then Inl (from_generic uninitialized)
      else if state \<noteq> Active \<or> root_phys = 0 \<or> asce_raw = 0 then Inl (from_generic invalid_arg)
      else Inr ())"

definition validate_scheduler_policy ::
  "nat \<Rightarrow> lifecycle_state \<Rightarrow> sched_policy \<Rightarrow> bool \<Rightarrow> sched_admission_result expected" where
  "validate_scheduler_policy max_cpus state policy has_rt_authority =
     (if state \<noteq> Active then Inl (from_generic invalid_arg)
      else
        let result = sched_admission_result_default
              \<lparr>adm_class_id := sp_class_id policy, remote_node_allowed := True,
               smt_sibling_allowed := allow_smt_sibling policy\<rparr>;
            masks_ok = mask_is_valid (allowed_cpus policy) max_cpus \<and>
                       mask_is_valid (allowed_numa_nodes policy) 64;
            admitted = result\<lparr>admitted_runtime_ns := runtime_ns policy,
                              admitted_period_ns := period_ns policy\<rparr>
        in case sp_class_id policy of
             sc_idle \<Rightarrow> Inr result
           | sc_fair \<Rightarrow> Inr result
           | sc_rt \<Rightarrow>
               if \<not> has_rt_authority \<or> rt_priority policy = 0 \<or> rt_priority policy > 99
               then Inl (from_generic invalid_arg)
               else if runtime_ns policy = 0 \<or> period_ns policy = 0 \<or> runtime_ns policy > period_ns policy
               then Inl (from_generic invalid_arg)
               else if \<not> masks_ok then Inl (from_generic invalid_arg)
               else Inr admitted
           | sc_deadline \<Rightarrow>
               if \<not> has_rt_authority then Inl (from_generic invalid_arg)
               else if runtime_ns policy = 0 \<or> deadline_ns policy = 0 \<or> period_ns policy = 0
                 \<or> runtime_ns policy > deadline_ns policy \<or> deadline_ns policy > period_ns policy
               then Inl (from_generic invalid_arg)
               else if \<not> masks_ok then Inl (from_generic invalid_arg)
               else Inr admitted)"


definition validate_gate_entry ::
  "'a isolation_state_scheme \<Rightarrow> u32 \<Rightarrow> u32 \<Rightarrow> isolation_rights \<Rightarrow> unit expected" where
  "validate_gate_entry g caller_domain_id gate_id requested =
     (if \<not> g_isolation_initialized g then Inl (from_generic invalid_arg)
      else if requested = rights_none then Inl (from_generic invalid_arg)
      else if caller_domain_id \<ge> MAX_DOMAINS then Inl (from_generic invalid_arg)
      else let ns = drop_bit 5 gate_id
           in if ns > 0x1F then Inl (from_generic invalid_arg) else Inr ())"

definition validate_portal ::
  "'a isolation_state_scheme \<Rightarrow> u32 \<Rightarrow> u32 \<Rightarrow> u64 \<Rightarrow> u64 \<Rightarrow> isolation_rights \<Rightarrow> unit expected" where
  "validate_portal g source_domain_id target_domain_id va_start va_end requested =
     (if \<not> g_isolation_initialized g then Inl (from_generic invalid_arg)
      else if va_start \<ge> va_end then Inl (from_generic invalid_arg)
      else if \<not> has_all_rights requested rights_share then Inl (from_generic invalid_arg)
      else Inr ())"

text \<open>The fields of a domain that \<open>revoke_domain_rights\<close> reads and writes.\<close>

record domain_rights =
  dr_state :: lifecycle_state
  dr_granted_rights :: isolation_rights
  dr_pending_rights_revoke_raw :: u32
  dr_revocation_epoch :: u16

definition revoke_domain_rights :: "isolation_rights \<Rightarrow> domain_rights \<Rightarrow> domain_rights \<times> unit expected" where
  "revoke_domain_rights drop_mask d =
     (if dr_state d \<noteq> Active then (d, Inl (from_generic invalid_arg))
      else let granted_raw = dr_granted_rights d; effective_drop = drop_mask AND granted_raw
           in if effective_drop = 0 then (d, Inr ())
              else (d\<lparr>dr_granted_rights := granted_raw AND NOT effective_drop,
                      dr_pending_rights_revoke_raw := dr_pending_rights_revoke_raw d OR effective_drop,
                      dr_revocation_epoch := dr_revocation_epoch d + 1\<rparr>, Inr ()))"

section \<open>Leases of keys\<close>

text \<open>
  The contract of a pool of keys: acquiring a key yields one that was not in use, releasing
  a key frees that key only. Whoever keeps such leases in a table of holders then never has
  two holders of one key.
\<close>

locale key_pool =
  fixes used :: "'s \<Rightarrow> 'k \<Rightarrow> bool"
    and acquired :: "'s \<Rightarrow> 'k \<Rightarrow> 's \<Rightarrow> bool"
    and released :: "'s \<Rightarrow> 'k \<Rightarrow> 's \<Rightarrow> bool"
  assumes acquire_fresh: "acquired s k s' \<Longrightarrow> \<not> used s k"
    and acquire_used: "acquired s k s' \<Longrightarrow> used s' j \<longleftrightarrow> used s j \<or> j = k"
    and release_used: "released s k s' \<Longrightarrow> used s' j \<longleftrightarrow> used s j \<and> j \<noteq> k"
begin

definition leases_ok :: "'s \<Rightarrow> ('o \<Rightarrow> 'k option) \<Rightarrow> bool" where
  "leases_ok s h \<longleftrightarrow>
     (\<forall>p k. h p = Some k \<longrightarrow> used s k) \<and> (\<forall>p q k. h p = Some k \<and> h q = Some k \<longrightarrow> p = q)"

lemma leases_acquire: "leases_ok s h \<Longrightarrow> acquired s k s' \<Longrightarrow> leases_ok s' (h(p := Some k))"
  unfolding leases_ok_def using acquire_fresh [of s k s'] acquire_used [of s k s']
  by (simp split: if_splits) blast

lemma leases_release: "leases_ok s h \<Longrightarrow> h p = Some k \<Longrightarrow> released s k s' \<Longrightarrow> leases_ok s' (h(p := None))"
  unfolding leases_ok_def using release_used [of s k s'] by (simp split: if_splits) blast

lemma leases_drop: "leases_ok s h \<Longrightarrow> leases_ok s (h(p := None))"
  unfolding leases_ok_def by auto

lemma leases_capacity:
  assumes "leases_ok s h" and "finite K" and "\<And>k. used s k \<Longrightarrow> k \<in> K"
  shows "finite (dom h)" and "card (dom h) \<le> card K"
proof -
  have inj: "inj_on (\<lambda>p. the (h p)) (dom h)" and sub: "(\<lambda>p. the (h p)) ` dom h \<subseteq> K"
    using assms(1,3) unfolding leases_ok_def by (auto intro!: inj_onI)
  show "finite (dom h)" using inj sub assms(2) by (rule inj_on_finite)
  show "card (dom h) \<le> card K" using inj sub assms(2) by (rule card_inj_on_le)
qed

end

definition registry_ok :: "'a isolation_state_scheme \<Rightarrow> bool" where
  "registry_ok g \<longleftrightarrow> length (g_storage_key_used g) = 16 \<and> length (g_storage_key_generation g) = 16"

definition user_key :: "u8 \<Rightarrow> bool" where
  "user_key k \<longleftrightarrow> k \<ge> STORAGE_KEY_USER_BASE \<and> k \<le> STORAGE_KEY_USER_MAX"

definition key_in_use :: "'a isolation_state_scheme \<Rightarrow> u8 \<Rightarrow> bool" where
  "key_in_use g k \<longleftrightarrow> user_key k \<and> g_storage_key_used g ! unat k"

lemma user_key_iff: "user_key k \<longleftrightarrow> 8 \<le> unat k \<and> unat k < 16"
  by (auto simp: user_key_def storage_key_consts word_le_nat_alt)

lemma user_key_index: "user_key k \<Longrightarrow> user_key j \<Longrightarrow> unat k = unat j \<longleftrightarrow> k = j"
  by (simp add: word_unat_eq_iff)

text \<open>What the allocator does, in one rule: it takes a free user key, or fails and changes nothing.\<close>

lemma allocate_storage_key_Inr:
  assumes "allocate_storage_key req g = (g', Inr k)"
  shows "user_key k" and "\<not> g_storage_key_used g ! unat k"
    and "g' = g\<lparr>g_storage_key_used := (g_storage_key_used g)[unat k := True]\<rparr>"
    and "req \<noteq> STORAGE_KEY_AUTO \<Longrightarrow> k = req"
proof -
  have *: "user_key k \<and> \<not> g_storage_key_used g ! unat k \<and>
      g' = g\<lparr>g_storage_key_used := (g_storage_key_used g)[unat k := True]\<rparr> \<and>
      (req \<noteq> STORAGE_KEY_AUTO \<longrightarrow> k = req)"
  proof (cases "req = STORAGE_KEY_AUTO")
    case True
    with assms obtain n where n: "first_from (\<lambda>key. \<not> g_storage_key_used g ! key) 8 8 = Some n"
      "k = of_nat n" "g' = g\<lparr>g_storage_key_used := (g_storage_key_used g)[n := True]\<rparr>"
      by (auto simp: allocate_storage_key_def storage_key_consts split: option.splits)
    from first_from_Some [OF n(1)] n(2) have "unat k = n" "8 \<le> n" "n < 16" "\<not> g_storage_key_used g ! n"
      by (auto simp: unat_of_nat)
    with True n(3) show ?thesis by (simp add: user_key_iff)
  next
    case False
    with assms show ?thesis
      by (auto simp: allocate_storage_key_def user_key_def not_less split: if_splits)
  qed
  from * show "user_key k" "\<not> g_storage_key_used g ! unat k"
    "g' = g\<lparr>g_storage_key_used := (g_storage_key_used g)[unat k := True]\<rparr>"
    "req \<noteq> STORAGE_KEY_AUTO \<Longrightarrow> k = req" by blast+
qed

lemma allocate_storage_key_Inl: "allocate_storage_key req g = (g', Inl e) \<Longrightarrow> g' = g"
  by (auto simp: allocate_storage_key_def split: if_splits option.splits)

lemma release_storage_key_used:
  assumes "user_key k"
  shows "g_storage_key_used (fst (release_storage_key k g)) = (g_storage_key_used g)[unat k := False]"
  using assms list_update_id [of "g_storage_key_used g" "unat k"]
  by (auto simp: release_storage_key_def user_key_def Let_def simp del: list_update_id)

definition key_acquired :: "'a isolation_state_scheme \<Rightarrow> u8 \<Rightarrow> 'a isolation_state_scheme \<Rightarrow> bool" where
  "key_acquired g k g' \<longleftrightarrow> registry_ok g \<and> (\<exists>req. allocate_storage_key req g = (g', Inr k))"

definition key_released :: "'a isolation_state_scheme \<Rightarrow> u8 \<Rightarrow> 'a isolation_state_scheme \<Rightarrow> bool" where
  "key_released g k g' \<longleftrightarrow>
     registry_ok g \<and> user_key k \<and> g_storage_key_used g' = g_storage_key_used (fst (release_storage_key k g))"

interpretation kp: key_pool key_in_use key_acquired key_released
proof
  fix g k g' and j
  show "key_acquired g k g' \<Longrightarrow> \<not> key_in_use g k"
    by (auto simp: key_acquired_def key_in_use_def dest: allocate_storage_key_Inr)
  show "key_in_use g' j \<longleftrightarrow> key_in_use g j \<or> j = k" if "key_acquired g k g'"
  proof -
    from that obtain req where a: "registry_ok g" "allocate_storage_key req g = (g', Inr k)"
      by (auto simp: key_acquired_def)
    with allocate_storage_key_Inr(1,3) [OF a(2)] word_unat_eq_iff [of j k] show ?thesis
      by (auto simp: key_in_use_def registry_ok_def nth_list_update user_key_iff split: if_splits)
  qed
  show "key_in_use g' j \<longleftrightarrow> key_in_use g j \<and> j \<noteq> k" if "key_released g k g'"
    using that word_unat_eq_iff [of j k] unfolding key_released_def registry_ok_def
    by (auto simp: key_in_use_def release_storage_key_used nth_list_update user_key_iff
        split: if_splits)
qed

section \<open>Domains and their keys\<close>

text \<open>The identity fields a new domain takes over from its isolation state.\<close>

definition identity_of :: "lifecycle_state \<Rightarrow> isolation_domain_state \<Rightarrow> domain_identity" where
  "identity_of ls st =
     \<lparr>di_state = ls, di_storage_key = iso_storage_key st,
      di_storage_key_generation = iso_storage_key_generation st,
      di_storage_key_state = iso_storage_key_state st,
      di_revocation_epoch = iso_revocation_epoch st\<rparr>"

definition holds_key :: "domain_identity \<Rightarrow> bool" where
  "holds_key x \<longleftrightarrow> di_storage_key_state x = sk_active \<or> di_storage_key_state x = sk_draining"

definition holders :: "(u32 \<Rightarrow> domain_identity option) \<Rightarrow> u32 \<Rightarrow> u8 option" where
  "holders doms d =
     (case doms d of None \<Rightarrow> None | Some x \<Rightarrow> if holds_key x then Some (di_storage_key x) else None)"

lemma holders_upd:
  "holders (doms(d := Some x)) = (holders doms)(d := if holds_key x then Some (di_storage_key x) else None)"
  by (rule ext) (simp add: holders_def)

text \<open>
  The key-relevant steps of the system: domains are created, move through their lifecycle,
  and have their key revoked in one go or in two phases. A step may fail; it then leaves
  what the code leaves.
\<close>

inductive iso_step ::
  "isolation_state \<times> (u32 \<Rightarrow> domain_identity option) \<Rightarrow>
   isolation_state \<times> (u32 \<Rightarrow> domain_identity option) \<Rightarrow> bool" where
  create: "doms d = None \<Longrightarrow> create_domain d pol g = (g', Inr st) \<Longrightarrow>
    iso_step (g, doms) (g', doms(d := Some (identity_of Embryo st)))"
| create_fails: "create_domain d pol g = (g', Inl e) \<Longrightarrow> iso_step (g, doms) (g', doms)"
| lifecycle: "doms d = Some x \<Longrightarrow> iso_step (g, doms) (g, doms(d := Some (x\<lparr>di_state := ls\<rparr>)))"
| begin_rev: "doms d = Some x \<Longrightarrow> begin_storage_key_revocation x = (x', r) \<Longrightarrow>
    iso_step (g, doms) (g, doms(d := Some x'))"
| complete_rev: "doms d = Some x \<Longrightarrow> complete_storage_key_revocation x g = (g', x', r) \<Longrightarrow>
    iso_step (g, doms) (g', doms(d := Some x'))"
| destroy: "doms d = Some x \<Longrightarrow> destroy_domain x g = (g', x', r) \<Longrightarrow>
    iso_step (g, doms) (g', doms(d := Some x'))"
| remove: "iso_step (g, doms) (g, doms(d := None))"

inductive iso_reach :: "isolation_state \<times> (u32 \<Rightarrow> domain_identity option) \<Rightarrow> bool" where
  start: "iso_reach (isolation_init g, Map.empty)"
| step: "iso_reach s \<Longrightarrow> iso_step s s' \<Longrightarrow> iso_reach s'"

definition iso_inv :: "isolation_state \<times> (u32 \<Rightarrow> domain_identity option) \<Rightarrow> bool" where
  "iso_inv s \<longleftrightarrow>
     registry_ok (fst s) \<and> kp.leases_ok (fst s) (holders (snd s)) \<and>
     (\<forall>d x. snd s d = Some x \<longrightarrow> di_storage_key_state x \<noteq> sk_none)"

lemma create_domain_Inr:
  assumes "create_domain d pol g = (g', Inr st)"
  shows "allocate_storage_key (policy_storage_key pol) g = (g', Inr (iso_storage_key st))"
    and "iso_storage_key_state st = sk_active"
    and "iso_storage_key_generation st = storage_key_generation (iso_storage_key st) g'"
  using assms by (auto simp: create_domain_def Let_def split: if_splits prod.splits sum.splits)

lemma create_domain_Inl: "create_domain d pol g = (g', Inl e) \<Longrightarrow> g' = g"
  by (auto simp: create_domain_def Let_def split: if_splits prod.splits sum.splits
      dest: allocate_storage_key_Inl)

lemma registry_ok_release: "registry_ok g \<Longrightarrow> registry_ok (fst (release_storage_key k g))"
  by (simp add: registry_ok_def release_storage_key_def Let_def)

text \<open>Completing a revocation keeps the leases: the key it frees is the domain's own.\<close>

lemma complete_revocation_inv:
  assumes "registry_ok g" and "kp.leases_ok g (holders doms)" and "doms d = Some x"
    and "complete_storage_key_revocation x g = (g', x', r)"
  shows "registry_ok g' \<and> kp.leases_ok g' (holders (doms(d := Some x')))"
proof (cases "di_storage_key_state x \<noteq> sk_reusable \<and> di_storage_key x \<noteq> 0 \<and> di_storage_key_state x = sk_draining")
  case True
  let ?k = "di_storage_key x"
  have h: "holders doms d = Some ?k" using True assms(3) by (simp add: holders_def holds_key_def)
  then have "key_in_use g ?k" using assms(2) by (auto simp: kp.leases_ok_def)
  then have uk: "user_key ?k" by (simp add: key_in_use_def)
  have x': "holds_key x' = False" and g': "g_storage_key_used g' = g_storage_key_used (fst (release_storage_key ?k g))"
    "registry_ok g'"
    using True assms(1,4) registry_ok_release [of g ?k]
    by (auto simp: complete_storage_key_revocation_def holds_key_def registry_ok_def split: prod.splits)
  have "kp.leases_ok g' ((holders doms)(d := None))"
    by (rule kp.leases_release [OF assms(2) h]) (simp add: key_released_def assms(1) uk g'(1))
  with g'(2) x' show ?thesis by (simp add: holders_upd)
next
  case False
  then have "g' = g" and "holds_key x' \<Longrightarrow> holds_key x \<and> di_storage_key x' = di_storage_key x"
    using assms(4) by (auto simp: complete_storage_key_revocation_def holds_key_def split: if_splits)
  then have "holders (doms(d := Some x')) = (holders doms)(d := None) \<or>
      holders (doms(d := Some x')) = holders doms"
    using assms(3) by (auto simp: holders_upd holders_def fun_eq_iff)
  with assms(1,2) \<open>g' = g\<close> show ?thesis by (auto dest: kp.leases_drop)
qed

lemma complete_revocation_keyed:
  "complete_storage_key_revocation x g = (g', x', r) \<Longrightarrow> di_storage_key_state x \<noteq> sk_none \<Longrightarrow>
     di_storage_key_state x' \<noteq> sk_none"
  by (auto simp: complete_storage_key_revocation_def Let_def split: if_splits prod.splits)

lemma begin_revocation_holders:
  assumes "begin_storage_key_revocation x = (x', r)" and "di_storage_key_state x \<noteq> sk_none"
    and "doms d = Some x"
  shows "holders (doms(d := Some x')) = holders doms" and "di_storage_key_state x' \<noteq> sk_none"
proof -
  have "di_storage_key x' = di_storage_key x" "holds_key x' = holds_key x"
    using assms(1,2) by (cases "di_storage_key_state x";
        auto simp: begin_storage_key_revocation_def holds_key_def split: if_splits)+
  then show "holders (doms(d := Some x')) = holders doms"
    using assms(3) by (auto simp: holders_def fun_eq_iff)
  show "di_storage_key_state x' \<noteq> sk_none"
    using assms(1,2) by (auto simp: begin_storage_key_revocation_def split: if_splits)
qed

lemma destroy_domain_run:
  assumes "destroy_domain x g = (g', x', r)" and "di_state x \<noteq> Destroyed"
  obtains x1 r2 where "begin_storage_key_revocation x = (x1, Inr ())"
    and "complete_storage_key_revocation x1 g = (g', x', r2)"
proof -
  obtain x1 r1 where b: "begin_storage_key_revocation x = (x1, r1)"
    by (cases "begin_storage_key_revocation x")
  moreover have "r1 = Inr ()"
    using b by (auto simp: begin_storage_key_revocation_def split: if_splits)
  ultimately show ?thesis
    using assms that by (auto simp: destroy_domain_def split: prod.splits sum.splits)
qed

lemma destroy_domain_inv:
  assumes "registry_ok g" and "kp.leases_ok g (holders doms)" and kx: "di_storage_key_state x \<noteq> sk_none"
    and d: "doms d = Some x" and run: "destroy_domain x g = (g', x', r)"
  shows "registry_ok g' \<and> kp.leases_ok g' (holders (doms(d := Some x'))) \<and> di_storage_key_state x' \<noteq> sk_none"
proof (cases "di_state x = Destroyed")
  case True
  then have "g' = g" "x' = x" using run by (auto simp: destroy_domain_def)
  moreover from this d have "doms(d := Some x') = doms" by (simp add: fun_upd_idem)
  ultimately show ?thesis using assms by simp
next
  case False
  obtain x1 r2 where b: "begin_storage_key_revocation x = (x1, Inr ())"
    and c: "complete_storage_key_revocation x1 g = (g', x', r2)"
    by (rule destroy_domain_run [OF run False])
  note h = begin_revocation_holders [where doms = doms and d = d, OF b kx d]
  have "registry_ok g' \<and> kp.leases_ok g' (holders ((doms(d := Some x1))(d := Some x')))"
    using assms(1,2) h(1) c by (intro complete_revocation_inv [of g _ d x1]) simp_all
  with complete_revocation_keyed [OF c h(2)] show ?thesis by simp
qed

lemma iso_inv_step:
  assumes "iso_step s s'" and "iso_inv s"
  shows "iso_inv s'"
  using assms
proof (induction rule: iso_step.induct)
  case (create doms d pol g g' st)
  note a = create_domain_Inr [OF create(2)]
  from create have inv: "registry_ok g" "kp.leases_ok g (holders doms)" by (simp_all add: iso_inv_def)
  have "key_acquired g (iso_storage_key st) g'" using inv(1) a(1) by (auto simp: key_acquired_def)
  from kp.leases_acquire [OF inv(2) this, of d] show ?case
    using create a inv(1) allocate_storage_key_Inr(3) [OF a(1)]
    by (auto simp: iso_inv_def holders_upd identity_of_def holds_key_def registry_ok_def)
next
  case (create_fails d pol g g' e doms)
  then show ?case using create_domain_Inl by blast
next
  case (lifecycle doms d x g ls)
  then have "holders (doms(d := Some (x\<lparr>di_state := ls\<rparr>))) = holders doms"
    by (auto simp: holders_def holds_key_def fun_eq_iff)
  with lifecycle show ?case by (auto simp: iso_inv_def)
next
  case (begin_rev doms d x x' r g)
  then have "di_storage_key_state x \<noteq> sk_none" by (auto simp: iso_inv_def)
  with begin_rev begin_revocation_holders [where doms = doms and d = d, OF begin_rev(2) this begin_rev(1)] show ?case
    by (auto simp: iso_inv_def)
next
  case (complete_rev doms d x g g' x' r)
  with complete_revocation_inv [of g doms d x g' x' r] complete_revocation_keyed [of x g g' x' r]
  show ?case by (auto simp: iso_inv_def)
next
  case (destroy doms d x g g' x' r)
  then have "di_storage_key_state x \<noteq> sk_none" by (auto simp: iso_inv_def)
  with destroy destroy_domain_inv [of g doms x d g' x' r] show ?case by (auto simp: iso_inv_def)
next
  case (remove g doms d)
  have "holders (doms(d := None)) = (holders doms)(d := None)"
    by (auto simp: holders_def fun_eq_iff)
  with remove show ?case by (auto simp: iso_inv_def intro: kp.leases_drop)
qed

lemma iso_reach_inv: "iso_reach s \<Longrightarrow> iso_inv s"
proof (induction rule: iso_reach.induct)
  case (start g)
  show ?case
    by (simp add: iso_inv_def isolation_init_def registry_ok_def kp.leases_ok_def holders_def
        storage_key_consts)
qed (rule iso_inv_step)

section \<open>A sample system\<close>

definition sample_blank :: isolation_state where
  "sample_blank =
     \<lparr>g_isolation_initialized = False, g_storage_key_used = replicate 16 False,
      g_storage_key_generation = replicate 16 0, g_contract_generation = 1\<rparr>"

definition sample_policy :: isolation_policy where
  "sample_policy =
     \<lparr>required_features = 0, default_rights = rights_map, policy_storage_key = STORAGE_KEY_AUTO,
      policy_numa_node = 0, allow_portals = False, allow_user_execute = False,
      bootstrap_admin = False\<rparr>"

definition sample_registry :: isolation_state where
  "sample_registry =
     (isolation_init sample_blank)
       \<lparr>g_storage_key_used := (g_storage_key_used (isolation_init sample_blank))[8 := True]\<rparr>"

definition sample_identity :: domain_identity where
  "sample_identity =
     \<lparr>di_state = Embryo, di_storage_key = 8, di_storage_key_generation = 1,
      di_storage_key_state = sk_active, di_revocation_epoch = 0\<rparr>"

lemma sample_domain_reach: "iso_reach (sample_registry, [3 \<mapsto> sample_identity])"
proof -
  let ?st = "isolation_domain_state_default\<lparr>iso_domain_id := 3, iso_storage_key := 8,
      iso_storage_key_generation := 1, iso_storage_key_state := sk_active, iso_granted_rights := rights_map\<rparr>"
  have "create_domain 3 sample_policy (isolation_init sample_blank) = (sample_registry, Inr ?st)"
    by code_simp
  moreover have "identity_of Embryo ?st = sample_identity" by code_simp
  ultimately have "iso_step (isolation_init sample_blank, Map.empty) (sample_registry, [3 \<mapsto> sample_identity])"
    using iso_step.create [of Map.empty 3 sample_policy "isolation_init sample_blank"] by fastforce
  then show ?thesis by (rule iso_reach.step [OF iso_reach.start])
qed

section \<open>Properties\<close>

text \<open>
  C3. Storage keys isolate domains: in every reachable state two different domains whose
  keys are active or draining hold different keys, every held key is a user key marked as
  used, and at most eight domains hold keys.
\<close>

theorem storage_keys_exclusive:
  assumes "iso_reach (g, doms)"
  shows "(\<forall>d e k. holders doms d = Some k \<and> holders doms e = Some k \<longrightarrow> d = e) \<and>
    (\<forall>d k. holders doms d = Some k \<longrightarrow> key_in_use g k) \<and>
    finite (dom (holders doms)) \<and> card (dom (holders doms)) \<le> 8"
proof -
  have ok: "kp.leases_ok g (holders doms)" using iso_reach_inv [OF assms] by (simp add: iso_inv_def)
  let ?K = "{STORAGE_KEY_USER_BASE .. STORAGE_KEY_USER_MAX}"
  have "key_in_use g k \<Longrightarrow> k \<in> ?K" for k by (simp add: key_in_use_def user_key_def)
  note cap = kp.leases_capacity [OF ok _ this]
  have "?K = {8, 9, 10, 11, 12, 13, 14, 15}"
    by (auto simp: storage_key_consts word_le_nat_alt word_unat_eq_iff)
  then have K: "finite ?K" "card ?K = 8" by simp_all
  then show ?thesis using cap ok by (auto simp: kp.leases_ok_def)
qed

theorem storage_keys_exclusive_witness:
  "holders [3 \<mapsto> sample_identity] 3 = Some 8 \<and> key_in_use sample_registry 8 \<and>
   card (dom (holders [3 \<mapsto> sample_identity])) \<le> 8"
proof -
  have "holders [3 \<mapsto> sample_identity] 3 = Some 8"
    by (simp add: holders_def holds_key_def sample_identity_def)
  with storage_keys_exclusive [OF sample_domain_reach] show ?thesis by blast
qed



text \<open>
  A scheduling policy is admitted exactly for an active domain and, for the real-time
  and deadline classes, with the authority, a non-zero runtime within its period (through
  the deadline for the deadline class), a priority from 1 to 99 for the real-time class, and
  a CPU mask that names only configured CPUs. The admitted bandwidth is the requested one.
\<close>

definition bandwidth_ok :: "sched_policy \<Rightarrow> bool" where
  "bandwidth_ok p \<longleftrightarrow>
     (case sp_class_id p of
        sc_rt \<Rightarrow> 1 \<le> unat (rt_priority p) \<and> unat (rt_priority p) \<le> 99 \<and>
                 0 < unat (runtime_ns p) \<and> unat (runtime_ns p) \<le> unat (period_ns p)
      | sc_deadline \<Rightarrow> 0 < unat (runtime_ns p) \<and> unat (runtime_ns p) \<le> unat (deadline_ns p) \<and>
                 unat (deadline_ns p) \<le> unat (period_ns p)
      | _ \<Rightarrow> True)"

definition is_realtime :: "sched_policy \<Rightarrow> bool" where
  "is_realtime p \<longleftrightarrow> sp_class_id p = sc_rt \<or> sp_class_id p = sc_deadline"

lemma mask_is_valid_iff: "mask_is_valid m limit \<longleftrightarrow> (\<forall>n. bit m n \<longrightarrow> n < limit)"
proof (cases "limit \<ge> 64")
  case True
  then show ?thesis
    by (auto simp: mask_is_valid_def dest: bit_imp_le_length)
next
  case False
  have vm: "push_bit limit (1 :: u64) - 1 = mask limit"
    by (simp add: mask_eq_exp_minus_1 push_bit_eq_mult)
  have "m AND NOT (mask limit) = 0 \<longleftrightarrow> (\<forall>n<64. bit m n \<longrightarrow> n < limit)"
    by (auto simp: bit_eq_iff bit_simps)
  then have "m AND NOT (mask limit) = 0 \<longleftrightarrow> (\<forall>n. bit m n \<longrightarrow> n < limit)"
    using bit_imp_le_length [of m] by auto
  with False show ?thesis unfolding mask_is_valid_def Let_def vm by auto
qed

theorem validate_scheduler_policy_iff:
  "validate_scheduler_policy max_cpus ls p auth = Inr res \<longleftrightarrow>
     ls = Active \<and> bandwidth_ok p \<and>
     (is_realtime p \<longrightarrow> auth \<and> (\<forall>n. bit (allowed_cpus p) n \<longrightarrow> n < max_cpus)) \<and>
     res = \<lparr>admitted_runtime_ns = (if is_realtime p then runtime_ns p else 0),
            admitted_period_ns = (if is_realtime p then period_ns p else 0),
            preferred_cpu = 0, remote_node_allowed = True,
            smt_sibling_allowed = allow_smt_sibling p, adm_class_id = sp_class_id p\<rparr>"
proof -
  have numa: "mask_is_valid (allowed_numa_nodes p) 64" by (simp add: mask_is_valid_def)
  have pos: "0 < unat w \<longleftrightarrow> w \<noteq> 0" for w :: u64 by (simp add: unat_gt_0)
  have prio: "1 \<le> unat w \<and> unat w \<le> 99 \<longleftrightarrow> w \<noteq> 0 \<and> \<not> w > 99" for w :: u8
    by (auto simp: word_le_nat_alt not_less Suc_le_eq unat_gt_0)
  show ?thesis
    using numa prio [of "rt_priority p"]
    by (cases "sp_class_id p")
      (auto simp: validate_scheduler_policy_def bandwidth_ok_def is_realtime_def mask_is_valid_iff
        sched_admission_result_default_def pos word_le_nat_alt word_less_nat_alt unat_eq_zero Let_def)
qed

theorem validate_scheduler_policy_iff_witness:
  "let p = sched_policy_default\<lparr>sp_class_id := sc_rt, rt_priority := 50, runtime_ns := 20, period_ns := 100,
                                allowed_cpus := 5\<rparr>
   in validate_scheduler_policy 4 Active p True =
      Inr \<lparr>admitted_runtime_ns = 20, admitted_period_ns = 100, preferred_cpu = 0,
           remote_node_allowed = True, smt_sibling_allowed = True, adm_class_id = sc_rt\<rparr>"
proof -
  have "\<forall>n. bit (5 :: u64) n \<longrightarrow> n < 4"
    using mask_is_valid_iff [of 5 4] by (simp add: mask_is_valid_def Let_def)
  then show ?thesis
    unfolding Let_def validate_scheduler_policy_iff
    by (simp add: sched_policy_default_def bandwidth_ok_def is_realtime_def)
qed

text \<open>
  Revoking rights from an active domain only removes rights: what is left is the old
  mask without the dropped bits, every bit that disappears is remembered as pending, nothing
  else becomes pending, and the revocation epoch moves exactly when a bit was dropped.
\<close>

theorem revoke_domain_rights_effect:
  assumes "dr_state d = Active"
  shows "\<exists>d'. revoke_domain_rights drops d = (d', Inr ()) \<and>
    dr_granted_rights d' = dr_granted_rights d AND NOT drops \<and>
    dr_pending_rights_revoke_raw d' = dr_pending_rights_revoke_raw d OR (dr_granted_rights d AND drops) \<and>
    has_all_rights (dr_granted_rights d) (dr_granted_rights d') \<and>
    dr_granted_rights d' OR dr_pending_rights_revoke_raw d' =
      dr_granted_rights d OR dr_pending_rights_revoke_raw d \<and>
    (dr_revocation_epoch d' = dr_revocation_epoch d \<longleftrightarrow> dr_granted_rights d AND drops = 0)"
proof -
  let ?a = "dr_granted_rights d" and ?p = "dr_pending_rights_revoke_raw d"
  have 1: "?a AND NOT (drops AND ?a) = ?a AND NOT drops"
    and 2: "mask_has ?a (?a AND NOT drops)"
    and 3: "(?a AND NOT drops) OR (?p OR (?a AND drops)) = ?a OR ?p"
    by (auto simp: bit_eq_iff bit_simps mask_has_bits)
  have 4: "?a AND NOT drops = ?a" if "drops AND ?a = 0"
    using 1 that by simp
  show ?thesis
    using assms 1 2 3 4
    by (cases "drops AND ?a = 0")
      (auto simp: revoke_domain_rights_def Let_def has_all_rights_def and.commute)
qed

theorem revoke_domain_rights_effect_witness:
  "\<exists>d'. revoke_domain_rights (rights_map OR rights_io)
          \<lparr>dr_state = Active, dr_granted_rights = rights_map OR rights_share,
           dr_pending_rights_revoke_raw = 0, dr_revocation_epoch = 7\<rparr> = (d', Inr ()) \<and>
        dr_granted_rights d' = rights_share"
proof -
  have "(rights_map OR rights_share) AND NOT (rights_map OR rights_io) = rights_share"
    by (simp add: rights_consts)
  with revoke_domain_rights_effect [of
      "\<lparr>dr_state = Active, dr_granted_rights = rights_map OR rights_share,
        dr_pending_rights_revoke_raw = 0, dr_revocation_epoch = 7\<rparr>" "rights_map OR rights_io"]
  show ?thesis by auto
qed

end
