(* ===== verification/ZX_Signal.thy ===== *)
theory ZX_Signal
  imports ZX_Domain
begin

text \<open>
  Signal delivery (\<open>zxfoundation/dgp/signal.zcomponent/core.cxx\<close>): handler registration, the
  blocked mask, delivery of one pending signal and of all of them.

  A handler is code of the domain behind a function pointer. What a call of it does to the
  domain and whether it reports the signal as handled is the parameter \<open>call\<close>.
\<close>

type_synonym handler_call = "fnptr \<Rightarrow> signal_kind \<Rightarrow> u64 \<Rightarrow> addr option \<Rightarrow> domain \<Rightarrow> domain \<times> bool"

section \<open>Operations\<close>

definition effective_default :: "signal_handler_info \<Rightarrow> signal_kind \<Rightarrow> signal_default" where
  "effective_default hinfo kind =
     (if sh_handler hinfo = None \<and> (kind = sig_fault \<or> kind = sig_term) then sd_terminate
      else sh_def hinfo)"

text \<open>The handler table has eight slots and is indexed by the kind without a check.\<close>

definition deliver_entry :: "handler_call \<Rightarrow> domain \<Rightarrow> signal_entry \<Rightarrow> (domain \<times> bool) exec" where
  "deliver_entry call d entry =
     (if se_kind entry = sig_none then Done (d, False)
      else if unat (se_kind entry) \<ge> length (sq_handlers (dom_signal_queue d)) then Trap
      else
        let hinfo = sq_handlers (dom_signal_queue d) ! unat (se_kind entry);
            (d1, handled) =
              (case sh_handler hinfo of
                 Some f \<Rightarrow> call f (se_kind entry) (se_data entry) (sh_user_data hinfo) d
               | None \<Rightarrow> (d, False))
        in if handled then Done (d1, True)
           else case effective_default hinfo (se_kind entry) of
             sd_terminate \<Rightarrow>
               (let d2 = fst (mark_dying d1)
                in Done (d2\<lparr>dom_flags := dom_flags d2 OR df_need_resched\<rparr>, True))
           | sd_notify \<Rightarrow> Done (d1, True)
           | sd_ignore \<Rightarrow> Done (d1, True))"

definition signal_register_handler ::
  "signal_kind \<Rightarrow> signal_handler_info \<Rightarrow> domain \<Rightarrow> domain \<times> unit expected" where
  "signal_register_handler kind info d =
     (if kind \<ge> 8 then (d, Inl (from_generic invalid_arg))
      else let q = dom_signal_queue d
           in (d\<lparr>dom_signal_queue := q\<lparr>sq_handlers := (sq_handlers q)[unat kind := info]\<rparr>\<rparr>, Inr ()))"

definition signal_enqueue :: "signal_kind \<Rightarrow> u64 \<Rightarrow> domain \<Rightarrow> domain" where
  "signal_enqueue kind payload d =
     d\<lparr>dom_signal_queue := enqueue kind payload (dom_signal_queue d)\<rparr>"

definition signal_block :: "u32 \<Rightarrow> domain \<Rightarrow> domain" where
  "signal_block bits d = d\<lparr>dom_signal_queue := (dom_signal_queue d)\<lparr>sq_blocked_mask := bits\<rparr>\<rparr>"

definition signal_blocked_mask :: "domain \<Rightarrow> u32" where
  "signal_blocked_mask d = sq_blocked_mask (dom_signal_queue d)"

text \<open>
  Delivery of one signal. The scan stops at the first entry that has a kind and is not
  blocked. That entry is removed: at the head by advancing the head, elsewhere by moving the
  later entries one place down (\<open>shift_down\<close> with the number of moves left). The tail
  index is not touched.
\<close>

definition deliverable :: "signal_queue \<Rightarrow> nat \<Rightarrow> bool" where
  "deliverable q i \<longleftrightarrow>
     (let k = se_kind (ring_at q i)
      in k \<noteq> sig_none \<and> sq_blocked_mask q AND kind_bit k = 0)"

fun shift_down :: "nat \<Rightarrow> nat \<Rightarrow> signal_entry list \<Rightarrow> signal_entry list" where
  "shift_down j 0 es = es"
| "shift_down j (Suc n) es = shift_down ((j + 1) mod 16) n (es[j := es ! ((j + 1) mod 16)])"

definition remove_at :: "nat \<Rightarrow> signal_queue \<Rightarrow> signal_queue" where
  "remove_at i q =
     (let h = unat (sq_head q); last = (h + (unat (sq_count q) - 1)) mod 16
      in if (h + i) mod 16 = h
         then q\<lparr>sq_entries := (sq_entries q)[h := signal_entry_default],
                sq_head := (sq_head q + 1) mod SIGNAL_QUEUE_DEPTH, sq_count := sq_count q - 1\<rparr>
         else q\<lparr>sq_entries :=
                  (shift_down ((h + i) mod 16) (unat (sq_count q) - 1 - i) (sq_entries q))
                    [last := signal_entry_default],
                sq_count := sq_count q - 1\<rparr>)"

definition rebuild_pending :: "signal_queue \<Rightarrow> signal_queue" where
  "rebuild_pending q =
     q\<lparr>sq_pending_mask :=
        fold (\<lambda>r m. let k = se_kind (ring_at q r) in if k \<noteq> sig_none then m OR kind_bit k else m)
          [0..<unat (sq_count q)] 0\<rparr>"

definition signal_deliver_one :: "handler_call \<Rightarrow> domain \<Rightarrow> (domain \<times> bool) exec" where
  "signal_deliver_one call d =
     (let q = dom_signal_queue d
      in case first_from (deliverable q) 0 (unat (sq_count q)) of
           None \<Rightarrow> Done (d, False)
         | Some i \<Rightarrow>
             deliver_entry call (d\<lparr>dom_signal_queue := rebuild_pending (remove_at i q)\<rparr>) (ring_at q i))"

text \<open>
  The delivery loop ends when the queue is empty or the domain is dying; \<^const>\<open>None\<close> is a
  loop that never ends.
\<close>

partial_function (option) signal_deliver_all :: "handler_call \<Rightarrow> domain \<Rightarrow> (domain \<times> bool) exec option" where
  "signal_deliver_all call d =
     (if \<not> has_pending (dom_signal_queue d) then Some (Done (d, False))
      else case signal_deliver_one call d of
        Trap \<Rightarrow> Some Trap
      | Done r \<Rightarrow>
          if ko_state (dom_ko (fst r)) = Dying then Some (Done (fst r, True))
          else signal_deliver_all call (fst r))"

section \<open>Removing an entry\<close>

lemma shift_down_length [simp]: "length (shift_down j n es) = length es"
  by (induction j n es rule: shift_down.induct) simp_all

text \<open>Positions are counted from the slot where the shift starts.\<close>

lemma shift_down_nth:
  assumes "length es = 16" and "j < 16" and "n < 16" and "m < 16"
  shows "shift_down j n es ! ((j + m) mod 16) =
    (if m < n then es ! ((j + m + 1) mod 16) else es ! ((j + m) mod 16))"
  using assms
proof (induction n arbitrary: j es m)
  case 0
  then show ?case by simp
next
  case (Suc n)
  define j' where "j' = (j + 1) mod 16"
  define es' where "es' = es[j := es ! j']"
  have other: "es' ! ((j + l) mod 16) = es ! ((j + l) mod 16)" if "0 < l" "l < 16" for l
    using that Suc.prems ring_distinct [of l 0 j] by (simp add: es'_def)
  have step: "shift_down j (Suc n) es = shift_down j' n es'"
    by (simp add: j'_def es'_def)
  have IH: "shift_down j' n es' ! ((j' + l) mod 16) =
      (if l < n then es' ! ((j' + l + 1) mod 16) else es' ! ((j' + l) mod 16))" if "l < 16" for l
    using Suc.prems that by (intro Suc.IH) (simp_all add: j'_def es'_def)
  have j': "(j' + l) mod 16 = (j + Suc l) mod 16" for l
    by (simp add: j'_def mod_simps)
  show ?case
  proof (cases m)
    case 0
    have "(j + 16) mod 16 = j" using Suc.prems(2) by simp
    with IH [of 15] Suc.prems j' [of 15] 0 show ?thesis
      by (simp add: step es'_def j'_def)
  next
    case (Suc l)
    with IH [of l] Suc.prems j' [of l] j' [of "Suc l"] other [of "Suc l"] other [of "Suc (Suc l)"]
    show ?thesis by (auto simp: step Suc simp del: shift_down.simps)
  qed
qed

text \<open>The same, counted from the head of the ring.\<close>

lemma shift_down_ring:
  assumes es: "length es = 16" and i: "i \<le> n" and n: "n < 16" and l: "l < n"
  shows "shift_down ((h + i) mod 16) (n - i) es ! ((h + l) mod 16) =
    es ! ((h + (if l < i then l else Suc l)) mod 16)"
proof (cases "l < i")
  case True
  let ?m = "16 + l - i"
  have "((h + i) mod 16 + ?m) mod 16 = (h + i + ?m) mod 16" by (rule mod_add_left_eq)
  also have "h + i + ?m = h + l + 16" using True i n by simp
  finally have "((h + i) mod 16 + ?m) mod 16 = (h + l) mod 16" by simp
  moreover have "shift_down ((h + i) mod 16) (n - i) es ! (((h + i) mod 16 + ?m) mod 16) =
      es ! (((h + i) mod 16 + ?m) mod 16)"
    using True es i n by (subst shift_down_nth) auto
  ultimately show ?thesis using True by simp
next
  case False
  have e: "((h + i) mod 16 + (l - i)) mod 16 = (h + l) mod 16"
    "((h + i) mod 16 + (l - i) + 1) mod 16 = (h + Suc l) mod 16"
    using False mod_add_left_eq [of "h + i" 16 "l - i"] mod_add_left_eq [of "h + i" 16 "l - i + 1"]
    by simp_all
  have "shift_down ((h + i) mod 16) (n - i) es ! (((h + i) mod 16 + (l - i)) mod 16) =
      es ! (((h + i) mod 16 + (l - i) + 1) mod 16)"
    using False es i n l by (subst shift_down_nth) auto
  then show ?thesis using False by (simp only: e if_False)
qed

lemma unat_count_pred_nat:
  "0 < unat (c :: u32) \<Longrightarrow> unat (c - 1) = unat c - 1"
  by (metis unat_minus_one unat_0 less_irrefl)

lemma remove_at_shape:
  assumes "ring_shape q" and "i < unat (sq_count q)"
  shows "ring_shape (remove_at i q)"
  using assms ring_succ [of "sq_head q"] unat_count_pred_nat [of "sq_count q"]
  by (auto simp: ring_shape_def remove_at_def Let_def)

lemma remove_at_contents:
  assumes q: "ring_shape q" and i: "i < unat (sq_count q)"
  shows "contents (remove_at i q) = take i (contents q) @ drop (Suc i) (contents q)"
proof -
  let ?h = "unat (sq_head q)" and ?n = "unat (sq_count q)"
  have sh: "length (sq_entries q) = 16" "?h < 16" "?n \<le> 16" using q by (auto simp: ring_shape_def)
  have c: "unat (sq_count (remove_at i q)) = ?n - 1"
    using i by (auto simp: remove_at_def Let_def unat_count_pred_nat)
  have hi: "(?h + i) mod 16 = ?h \<longleftrightarrow> i = 0"
    using ring_distinct [of i 0 ?h] sh i by simp
  have nth: "(take i (contents q) @ drop (Suc i) (contents q)) ! l =
      ring_at q (if l < i then l else Suc l)" if "l < ?n - 1" for l
    using that i by (auto simp: nth_append contents_nth min_def)
  show ?thesis
  proof (rule contents_eqI)
    show "unat (sq_count (remove_at i q)) = length (take i (contents q) @ drop (Suc i) (contents q))"
      using c i by simp
    fix l
    assume "l < length (take i (contents q) @ drop (Suc i) (contents q))"
    then have l: "l < ?n - 1" using i by simp
    show "ring_at (remove_at i q) l = (take i (contents q) @ drop (Suc i) (contents q)) ! l"
    proof (cases "i = 0")
      case True
      have "(?h + Suc l) mod 16 \<noteq> (?h + 0) mod 16"
        using l sh by (subst ring_distinct) auto
      with True sh l nth [OF l] show ?thesis
        by (simp add: remove_at_def ring_at_def ring_succ mod_simps)
    next
      case False
      have last: "(?h + l) mod 16 \<noteq> (?h + (?n - 1)) mod 16"
        using l sh by (subst ring_distinct) auto
      have "shift_down ((?h + i) mod 16) (?n - 1 - i) (sq_entries q) ! ((?h + l) mod 16) =
          sq_entries q ! ((?h + (if l < i then l else Suc l)) mod 16)"
        using sh i l by (intro shift_down_ring) auto
      with False hi last sh l nth [OF l] show ?thesis
        by (simp add: remove_at_def ring_at_def Let_def)
    qed
  qed
qed

section \<open>Delivery\<close>

lemma rebuild_pending_fields [simp]:
  "sq_entries (rebuild_pending q) = sq_entries q" "sq_head (rebuild_pending q) = sq_head q"
  "sq_tail (rebuild_pending q) = sq_tail q" "sq_count (rebuild_pending q) = sq_count q"
  "sq_blocked_mask (rebuild_pending q) = sq_blocked_mask q"
  "sq_handlers (rebuild_pending q) = sq_handlers q"
  by (simp_all add: rebuild_pending_def)

lemma rebuild_pending_ring [simp]:
  "ring_shape (rebuild_pending q) = ring_shape q" "contents (rebuild_pending q) = contents q"
  by (simp_all add: ring_shape_def contents_def ring_at_def fun_eq_iff)

lemma remove_at_fields [simp]:
  "sq_blocked_mask (remove_at i q) = sq_blocked_mask q" "sq_handlers (remove_at i q) = sq_handlers q"
  by (simp_all add: remove_at_def Let_def)

lemma kind_bit_iff: "bit (kind_bit k) n \<longleftrightarrow> n = unat k \<and> n < 32"
  by (auto simp: kind_bit_def bit_simps)

lemma pending_fold_bit:
  "bit (fold (\<lambda>r m. let k = se_kind (f r) in if k \<noteq> sig_none then m OR kind_bit k else m) rs m0) n \<longleftrightarrow>
     bit m0 n \<or> (n < 32 \<and> (\<exists>r \<in> set rs. se_kind (f r) \<noteq> sig_none \<and> unat (se_kind (f r)) = n))"
  by (induction rs arbitrary: m0) (auto simp: Let_def bit_simps kind_bit_iff)

text \<open>After a delivery the pending mask is exact.\<close>

lemma rebuild_pending_exact:
  assumes "0 < unat k" and "unat k < 32"
  shows "has_pending_kind k (rebuild_pending q) \<longleftrightarrow> k \<in> se_kind ` set (contents q)"
proof -
  let ?m = "sq_pending_mask (rebuild_pending q)"
  have "?m AND kind_bit k \<noteq> 0 \<longleftrightarrow> bit ?m (unat k)"
    using assms(2) unfolding bit_eq_iff [of "?m AND kind_bit k" 0] by (auto simp: bit_simps kind_bit_iff)
  also have "\<dots> \<longleftrightarrow> (\<exists>r < unat (sq_count q). se_kind (ring_at q r) \<noteq> sig_none \<and> se_kind (ring_at q r) = k)"
    using assms(2) by (auto simp: rebuild_pending_def pending_fold_bit word_unat_eq_iff [of _ k])
  also have "\<dots> \<longleftrightarrow> k \<in> se_kind ` set (contents q)"
    using assms(1) by (auto simp: contents_def sig_none_def)
  finally show ?thesis by (simp add: has_pending_kind_def)
qed

text \<open>What a handler may do: anything but touch the signal queue of the domain.\<close>

definition handlers_keep_queue :: "handler_call \<Rightarrow> bool" where
  "handlers_keep_queue call \<longleftrightarrow>
     (\<forall>f k w u d. dom_signal_queue (fst (call f k w u d)) = dom_signal_queue d)"

lemma deliver_entry_total:
  assumes "handlers_keep_queue call" and "0 < unat (se_kind e)"
    and "unat (se_kind e) < length (sq_handlers (dom_signal_queue d))"
  obtains d' where "deliver_entry call d e = Done (d', True)" and "dom_signal_queue d' = dom_signal_queue d"
proof -
  have nn: "se_kind e \<noteq> sig_none" using assms(2) by (auto simp: sig_none_def)
  let ?hinfo = "sq_handlers (dom_signal_queue d) ! unat (se_kind e)"
  obtain d1 handled where c: "(case sh_handler ?hinfo of
        Some f \<Rightarrow> call f (se_kind e) (se_data e) (sh_user_data ?hinfo) d | None \<Rightarrow> (d, False)) = (d1, handled)"
    by (cases "case sh_handler ?hinfo of
        Some f \<Rightarrow> call f (se_kind e) (se_data e) (sh_user_data ?hinfo) d | None \<Rightarrow> (d, False)")
  have q1: "dom_signal_queue d1 = dom_signal_queue d"
    using c assms(1) unfolding handlers_keep_queue_def by (auto split: option.splits dest: sym) (metis fst_conv)
  have d: "deliver_entry call d e =
     (if handled then Done (d1, True)
      else case effective_default ?hinfo (se_kind e) of
        sd_terminate \<Rightarrow> (let d2 = fst (mark_dying d1) in Done (d2\<lparr>dom_flags := dom_flags d2 OR df_need_resched\<rparr>, True))
      | sd_notify \<Rightarrow> Done (d1, True) | sd_ignore \<Rightarrow> Done (d1, True))"
    using nn assms(3) c by (simp add: deliver_entry_def)
  show ?thesis
  proof (cases "handled \<or> effective_default ?hinfo (se_kind e) \<noteq> sd_terminate")
    case True
    then show ?thesis using that [of d1] d q1
      by (cases "effective_default ?hinfo (se_kind e)") (auto split: if_splits)
  next
    case False
    then show ?thesis
      using that [of "(fst (mark_dying d1))\<lparr>dom_flags := dom_flags (fst (mark_dying d1)) OR df_need_resched\<rparr>"] d q1
      by (simp add: Let_def)
  qed
qed

definition kinds_ok :: "signal_queue \<Rightarrow> bool" where
  "kinds_ok q \<longleftrightarrow> (\<forall>e \<in> set (contents q). 0 < unat (se_kind e) \<and> unat (se_kind e) < 8)"

lemma deliver_one_effect:
  assumes sh: "ring_shape (dom_signal_queue d)" and k: "kinds_ok (dom_signal_queue d)"
    and call: "handlers_keep_queue call"
    and i: "first_from (deliverable (dom_signal_queue d)) 0 (unat (sq_count (dom_signal_queue d))) = Some i"
  obtains d' where "signal_deliver_one call d = Done (d', True)"
    and "dom_signal_queue d' = rebuild_pending (remove_at i (dom_signal_queue d))"
proof -
  let ?q = "dom_signal_queue d"
  have il: "i < unat (sq_count ?q)" using first_from_Some [OF i] by simp
  then have "ring_at ?q i \<in> set (contents ?q)" by (metis contents_nth length_contents nth_mem)
  then have "0 < unat (se_kind (ring_at ?q i))" "unat (se_kind (ring_at ?q i)) < 8"
    using k by (auto simp: kinds_ok_def)
  moreover have "length (sq_handlers ?q) = 8" using sh by (simp add: ring_shape_def)
  ultimately show ?thesis
    using deliver_entry_total [OF call, of "ring_at ?q i" "d\<lparr>dom_signal_queue := rebuild_pending (remove_at i ?q)\<rparr>"]
      that i by (auto simp: signal_deliver_one_def Let_def)
qed

lemma set_remove: "set (take i xs @ drop (Suc i) xs) \<subseteq> set xs"
  using set_take_subset [of i xs] set_drop_subset [of "Suc i" xs] by auto

lemma kinds_ok_remove:
  assumes "ring_shape q" and "i < unat (sq_count q)" and "kinds_ok q"
  shows "kinds_ok (rebuild_pending (remove_at i q))"
  using assms set_remove [of i "contents q"] unfolding kinds_ok_def
  by (auto simp: remove_at_contents)

text \<open>With nothing blocked the head entry is always deliverable.\<close>

lemma unblocked_head_deliverable:
  assumes "kinds_ok q" and "sq_blocked_mask q = 0" and "0 < unat (sq_count q)"
  shows "first_from (deliverable q) 0 (unat (sq_count q)) = Some 0"
proof -
  have "ring_at q 0 \<in> set (contents q)" using assms(3) by (metis contents_nth length_contents nth_mem)
  then have "deliverable q 0" using assms(1,2) by (auto simp: kinds_ok_def deliverable_def sig_none_def)
  then show ?thesis using assms(3) by (cases "unat (sq_count q)") auto
qed

section \<open>Properties\<close>

text \<open>
  C24. Delivering one signal removes the first pending entry whose kind is not blocked, and
  only that one: the other pending signals keep their order, and the pending mask afterwards
  is exactly the set of kinds still queued. It needs kinds within the enumeration and
  handlers that leave the queue alone.
\<close>

theorem deliver_one_removes_first_unblocked:
  assumes "ring_shape (dom_signal_queue d)" and "kinds_ok (dom_signal_queue d)"
    and "handlers_keep_queue call"
    and i: "first_from (deliverable (dom_signal_queue d)) 0 (unat (sq_count (dom_signal_queue d))) = Some i"
  shows "\<exists>d'. signal_deliver_one call d = Done (d', True) \<and>
    contents (dom_signal_queue d') = take i (contents (dom_signal_queue d)) @ drop (Suc i) (contents (dom_signal_queue d)) \<and>
    (\<forall>k. 0 < unat k \<and> unat k < 8 \<longrightarrow>
       has_pending_kind k (dom_signal_queue d') = (k \<in> se_kind ` set (contents (dom_signal_queue d'))))"
proof -
  let ?q = "dom_signal_queue d"
  have il: "i < unat (sq_count ?q)" using first_from_Some [OF i] by simp
  obtain d' where d': "signal_deliver_one call d = Done (d', True)"
    "dom_signal_queue d' = rebuild_pending (remove_at i ?q)"
    by (rule deliver_one_effect [OF assms])
  then show ?thesis
    using remove_at_contents [OF assms(1) il]
    by (intro exI [of _ d']) (simp add: rebuild_pending_exact)
qed

definition sample_signals :: domain where
  "sample_signals =
     signal_enqueue sig_io 22 (signal_enqueue sig_timer 11 (signal_block (kind_bit sig_timer) domain_default))"

lemma sample_signals_queue:
  "ring_shape (dom_signal_queue sample_signals)"
  "contents (dom_signal_queue sample_signals) =
     [\<lparr>se_kind = sig_timer, se_data = 11\<rparr>, \<lparr>se_kind = sig_io, se_data = 22\<rparr>]"
  "first_from (deliverable (dom_signal_queue sample_signals)) 0
     (unat (sq_count (dom_signal_queue sample_signals))) = Some 1"
  by code_simp+

theorem deliver_one_removes_first_unblocked_witness:
  "\<exists>d'. signal_deliver_one (\<lambda>f k w u d. (d, True)) sample_signals = Done (d', True) \<and>
     contents (dom_signal_queue d') = [\<lparr>se_kind = sig_timer, se_data = 11\<rparr>]"
proof -
  have "kinds_ok (dom_signal_queue sample_signals)"
    by (simp add: kinds_ok_def sample_signals_queue signal_kinds)
  from deliver_one_removes_first_unblocked [OF sample_signals_queue(1) this _ sample_signals_queue(3),
      of "\<lambda>f k w u d. (d, True)"]
  show ?thesis by (auto simp: handlers_keep_queue_def sample_signals_queue)
qed

text \<open>
  C25. With no kind blocked, the delivery loop ends: it returns with the domain dying or with
  an empty queue.
\<close>

theorem deliver_all_returns:
  assumes "ring_shape (dom_signal_queue d)" and "kinds_ok (dom_signal_queue d)"
    and "handlers_keep_queue call" and "sq_blocked_mask (dom_signal_queue d) = 0"
  shows "\<exists>d' r. signal_deliver_all call d = Some (Done (d', r)) \<and>
    (if r then ko_state (dom_ko d') = Dying else contents (dom_signal_queue d') = [])"
  using assms
proof (induction "unat (sq_count (dom_signal_queue d))" arbitrary: d)
  case 0
  then have "sq_count (dom_signal_queue d) = 0" by (metis unat_eq_zero)
  then show ?case
    by (intro exI [of _ d] exI [of _ False], subst signal_deliver_all.simps)
      (simp add: has_pending_def contents_def)
next
  case (Suc n)
  let ?q = "dom_signal_queue d"
  have pos: "0 < unat (sq_count ?q)" using Suc.hyps(2) by simp
  note i = unblocked_head_deliverable [OF Suc.prems(2,4) pos]
  obtain d1 where d1: "signal_deliver_one call d = Done (d1, True)"
    "dom_signal_queue d1 = rebuild_pending (remove_at 0 ?q)"
    by (rule deliver_one_effect [OF Suc.prems(1-3) i])
  have "length (contents (dom_signal_queue d1)) = n"
    using remove_at_contents [OF Suc.prems(1) pos] Suc.hyps(2) by (simp add: d1(2) del: length_contents) simp
  then have n: "n = unat (sq_count (dom_signal_queue d1))" by simp
  have shape: "ring_shape (dom_signal_queue d1)" and kinds: "kinds_ok (dom_signal_queue d1)"
    and nb: "sq_blocked_mask (dom_signal_queue d1) = 0"
    using remove_at_shape [OF Suc.prems(1) pos] kinds_ok_remove [OF Suc.prems(1) pos Suc.prems(2)] Suc.prems(4)
    by (simp_all add: d1(2))
  have hp: "has_pending ?q" using pos by (simp add: has_pending_def word_less_nat_alt)
  show ?case
  proof (cases "ko_state (dom_ko d1) = Dying")
    case True
    then show ?thesis
      using hp d1(1) by (intro exI [of _ d1] exI [of _ True], subst signal_deliver_all.simps) simp
  next
    case False
    then show ?thesis
      using hp d1(1) Suc.hyps(1) [OF n shape kinds Suc.prems(3) nb]
      by (subst signal_deliver_all.simps) simp
  qed
qed

theorem deliver_all_returns_witness:
  "\<exists>d' r. signal_deliver_all (\<lambda>f k w u d. (d, True)) (signal_block 0 sample_signals) = Some (Done (d', r))"
proof -
  let ?q = "dom_signal_queue (signal_block 0 sample_signals)"
  have "contents ?q = contents (dom_signal_queue sample_signals)"
    by (simp add: signal_block_def contents_def ring_at_def fun_eq_iff)
  then have "kinds_ok ?q" by (simp add: kinds_ok_def sample_signals_queue signal_kinds)
  moreover have "ring_shape ?q"
    using sample_signals_queue(1) by (simp add: signal_block_def ring_shape_def)
  ultimately show ?thesis
    using deliver_all_returns [of "signal_block 0 sample_signals" "\<lambda>f k w u d. (d, True)"]
    by (auto simp: handlers_keep_queue_def signal_block_def)
qed

text \<open>
  C26. When signals are pending but all of them are blocked, and the domain is not dying, the
  delivery loop never returns: every round finds nothing to deliver and leaves the domain as
  it was. The scheduler calls this loop on the way into a domain.
\<close>

theorem deliver_all_diverges_when_blocked:
  assumes pend: "has_pending (dom_signal_queue d)" and alive: "ko_state (dom_ko d) \<noteq> Dying"
    and blocked: "\<forall>i < unat (sq_count (dom_signal_queue d)). \<not> deliverable (dom_signal_queue d) i"
  shows "signal_deliver_all call d = None"
proof (rule ccontr)
  have "first_from (deliverable (dom_signal_queue d)) 0 (unat (sq_count (dom_signal_queue d))) = None"
    using blocked by (simp add: first_from_None)
  then have one: "signal_deliver_one call d = Done (d, False)"
    by (simp add: signal_deliver_one_def)
  assume "signal_deliver_all call d \<noteq> None"
  then obtain y where "signal_deliver_all call d = Some y" by auto
  from _ this have "call = call \<longrightarrow> d \<noteq> d"
  proof (rule signal_deliver_all.raw_induct [where P = "\<lambda>c x y. c = call \<longrightarrow> x \<noteq> d"])
    fix deliver_all c x y
    assume IH: "\<And>c x y. deliver_all c x = Some y \<Longrightarrow> c = call \<longrightarrow> x \<noteq> d"
      and body: "(if \<not> has_pending (dom_signal_queue x) then Some (Done (x, False))
        else case signal_deliver_one c x of Trap \<Rightarrow> Some Trap
          | Done r \<Rightarrow> if ko_state (dom_ko (fst r)) = Dying then Some (Done (fst r, True))
              else deliver_all c (fst r)) = Some y"
    show "c = call \<longrightarrow> x \<noteq> d"
      using IH [of call d y] body pend one alive by auto
  qed
  then show False by simp
qed

theorem deliver_all_diverges_when_blocked_witness:
  "signal_deliver_all (\<lambda>f k w u d. (d, True)) (signal_block 0xFF sample_signals) = None"
proof (rule deliver_all_diverges_when_blocked)
  let ?d = "signal_block 0xFF sample_signals"
  have "unat (sq_count (dom_signal_queue ?d)) = 2"
    "\<not> deliverable (dom_signal_queue ?d) 0" "\<not> deliverable (dom_signal_queue ?d) 1"
    by code_simp+
  then show "\<forall>i < unat (sq_count (dom_signal_queue ?d)). \<not> deliverable (dom_signal_queue ?d) i"
    by (simp add: less_2_cases_iff)
qed code_simp+

text \<open>
  A signal whose kind lies outside the enumeration is accepted by \<open>signal_enqueue\<close>, and
  its delivery reads past the end of the handler table.
\<close>

theorem undefined_kind_overruns_handlers:
  assumes "ring_ok (dom_signal_queue d)" and "contents (dom_signal_queue d) = []"
    and "8 \<le> unat k" and "sq_blocked_mask (dom_signal_queue d) = 0"
  shows "signal_deliver_one call (signal_enqueue k w d) = Trap"
proof -
  let ?q = "dom_signal_queue (signal_enqueue k w d)"
  have c: "contents ?q = [\<lparr>se_kind = k, se_data = w\<rparr>]" and ok: "ring_ok ?q"
    using enqueue_ok [OF assms(1)] assms(2) by (simp_all add: signal_enqueue_def)
  then have n: "unat (sq_count ?q) = 1" by (metis length_contents length_Cons list.size(3) One_nat_def)
  have e: "ring_at ?q 0 = \<lparr>se_kind = k, se_data = w\<rparr>"
    using contents_nth [of 0 ?q] c n by simp
  have b: "sq_blocked_mask ?q = 0"
    using assms(4) by (simp add: signal_enqueue_def enqueue_alt append_entry_def drop_oldest_def)
  have kn: "k \<noteq> sig_none" using assms(3) by (auto simp: sig_none_def)
  have "first_from (deliverable ?q) 0 (unat (sq_count ?q)) = Some 0"
    using n e b kn by (simp add: deliverable_def)
  moreover have "length (sq_handlers ?q) = 8" using ok by (simp add: ring_ok_def ring_shape_def)
  ultimately show ?thesis
    using assms(3) e kn by (simp add: signal_deliver_one_def deliver_entry_def Let_def)
qed

theorem undefined_kind_overruns_handlers_witness:
  "signal_deliver_one (\<lambda>f k w u d. (d, True)) (signal_enqueue 0x20 0 domain_default) = Trap"
  by (rule undefined_kind_overruns_handlers)
    (simp_all add: ring_ok_def ring_shape_def contents_def domain_default_def signal_queue_default_def)


end
