(* ===== verification/ZX_Cap.thy ===== *)
theory ZX_Cap
  imports ZX_Metadata ZX_Rights
begin

text \<open>
  Capabilities (\<open>zxfoundation/dgp/cap.zcomponent\<close>): the 64-bit token and the table of
  capability slots, each of which holds one reference to its target object.

  The lookup callbacks behind \<open>s_lookup_table\<close> are functions of other components; what the
  function behind a pointer returns is the parameter \<open>look\<close>. The finalizer that the last
  \<open>put\<close> runs is the parameter \<open>call_fin\<close>, and whether \<open>kmalloc\<close> succeeds is \<open>alloc_ok\<close>.
\<close>

section \<open>Tokens\<close>

type_synonym cap_type = u16
type_synonym cap_rights = u16
type_synonym cap_token = u64

definition cap_none :: cap_type where "cap_none = 0"
definition cap_domain :: cap_type where "cap_domain = 1"
definition cap_gate :: cap_type where "cap_gate = 2"
definition cap_portal :: cap_type where "cap_portal = 3"
definition cap_io_device :: cap_type where "cap_io_device = 5"
definition cap_memory :: cap_type where "cap_memory = 6"
definition cap_service :: cap_type where "cap_service = 7"
definition cap_admin :: cap_type where "cap_admin = 8"
definition cap_memory_extent :: cap_type where "cap_memory_extent = 9"

definition cr_none :: cap_rights where "cr_none = 0"
definition cr_read :: cap_rights where "cr_read = 0x01"
definition cr_write :: cap_rights where "cr_write = 0x02"
definition cr_exec :: cap_rights where "cr_exec = 0x04"
definition cr_destroy :: cap_rights where "cr_destroy = 0x08"
definition cr_delegate :: cap_rights where "cr_delegate = 0x10"
definition cr_admin :: cap_rights where "cr_admin = 0x20"
definition cr_map :: cap_rights where "cr_map = 0x40"
definition cr_all :: cap_rights where "cr_all = 0xFFFF"

lemmas cap_consts =
  cap_none_def cap_domain_def cap_gate_def cap_portal_def cap_io_device_def cap_memory_def
  cap_service_def cap_admin_def cap_memory_extent_def cr_none_def cr_read_def cr_write_def
  cr_exec_def cr_destroy_def cr_delegate_def cr_admin_def cr_map_def cr_all_def

definition token_make :: "cap_type \<Rightarrow> u16 \<Rightarrow> u16 \<Rightarrow> cap_rights \<Rightarrow> cap_token" where
  "token_make ty obj_id gen rights =
     push_bit 48 (ucast rights) OR push_bit 32 (ucast gen) OR push_bit 16 (ucast obj_id) OR ucast ty"

definition token_type :: "cap_token \<Rightarrow> cap_type" where
  "token_type t = ucast (t AND 0xFFFF)"

definition token_object_id :: "cap_token \<Rightarrow> u16" where
  "token_object_id t = ucast (drop_bit 16 t AND 0xFFFF)"

definition token_generation :: "cap_token \<Rightarrow> u16" where
  "token_generation t = ucast (drop_bit 32 t AND 0xFFFF)"

definition token_rights :: "cap_token \<Rightarrow> cap_rights" where
  "token_rights t = ucast (drop_bit 48 t AND 0xFFFF)"

definition token_has_right :: "cap_token \<Rightarrow> cap_rights \<Rightarrow> bool" where
  "token_has_right t r \<longleftrightarrow> token_rights t AND r \<noteq> 0"

definition token_derive :: "cap_token \<Rightarrow> cap_rights \<Rightarrow> cap_token" where
  "token_derive t sub =
     token_make (token_type t) (token_object_id t) (token_generation t) (token_rights t AND sub)"

definition token_ok :: "cap_token \<Rightarrow> bool" where
  "token_ok t \<longleftrightarrow> t \<noteq> 0 \<and> token_type t \<noteq> cap_none"

section \<open>The capability table\<close>

definition LOOKUP_TABLE_SIZE :: nat where "LOOKUP_TABLE_SIZE = 16"
definition MAX_CAPABILITIES :: nat where "MAX_CAPABILITIES = 1024"

record capability_slot =
  slot_target :: "addr option"
  slot_type :: cap_type
  slot_rights :: cap_rights
  slot_owner_domain :: u32
  slot_target_generation :: u32
  slot_generation :: u16
  slot_active :: bool

definition capability_slot_default :: capability_slot where
  "capability_slot_default =
     \<lparr>slot_target = None, slot_type = cap_none, slot_rights = cr_none, slot_owner_domain = - 1,
      slot_target_generation = 0, slot_generation = 1, slot_active = False\<rparr>"

record cap_state = meta_state +
  s_capabilities :: "capability_slot list option"
  s_lookup_table :: "fnptr option list"

type_synonym 'a lookup = "fnptr \<Rightarrow> u16 \<Rightarrow> 'a cap_state_scheme \<Rightarrow> addr option"
type_synonym 'a finalize = "fnptr \<Rightarrow> addr \<Rightarrow> 'a cap_state_scheme \<Rightarrow> 'a cap_state_scheme exec"

definition ensure_capabilities_locked :: "bool \<Rightarrow> 'a cap_state_scheme \<Rightarrow> 'a cap_state_scheme \<times> bool" where
  "ensure_capabilities_locked alloc_ok s =
     (case s_capabilities s of
        Some _ \<Rightarrow> (s, True)
      | None \<Rightarrow>
          if alloc_ok
          then (s\<lparr>s_capabilities := Some (replicate MAX_CAPABILITIES capability_slot_default)\<rparr>, True)
          else (s, False))"

definition lookup_kobject ::
  "'a lookup \<Rightarrow> cap_type \<Rightarrow> u16 \<Rightarrow> 'a cap_state_scheme \<Rightarrow> (addr \<times> u32) expected exec" where
  "lookup_kobject look ty obj_id s =
     (if unat ty \<ge> LOOKUP_TABLE_SIZE then Done (Inl (from_generic not_supported))
      else case s_lookup_table s ! unat ty of
        None \<Rightarrow> Done (Inl (from_generic not_supported))
      | Some f \<Rightarrow>
          (case look f obj_id s of
             None \<Rightarrow> Done (Inl (from_generic not_found))
           | Some a \<Rightarrow>
               (case objs s a of None \<Rightarrow> Trap | Some b \<Rightarrow> Done (Inr (a, ko_generation b)))))"

definition check_rights :: "cap_token \<Rightarrow> cap_rights \<Rightarrow> unit expected" where
  "check_rights token needed =
     (if needed \<noteq> cr_none \<and> token_rights token AND needed \<noteq> needed
      then Inl (from_generic invalid_arg) else Inr ())"

definition slot_for :: "cap_token \<Rightarrow> 'a cap_state_scheme \<Rightarrow> (nat \<times> capability_slot) option" where
  "slot_for token s =
     (case s_capabilities s of
        None \<Rightarrow> None
      | Some caps \<Rightarrow>
          if \<not> token_ok token \<or> token_object_id token = 0
             \<or> unat (token_object_id token) \<ge> MAX_CAPABILITIES then None
          else
            let i = unat (token_object_id token); slot = caps ! i
            in if \<not> slot_active slot \<or> slot_generation slot \<noteq> token_generation token
                  \<or> slot_type slot \<noteq> token_type token \<or> slot_rights slot \<noteq> token_rights token
               then None else Some (i, slot))"

definition slot_upd :: "nat \<Rightarrow> capability_slot \<Rightarrow> 'a cap_state_scheme \<Rightarrow> 'a cap_state_scheme" where
  "slot_upd i slot s = s\<lparr>s_capabilities := map_option (\<lambda>caps. caps[i := slot]) (s_capabilities s)\<rparr>"

definition issue_locked ::
  "'a lookup \<Rightarrow> bool \<Rightarrow> cap_type \<Rightarrow> u16 \<Rightarrow> cap_rights \<Rightarrow> u32 \<Rightarrow> 'a cap_state_scheme \<Rightarrow>
   ('a cap_state_scheme \<times> cap_token expected) exec" where
  "issue_locked look alloc_ok ty obj_id rights owner s =
     (case ensure_capabilities_locked alloc_ok s of
        (s1, False) \<Rightarrow> Done (s1, Inl (from_memory out_of_memory))
      | (s1, True) \<Rightarrow>
          exec_bind (lookup_kobject look ty obj_id s1)
            (\<lambda>result. case result of
               Inl e \<Rightarrow> Done (s1, Inl e)
             | Inr (target, generation) \<Rightarrow>
                 let caps = the (s_capabilities s1)
                 in case first_from (\<lambda>i. \<not> slot_active (caps ! i)) 1 (MAX_CAPABILITIES - 1) of
                      None \<Rightarrow> Done (s1, Inl (from_memory out_of_memory))
                    | Some i \<Rightarrow>
                        (case objs s1 target of
                           None \<Rightarrow> Trap
                         | Some b \<Rightarrow>
                             if ko_state b \<noteq> Active then Done (s1, Inl (from_generic not_supported))
                             else exec_bind (bobject_try_get target s1)
                               (\<lambda>(s2, got).
                                  if \<not> got then Done (s2, Inl (from_generic not_found))
                                  else
                                    let slot = (caps ! i)
                                      \<lparr>slot_target := Some target, slot_type := ty, slot_rights := rights,
                                       slot_owner_domain := owner, slot_target_generation := generation,
                                       slot_active := True\<rparr>
                                    in Done (slot_upd i slot s2,
                                             Inr (token_make ty (of_nat i) (slot_generation slot) rights))))))"

definition validate_slot ::
  "cap_token \<Rightarrow> cap_rights \<Rightarrow> u32 \<Rightarrow> bool \<Rightarrow> 'a cap_state_scheme \<Rightarrow> addr expected exec" where
  "validate_slot token needed owner check_owner s =
     (case slot_for token s of
        None \<Rightarrow> Done (Inl (from_generic not_found))
      | Some (i, slot) \<Rightarrow>
          (case slot_target slot of
             None \<Rightarrow> Done (Inl (from_generic not_found))
           | Some a \<Rightarrow>
               (case objs s a of
                  None \<Rightarrow> Trap
                | Some b \<Rightarrow>
                    if ko_generation b \<noteq> slot_target_generation slot \<or> ko_state b = Dying
                       \<or> ko_state b = Destroyed
                    then Done (Inl (from_generic not_found))
                    else if check_owner \<and> slot_owner_domain slot \<noteq> owner
                    then Done (Inl (from_memory capability_invalid))
                    else case check_rights token needed of
                      Inl e \<Rightarrow> Done (Inl e)
                    | Inr _ \<Rightarrow> Done (Inr a))))"

section \<open>Operations\<close>

definition cap_issue ::
  "'a lookup \<Rightarrow> bool \<Rightarrow> cap_type \<Rightarrow> u16 \<Rightarrow> cap_rights \<Rightarrow> u32 \<Rightarrow> 'a cap_state_scheme \<Rightarrow>
   ('a cap_state_scheme \<times> cap_token expected) exec" where
  "cap_issue look alloc_ok ty obj_id rights owner s = issue_locked look alloc_ok ty obj_id rights owner s"

text \<open>
  The object identifier of a token is the slot number, while the lookup callbacks take the
  object's own identifier: a duplicate asks again for \<open>static_cast<u16>(target->id)\<close>.
\<close>

definition reissue ::
  "'a lookup \<Rightarrow> bool \<Rightarrow> cap_token \<Rightarrow> addr \<Rightarrow> cap_rights \<Rightarrow> u32 \<Rightarrow> 'a cap_state_scheme \<Rightarrow>
   ('a cap_state_scheme \<times> cap_token expected) exec" where
  "reissue look alloc_ok source target rights owner s =
     (case (slot_for source s, objs s target) of
        (Some (i, slot), Some b) \<Rightarrow>
          issue_locked look alloc_ok (slot_type slot) (ucast (ko_id b)) rights owner s
      | _ \<Rightarrow> Trap)"

definition cap_duplicate ::
  "'a lookup \<Rightarrow> bool \<Rightarrow> cap_token \<Rightarrow> cap_rights \<Rightarrow> u32 \<Rightarrow> 'a cap_state_scheme \<Rightarrow>
   ('a cap_state_scheme \<times> cap_token expected) exec" where
  "cap_duplicate look alloc_ok source rights owner s =
     exec_bind (validate_slot source rights owner True s)
       (\<lambda>valid. case valid of
          Inl e \<Rightarrow> Done (s, Inl e)
        | Inr target \<Rightarrow> reissue look alloc_ok source target rights owner s)"

definition cap_acquire ::
  "'a lookup \<Rightarrow> bool \<Rightarrow> cap_token \<Rightarrow> cap_rights \<Rightarrow> u32 \<Rightarrow> 'a cap_state_scheme \<Rightarrow>
   ('a cap_state_scheme \<times> cap_token expected) exec" where
  "cap_acquire look alloc_ok source rights owner s =
     exec_bind (validate_slot source rights owner True s)
       (\<lambda>valid. case valid of
          Inl e \<Rightarrow> Done (s, Inl e)
        | Inr target \<Rightarrow> reissue look alloc_ok source target rights owner s)"

definition cap_duplicate_for ::
  "'a lookup \<Rightarrow> bool \<Rightarrow> cap_token \<Rightarrow> cap_rights \<Rightarrow> u32 \<Rightarrow> u32 \<Rightarrow> 'a cap_state_scheme \<Rightarrow>
   ('a cap_state_scheme \<times> cap_token expected) exec" where
  "cap_duplicate_for look alloc_ok source rights source_domain owner s =
     exec_bind (validate_slot source rights source_domain True s)
       (\<lambda>valid. case valid of
          Inl e \<Rightarrow> Done (s, Inl e)
        | Inr target \<Rightarrow>
            (case slot_for source s of
               None \<Rightarrow> Trap
             | Some (i, slot) \<Rightarrow>
                 if owner \<noteq> source_domain \<and> slot_rights slot AND cr_delegate \<noteq> cr_delegate
                 then Done (s, Inl (from_memory capability_invalid))
                 else reissue look alloc_ok source target rights owner s))"

text \<open>The slot is emptied and its generation advanced before the reference is dropped.\<close>

definition retired :: "capability_slot \<Rightarrow> capability_slot" where
  "retired slot =
     slot\<lparr>slot_active := False, slot_target := None, slot_generation := slot_generation slot + 1\<rparr>"

definition retire_slot :: "nat \<Rightarrow> capability_slot \<Rightarrow> 'a cap_state_scheme \<Rightarrow> 'a cap_state_scheme" where
  "retire_slot i slot = slot_upd i (retired slot)"

definition cap_release ::
  "'a finalize \<Rightarrow> cap_token \<Rightarrow> 'a cap_state_scheme \<Rightarrow> ('a cap_state_scheme \<times> unit expected) exec" where
  "cap_release call_fin token s =
     (if \<not> token_ok token then Done (s, Inl (from_generic invalid_arg))
      else case slot_for token s of
        None \<Rightarrow> Done (s, Inl (from_generic not_found))
      | Some (i, slot) \<Rightarrow>
          (case slot_target slot of
             None \<Rightarrow> Trap
           | Some ko \<Rightarrow>
               exec_bind (bobject_put call_fin ko (retire_slot i slot s)) (\<lambda>s'. Done (s', Inr ()))))"

definition cap_revoke ::
  "'a finalize \<Rightarrow> cap_token \<Rightarrow> 'a cap_state_scheme \<Rightarrow> ('a cap_state_scheme \<times> unit expected) exec" where
  "cap_revoke call_fin token s =
     (if \<not> token_ok token then Done (s, Inl (from_generic invalid_arg))
      else case slot_for token s of
        None \<Rightarrow> Done (s, Inl (from_generic not_found))
      | Some (i, slot) \<Rightarrow>
          (case slot_target slot of
             None \<Rightarrow> Trap
           | Some ko \<Rightarrow>
               exec_bind (bobject_put call_fin ko (retire_slot i slot s)) (\<lambda>s'. Done (s', Inr ()))))"

definition cap_validate_generic ::
  "cap_token \<Rightarrow> cap_rights \<Rightarrow> 'a cap_state_scheme \<Rightarrow> unit expected exec" where
  "cap_validate_generic token needed s =
     (if \<not> token_ok token then Done (Inl (from_generic invalid_arg))
      else exec_bind (validate_slot token needed 0 False s)
        (\<lambda>r. case r of Inl e \<Rightarrow> Done (Inl e) | Inr _ \<Rightarrow> Done (Inr ())))"

definition cap_validate_generic_for ::
  "cap_token \<Rightarrow> cap_rights \<Rightarrow> u32 \<Rightarrow> 'a cap_state_scheme \<Rightarrow> unit expected exec" where
  "cap_validate_generic_for token needed owner s =
     exec_bind (validate_slot token needed owner True s)
       (\<lambda>r. case r of Inl e \<Rightarrow> Done (Inl e) | Inr _ \<Rightarrow> Done (Inr ()))"

definition cap_resolve :: "cap_token \<Rightarrow> cap_rights \<Rightarrow> 'a cap_state_scheme \<Rightarrow> addr expected exec" where
  "cap_resolve token needed s = validate_slot token needed 0 False s"

definition register_lookup ::
  "cap_type \<Rightarrow> fnptr option \<Rightarrow> 'a cap_state_scheme \<Rightarrow> 'a cap_state_scheme \<times> unit expected" where
  "register_lookup ty fn s =
     (if unat ty \<ge> LOOKUP_TABLE_SIZE then (s, Inl (from_generic not_supported))
      else (s\<lparr>s_lookup_table := (s_lookup_table s)[unat ty := fn]\<rparr>, Inr ()))"

text \<open>
  The two sweeps over the table. The index runs over \<open>1 .. MAX_CAPABILITIES - 1\<close>; the
  second argument counts the remaining iterations.
\<close>

fun revoke_domain_loop ::
  "'a finalize \<Rightarrow> u32 \<Rightarrow> nat \<Rightarrow> nat \<Rightarrow> u32 \<Rightarrow> 'a cap_state_scheme \<Rightarrow> ('a cap_state_scheme \<times> u32) exec" where
  "revoke_domain_loop call_fin domain_id i 0 revoked s = Done (s, revoked)"
| "revoke_domain_loop call_fin domain_id i (Suc n) revoked s =
     (case s_capabilities s of
        None \<Rightarrow> Trap
      | Some caps \<Rightarrow>
          let slot = caps ! i
          in exec_bind
               (if slot_active slot \<and> slot_type slot = cap_domain
                then case slot_target slot of
                       None \<Rightarrow> Done False
                     | Some a \<Rightarrow> (case objs s a of None \<Rightarrow> Trap | Some b \<Rightarrow> Done (ko_id b = domain_id))
                else Done False)
               (\<lambda>targets_domain.
                  if \<not> slot_active slot \<or> (slot_owner_domain slot \<noteq> domain_id \<and> \<not> targets_domain)
                  then revoke_domain_loop call_fin domain_id (Suc i) n revoked s
                  else exec_bind
                    (case slot_target slot of
                       None \<Rightarrow> Done (retire_slot i slot s)
                     | Some a \<Rightarrow> bobject_put call_fin a (retire_slot i slot s))
                    (\<lambda>s'. revoke_domain_loop call_fin domain_id (Suc i) n (revoked + 1) s')))"

definition cap_revoke_for_domain ::
  "'a finalize \<Rightarrow> u32 \<Rightarrow> 'a cap_state_scheme \<Rightarrow> ('a cap_state_scheme \<times> u32) exec" where
  "cap_revoke_for_domain call_fin domain_id s =
     (case s_capabilities s of
        None \<Rightarrow> Done (s, 0)
      | Some _ \<Rightarrow> revoke_domain_loop call_fin domain_id 1 (MAX_CAPABILITIES - 1) 0 s)"

fun revoke_target_loop ::
  "'a finalize \<Rightarrow> addr \<Rightarrow> nat \<Rightarrow> nat \<Rightarrow> u32 \<Rightarrow> 'a cap_state_scheme \<Rightarrow> ('a cap_state_scheme \<times> u32) exec" where
  "revoke_target_loop call_fin target i 0 revoked s = Done (s, revoked)"
| "revoke_target_loop call_fin target i (Suc n) revoked s =
     (case s_capabilities s of
        None \<Rightarrow> Trap
      | Some caps \<Rightarrow>
          if \<not> slot_active (caps ! i) \<or> slot_target (caps ! i) \<noteq> Some target
          then revoke_target_loop call_fin target (Suc i) n revoked s
          else exec_bind (bobject_put call_fin target (retire_slot i (caps ! i) s))
                 (\<lambda>s'. revoke_target_loop call_fin target (Suc i) n (revoked + 1) s'))"

definition cap_revoke_target ::
  "'a finalize \<Rightarrow> addr \<Rightarrow> 'a cap_state_scheme \<Rightarrow> ('a cap_state_scheme \<times> u32) exec" where
  "cap_revoke_target call_fin target s =
     revoke_target_loop call_fin target 1 (MAX_CAPABILITIES - 1) 0 s"

text \<open>The four specialisations of \<open>cap_validate\<close>, which fix the token's type.\<close>

definition cap_validate_domain :: "cap_token \<Rightarrow> cap_rights \<Rightarrow> 'a cap_state_scheme \<Rightarrow> addr expected exec" where
  "cap_validate_domain token needed s =
     exec_bind (validate_slot token needed 0 False s)
       (\<lambda>r. case r of
          Inl e \<Rightarrow> Done (Inl e)
        | Inr ko \<Rightarrow>
            if token_type token \<noteq> cap_domain then Done (Inl (from_generic invalid_arg))
            else Done (Inr ko))"

definition cap_validate_gate :: "cap_token \<Rightarrow> cap_rights \<Rightarrow> 'a cap_state_scheme \<Rightarrow> addr expected exec" where
  "cap_validate_gate token needed s =
     exec_bind (validate_slot token needed 0 False s)
       (\<lambda>r. case r of
          Inl e \<Rightarrow> Done (Inl e)
        | Inr ko \<Rightarrow>
            if token_type token \<noteq> cap_gate then Done (Inl (from_generic invalid_arg))
            else Done (Inr ko))"

definition cap_validate_portal :: "cap_token \<Rightarrow> cap_rights \<Rightarrow> 'a cap_state_scheme \<Rightarrow> addr expected exec" where
  "cap_validate_portal token needed s =
     exec_bind (validate_slot token needed 0 False s)
       (\<lambda>r. case r of
          Inl e \<Rightarrow> Done (Inl e)
        | Inr ko \<Rightarrow>
            if token_type token \<noteq> cap_portal then Done (Inl (from_generic invalid_arg))
            else Done (Inr ko))"

definition cap_validate_memory :: "cap_token \<Rightarrow> cap_rights \<Rightarrow> 'a cap_state_scheme \<Rightarrow> addr expected exec" where
  "cap_validate_memory token needed s =
     exec_bind (validate_slot token needed 0 False s)
       (\<lambda>r. case r of
          Inl e \<Rightarrow> Done (Inl e)
        | Inr ko \<Rightarrow>
            if token_type token \<noteq> cap_memory then Done (Inl (from_generic invalid_arg))
            else case objs s ko of
              None \<Rightarrow> Trap
            | Some b \<Rightarrow>
                if ko_type b \<noteq> KT_grant then Done (Inl (from_memory capability_invalid))
                else Done (Inr ko))"

section \<open>Tokens: the four fields\<close>

lemma ucast_mask16: "ucast (t AND 0xFFFF :: u64) = (ucast t :: u16)"
proof -
  have m: "(0xFFFF :: u64) = mask 16"
    by (simp add: mask_eq_exp_minus_1)
  show ?thesis
    unfolding m by (auto intro!: bit_word_eqI simp: bit_simps)
qed

lemma u16_high_bit: "16 \<le> k \<Longrightarrow> \<not> bit (x :: u16) (k + n)"
  using bit_imp_le_length [of x "k + n"] by auto

lemmas token_field_defs =
  token_type_def token_object_id_def token_generation_def token_rights_def ucast_mask16

lemma token_make_fields [simp]:
  "token_type (token_make ty i g r) = ty"
  "token_object_id (token_make ty i g r) = i"
  "token_generation (token_make ty i g r) = g"
  "token_rights (token_make ty i g r) = r"
  unfolding token_field_defs token_make_def
  by (auto intro!: bit_word_eqI simp: bit_simps u16_high_bit)

lemma token_make_of_fields:
  "token_make (token_type t) (token_object_id t) (token_generation t) (token_rights t) = t"
  unfolding token_field_defs token_make_def
proof (rule bit_word_eqI)
  fix n assume "n < LENGTH(64)"
  then have "n < 64" by simp
  then consider "n < 16" | "16 \<le> n" "n < 32" | "32 \<le> n" "n < 48" | "48 \<le> n" "n < 64"
    by linarith
  then show "bit (push_bit 48 (ucast (ucast (drop_bit 48 t) :: u16)) OR
      push_bit 32 (ucast (ucast (drop_bit 32 t) :: u16)) OR
      push_bit 16 (ucast (ucast (drop_bit 16 t) :: u16)) OR ucast (ucast t :: u16) :: u64) n = bit t n"
    by cases (auto simp: bit_simps)
qed

section \<open>References held by slots\<close>

definition holds :: "capability_slot \<Rightarrow> addr \<Rightarrow> bool" where
  "holds slot a \<longleftrightarrow> slot_active slot \<and> slot_target slot = Some a"

definition refs_held :: "capability_slot list \<Rightarrow> addr \<Rightarrow> nat" where
  "refs_held caps a = card {i. i < length caps \<and> holds (caps ! i) a}"

text \<open>
  Every active slot has a live target whose count covers all the slots that point to it, and
  slot 0 is never used.
\<close>

definition slots_ok :: "capability_slot list \<Rightarrow> (addr \<Rightarrow> bobject option) \<Rightarrow> bool" where
  "slots_ok caps h \<longleftrightarrow>
     length caps = MAX_CAPABILITIES \<and>
     (\<forall>i < MAX_CAPABILITIES. slot_active (caps ! i) \<longrightarrow>
        i \<noteq> 0 \<and>
        (\<exists>a b. slot_target (caps ! i) = Some a \<and> h a = Some b \<and> refs_held caps a \<le> unat (ko_ref b)))"

definition cap_inv :: "'a cap_state_scheme \<Rightarrow> bool" where
  "cap_inv s \<longleftrightarrow>
     length (s_lookup_table s) = LOOKUP_TABLE_SIZE \<and>
     (\<forall>caps. s_capabilities s = Some caps \<longrightarrow> slots_ok caps (objs s))"

text \<open>What the capability table relies on in a finalizer: it works on its own object only.\<close>

definition fin_local :: "'a finalize \<Rightarrow> bool" where
  "fin_local call_fin \<longleftrightarrow>
     (\<forall>f a s s'. call_fin f a s = Done s' \<longrightarrow>
        s_capabilities s' = s_capabilities s \<and> s_lookup_table s' = s_lookup_table s \<and>
        (\<forall>x. x \<noteq> a \<longrightarrow> objs s' x = objs s x))"

lemma refs_held_update:
  assumes "i < length caps"
  shows "refs_held (caps[i := slot]) a + (if holds (caps ! i) a then 1 else 0) =
         refs_held caps a + (if holds slot a then 1 else 0)"
proof -
  let ?R = "{j. j < length caps \<and> j \<noteq> i \<and> holds (caps ! j) a}"
  have split_at: "{j. j < length xs \<and> holds (xs ! j) a} = (if holds (xs ! i) a then insert i ?R else ?R)"
    if "length xs = length caps" and "\<And>j. j \<noteq> i \<Longrightarrow> xs ! j = caps ! j" for xs
    using that assms by auto (metis that(2))+
  show ?thesis
    unfolding refs_held_def
    using split_at [of caps] split_at [of "caps[i := slot]"] assms by simp
qed

lemma refs_held_pos: "i < length caps \<Longrightarrow> holds (caps ! i) a \<Longrightarrow> 0 < refs_held caps a"
  unfolding refs_held_def by (subst card_gt_0_iff) auto

lemma slots_okD:
  assumes "slots_ok caps h" and "i < MAX_CAPABILITIES" and "slot_active (caps ! i)"
  obtains a b where "slot_target (caps ! i) = Some a" and "h a = Some b"
    and "refs_held caps a \<le> unat (ko_ref b)" and "0 < refs_held caps a" and "i \<noteq> 0"
  using assms refs_held_pos [of i caps] unfolding slots_ok_def holds_def by metis

lemma slots_ok_update:
  assumes ok: "slots_ok caps h" and i: "i < MAX_CAPABILITIES" "i \<noteq> 0"
    and new: "slot_active slot \<Longrightarrow> \<exists>a. slot_target slot = Some a"
    and heap: "\<And>a. 0 < refs_held (caps[i := slot]) a \<Longrightarrow>
                 \<exists>b. h' a = Some b \<and> refs_held (caps[i := slot]) a \<le> unat (ko_ref b)"
  shows "slots_ok (caps[i := slot]) h'"
proof -
  let ?c = "caps[i := slot]"
  have len: "length caps = MAX_CAPABILITIES"
    using ok by (simp add: slots_ok_def)
  have "j \<noteq> 0 \<and> (\<exists>a b. slot_target (?c ! j) = Some a \<and> h' a = Some b \<and> refs_held ?c a \<le> unat (ko_ref b))"
    if j: "j < MAX_CAPABILITIES" "slot_active (?c ! j)" for j
  proof -
    have "j \<noteq> 0 \<and> (\<exists>a. slot_target (?c ! j) = Some a)"
      using j ok i new len by (cases "j = i") (auto simp: slots_ok_def)
    then obtain a where "j \<noteq> 0" and a: "slot_target (?c ! j) = Some a" by auto
    moreover have "0 < refs_held ?c a"
      using refs_held_pos [of j ?c a] j a len by (simp add: holds_def)
    ultimately show ?thesis
      using heap [of a] by blast
  qed
  then show ?thesis
    using len by (simp add: slots_ok_def)
qed

lemma refs_held_heap:
  assumes "slots_ok caps h" and "0 < refs_held caps a"
  obtains b where "h a = Some b" and "refs_held caps a \<le> unat (ko_ref b)"
proof -
  from assms(2) obtain i where "i < length caps" "holds (caps ! i) a"
    unfolding refs_held_def by (auto simp: card_gt_0_iff)
  then show thesis
    using assms(1) that unfolding slots_ok_def holds_def by fastforce
qed

lemma slot_upd_frame [simp]:
  "objs (slot_upd i slot s) = objs s"
  "s_lookup_table (slot_upd i slot s) = s_lookup_table s"
  "g_bobject_finalizer (slot_upd i slot s) = g_bobject_finalizer s"
  "s_capabilities (slot_upd i slot s) = map_option (\<lambda>caps. caps[i := slot]) (s_capabilities s)"
  by (simp_all add: slot_upd_def)

lemma upd_obj_frame [simp]:
  "s_capabilities (upd_obj a b s) = s_capabilities s"
  "s_lookup_table (upd_obj a b s) = s_lookup_table s"
  by (simp_all add: upd_obj_def)

lemma not_holds_retired [simp]: "\<not> holds (retired slot) a" "\<not> slot_active (retired slot)"
  by (simp_all add: holds_def retired_def)

lemma put_frame:
  assumes "fin_local call_fin" and "bobject_put call_fin a s = Done s'" and "objs s a = Some b"
  shows "s_capabilities s' = s_capabilities s" and "s_lookup_table s' = s_lookup_table s"
    and "x \<noteq> a \<Longrightarrow> objs s' x = objs s x" and "ko_ref b \<noteq> 0"
    and "ko_ref b \<noteq> 1 \<Longrightarrow> objs s' a = Some (b\<lparr>ko_ref := ko_ref b - 1\<rparr>)"
proof -
  from assms(2,3) have nz: "ko_ref b \<noteq> 0"
    by (auto simp: bobject_put_def kref_put_def Let_def)
  show "ko_ref b \<noteq> 0" by (rule nz)
  show one: "ko_ref b \<noteq> 1 \<Longrightarrow> objs s' a = Some (b\<lparr>ko_ref := ko_ref b - 1\<rparr>)"
    using assms(2,3) nz by (auto simp: bobject_put_def kref_put_def Let_def)
  have "s_capabilities s' = s_capabilities s \<and> s_lookup_table s' = s_lookup_table s \<and>
        (\<forall>x. x \<noteq> a \<longrightarrow> objs s' x = objs s x)"
  proof (cases "ko_ref b = 1")
    case True
    with assms obtain f where "call_fin f a (upd_obj a (b\<lparr>ko_ref := 0\<rparr>) s) = Done s'"
      by (auto simp: bobject_put_def kref_put_def Let_def split: option.splits)
    with assms(1) show ?thesis
      unfolding fin_local_def by (metis fun_upd_other objs_upd_obj upd_obj_frame)
  next
    case False
    then show ?thesis
      using assms(2,3) nz by (auto simp: bobject_put_def kref_put_def Let_def)
  qed
  then show "s_capabilities s' = s_capabilities s" "s_lookup_table s' = s_lookup_table s"
    "x \<noteq> a \<Longrightarrow> objs s' x = objs s x"
    by auto
qed

text \<open>Retiring a slot and dropping its reference keeps the invariant.\<close>

lemma retire_put_ok:
  assumes inv: "cap_inv s" and fin: "fin_local call_fin" and caps: "s_capabilities s = Some caps"
    and i: "i < MAX_CAPABILITIES" "slot_active (caps ! i)" "slot_target (caps ! i) = Some a"
    and put: "bobject_put call_fin a (retire_slot i (caps ! i) s) = Done s'"
  shows "s_capabilities s' = Some (caps[i := retired (caps ! i)]) \<and> cap_inv s'"
proof -
  let ?c = "caps[i := retired (caps ! i)]"
  have ok: "slots_ok caps (objs s)"
    using inv caps by (simp add: cap_inv_def)
  then have len: "length caps = MAX_CAPABILITIES"
    by (simp add: slots_ok_def)
  obtain b where b: "objs s a = Some b" and held: "refs_held caps a \<le> unat (ko_ref b)"
      and i0: "i \<noteq> 0"
    by (rule slots_okD [OF ok i(1,2)]) (use i(3) in auto)
  have b': "objs (retire_slot i (caps ! i) s) a = Some b"
    using b by (simp add: retire_slot_def)
  note frame = put_frame [OF fin put b']
  have drop: "refs_held ?c x + (if x = a then 1 else 0) = refs_held caps x" for x
    using refs_held_update [of i caps "retired (caps ! i)" x] i len by (auto simp: holds_def)
  have heap: "\<exists>b. objs s' x = Some b \<and> refs_held ?c x \<le> unat (ko_ref b)"
    if pos: "0 < refs_held ?c x" for x
  proof (cases "x = a")
    case True
    then have "ko_ref b \<noteq> 1"
      using drop [of a] pos held by auto
    then show ?thesis
      using frame(5) drop [of a] held True frame(4) by (auto simp: unat_pred)
  next
    case False
    then have "refs_held ?c x = refs_held caps x" using drop [of x] by simp
    with pos obtain bx where "objs s x = Some bx" "refs_held ?c x \<le> unat (ko_ref bx)"
      using refs_held_heap [OF ok, of x] by metis
    then show ?thesis
      using frame(3) [OF False] by (simp add: retire_slot_def)
  qed
  have "slots_ok ?c (objs s')"
    by (rule slots_ok_update [OF ok i(1) i0]) (use heap in auto)
  then show ?thesis
    using frame(1,2) caps inv by (simp add: retire_slot_def cap_inv_def)
qed

section \<open>Issuing\<close>

definition new_slot :: "cap_type \<Rightarrow> cap_rights \<Rightarrow> u32 \<Rightarrow> addr \<Rightarrow> u32 \<Rightarrow> capability_slot \<Rightarrow> capability_slot" where
  "new_slot ty rights owner target generation slot =
     slot\<lparr>slot_target := Some target, slot_type := ty, slot_rights := rights,
          slot_owner_domain := owner, slot_target_generation := generation, slot_active := True\<rparr>"

lemma slots_ok_fresh: "slots_ok (replicate MAX_CAPABILITIES capability_slot_default) h"
  by (simp add: slots_ok_def capability_slot_default_def)

lemma ensure_capabilities_cases:
  assumes "ensure_capabilities_locked alloc_ok s = (s1, ok)" and "cap_inv s"
  shows "cap_inv s1 \<and> objs s1 = objs s \<and> s_lookup_table s1 = s_lookup_table s \<and>
         (ok \<longrightarrow> s_capabilities s1 \<noteq> None) \<and> (s_capabilities s \<noteq> None \<longrightarrow> s1 = s)"
  using assms slots_ok_fresh
  by (auto simp: ensure_capabilities_locked_def cap_inv_def split: option.splits if_splits)

lemma issue_locked_Inr:
  assumes "issue_locked look alloc_ok ty obj_id rights owner s = Done (s', Inr t)"
  obtains s1 caps f i a b where
    "ensure_capabilities_locked alloc_ok s = (s1, True)" and "the (s_capabilities s1) = caps"
    and "unat ty < LOOKUP_TABLE_SIZE" and "s_lookup_table s1 ! unat ty = Some f"
    and "look f obj_id s1 = Some a" and "objs s1 a = Some b"
    and "first_from (\<lambda>i. \<not> slot_active (caps ! i)) 1 (MAX_CAPABILITIES - 1) = Some i"
    and "ko_state b = Active" and "ko_ref b \<noteq> 0" and "ko_ref b < KREF_LIMIT"
    and "s' = slot_upd i (new_slot ty rights owner a (ko_generation b) (caps ! i))
                (upd_obj a (b\<lparr>ko_ref := ko_ref b + 1\<rparr>) s1)"
    and "t = token_make ty (of_nat i) (slot_generation (caps ! i)) rights"
  using assms
  by (fastforce simp: issue_locked_def lookup_kobject_def bobject_try_get_def exec_bind_Done_iff
      kref_try_get_Done new_slot_def Let_def
      split: prod.splits bool.splits if_splits option.splits sum.splits)

lemma issue_locked_Inl:
  assumes "issue_locked look alloc_ok ty obj_id rights owner s = Done (s', Inl e)"
  shows "\<exists>ok. ensure_capabilities_locked alloc_ok s = (s', ok)"
proof -
  have same: "upd_obj a b s1 = s1" if "objs s1 a = Some b" for a b and s1 :: "'a cap_state_scheme"
    using that by (simp add: upd_obj_def fun_upd_idem)
  show ?thesis
    using assms
    by (fastforce simp: issue_locked_def lookup_kobject_def bobject_try_get_def exec_bind_Done_iff
        kref_try_get_Done Let_def same
        split: prod.splits bool.splits if_splits option.splits sum.splits)
qed

lemma cap_inv_issue:
  assumes inv: "cap_inv s" and iss: "issue_locked look alloc_ok ty obj_id rights owner s = Done (s', r)"
  shows "cap_inv s'"
proof (cases r)
  case (Inl e)
  then show ?thesis
    using issue_locked_Inl iss ensure_capabilities_cases inv by blast
next
  case (Inr t)
  from iss [unfolded Inr] show ?thesis
  proof (rule issue_locked_Inr)
    fix s1 caps f i a b
    assume ens: "ensure_capabilities_locked alloc_ok s = (s1, True)"
      and caps: "the (s_capabilities s1) = caps" and b: "objs s1 a = Some b"
      and first: "first_from (\<lambda>i. \<not> slot_active (caps ! i)) 1 (MAX_CAPABILITIES - 1) = Some i"
      and lim: "ko_ref b < KREF_LIMIT"
      and s': "s' = slot_upd i (new_slot ty rights owner a (ko_generation b) (caps ! i))
                     (upd_obj a (b\<lparr>ko_ref := ko_ref b + 1\<rparr>) s1)"
    let ?n = "new_slot ty rights owner a (ko_generation b) (caps ! i)"
    note e = ensure_capabilities_cases [OF ens inv]
    have s1: "s_capabilities s1 = Some caps" using e caps by auto
    then have ok: "slots_ok caps (objs s1)" using e unfolding cap_inv_def by blast
    then have len: "length caps = MAX_CAPABILITIES" by (simp add: slots_ok_def)
    have i: "i < MAX_CAPABILITIES" "i \<noteq> 0" "\<not> slot_active (caps ! i)"
      using first_from_Some [OF first] by (auto simp: MAX_CAPABILITIES_def)
    have add: "refs_held (caps[i := ?n]) x = refs_held caps x + (if x = a then 1 else 0)" for x
      using refs_held_update [of i caps ?n x] i len by (auto simp: holds_def new_slot_def)
    have heap: "\<exists>bx. objs s' x = Some bx \<and> refs_held (caps[i := ?n]) x \<le> unat (ko_ref bx)"
      if pos: "0 < refs_held (caps[i := ?n]) x" for x
    proof (cases "x = a")
      case True
      have "refs_held caps a \<le> unat (ko_ref b)"
        by (cases "0 < refs_held caps a") (use refs_held_heap [OF ok, of a] b in auto)
      then show ?thesis
        using True add unat_succ_below_limit [OF lim] by (simp add: s')
    next
      case False
      then show ?thesis
        using pos refs_held_heap [OF ok, of x] by (auto simp: add s')
    qed
    have "slots_ok (caps[i := ?n]) (objs s')"
      by (rule slots_ok_update [OF ok i(1,2)]) (use heap in \<open>auto simp: new_slot_def\<close>)
    then show "cap_inv s'"
      using conjunct1 [OF e] by (simp add: cap_inv_def s' s1)
  qed
qed

lemma validate_slot_Inr:
  "validate_slot token needed owner check s = Done (Inr a) \<longleftrightarrow>
     (\<exists>i slot b. slot_for token s = Some (i, slot) \<and> slot_target slot = Some a \<and> objs s a = Some b \<and>
        ko_generation b = slot_target_generation slot \<and> ko_state b \<noteq> Dying \<and> ko_state b \<noteq> Destroyed \<and>
        (check \<longrightarrow> slot_owner_domain slot = owner) \<and> mask_has (token_rights token) needed)"
  by (auto simp: validate_slot_def check_rights_def mask_has_def cr_none_def
      split: option.splits if_splits)

lemma slot_for_Some:
  "slot_for token s = Some (i, slot) \<longleftrightarrow>
     (\<exists>caps. s_capabilities s = Some caps \<and> token_ok token \<and> i = unat (token_object_id token) \<and>
        i \<noteq> 0 \<and> i < MAX_CAPABILITIES \<and> slot = caps ! i \<and> slot_active slot \<and>
        slot_generation slot = token_generation token \<and> slot_type slot = token_type token \<and>
        slot_rights slot = token_rights token)"
  by (auto simp: slot_for_def Let_def unat_gt_0 split: option.splits if_splits)

lemma cap_inv_reissue:
  "cap_inv s \<Longrightarrow> reissue look alloc_ok source target rights owner s = Done (s', r) \<Longrightarrow> cap_inv s'"
  by (auto simp: reissue_def split: option.splits intro: cap_inv_issue)

lemma cap_inv_duplicate_for:
  "cap_inv s \<Longrightarrow> cap_duplicate_for look alloc_ok source rights d owner s = Done (s', r) \<Longrightarrow> cap_inv s'"
  by (auto simp: cap_duplicate_for_def exec_bind_sum_Done_iff split: option.split_asm if_splits
      intro: cap_inv_reissue)

lemma cap_inv_duplicate:
  "cap_inv s \<Longrightarrow> cap_duplicate look alloc_ok source rights owner s = Done (s', r) \<Longrightarrow> cap_inv s'"
  by (auto simp: cap_duplicate_def exec_bind_sum_Done_iff intro: cap_inv_reissue)

lemma cap_inv_acquire:
  "cap_inv s \<Longrightarrow> cap_acquire look alloc_ok source rights owner s = Done (s', r) \<Longrightarrow> cap_inv s'"
  by (auto simp: cap_acquire_def exec_bind_sum_Done_iff intro: cap_inv_reissue)

lemma cap_revoke_is_release: "cap_revoke = cap_release"
  by (intro ext) (simp add: cap_revoke_def cap_release_def)

lemma cap_inv_release:
  assumes "cap_inv s" and "fin_local call_fin" and "cap_release call_fin token s = Done (s', r)"
  shows "cap_inv s'"
  using assms
  by (auto simp: cap_release_def exec_bind_Done_iff slot_for_Some split: if_splits option.splits
      dest: retire_put_ok)

section \<open>Sweeps\<close>

text \<open>
  Both revocation loops are the same sweep with a different test of a slot. The locale
  states what the sweep needs of the test: it reads only the slot and the identifier of the
  slot's target.
\<close>

fun sweep ::
  "('a cap_state_scheme \<Rightarrow> capability_slot \<Rightarrow> bool exec) \<Rightarrow> 'a finalize \<Rightarrow> nat \<Rightarrow> nat \<Rightarrow> u32 \<Rightarrow>
   'a cap_state_scheme \<Rightarrow> ('a cap_state_scheme \<times> u32) exec" where
  "sweep test call_fin i 0 revoked s = Done (s, revoked)"
| "sweep test call_fin i (Suc n) revoked s =
     (case s_capabilities s of
        None \<Rightarrow> Trap
      | Some caps \<Rightarrow>
          exec_bind (test s (caps ! i))
            (\<lambda>hit. if \<not> hit then sweep test call_fin (Suc i) n revoked s
                   else exec_bind
                     (case slot_target (caps ! i) of
                        None \<Rightarrow> Done (retire_slot i (caps ! i) s)
                      | Some a \<Rightarrow> bobject_put call_fin a (retire_slot i (caps ! i) s))
                     (\<lambda>s'. sweep test call_fin (Suc i) n (revoked + 1) s')))"

text \<open>The table after a sweep of the slots from \<open>i\<close> on, \<open>n\<close> of them.\<close>

definition swept ::
  "(capability_slot \<Rightarrow> bool) \<Rightarrow> nat \<Rightarrow> nat \<Rightarrow> capability_slot list \<Rightarrow> capability_slot list" where
  "swept P i n caps =
     map (\<lambda>j. if i \<le> j \<and> j < i + n \<and> P (caps ! j) then retired (caps ! j) else caps ! j)
       [0..<length caps]"

definition swept_count :: "(capability_slot \<Rightarrow> bool) \<Rightarrow> nat \<Rightarrow> nat \<Rightarrow> capability_slot list \<Rightarrow> nat" where
  "swept_count P i n caps = card {j. i \<le> j \<and> j < i + n \<and> P (caps ! j)}"

lemma length_swept [simp]: "length (swept P i n caps) = length caps"
  by (simp add: swept_def)

lemma nth_swept:
  "j < length caps \<Longrightarrow>
     swept P i n caps ! j = (if i \<le> j \<and> j < i + n \<and> P (caps ! j) then retired (caps ! j) else caps ! j)"
  by (simp add: swept_def)

lemma swept_0 [simp]: "swept P i 0 caps = caps" "swept_count P i 0 caps = 0"
proof -
  show "swept P i 0 caps = caps"
    by (rule nth_equalityI) (auto simp: nth_swept)
qed (simp add: swept_count_def)

lemma swept_Suc:
  assumes "i + Suc n \<le> length caps"
    and "\<And>j. i < j \<Longrightarrow> j < i + Suc n \<Longrightarrow> Q (caps ! j) = P (caps ! j)"
  defines "caps' \<equiv> if P (caps ! i) then caps[i := retired (caps ! i)] else caps"
  shows "swept P i (Suc n) caps = swept Q (Suc i) n caps'"
    and "swept_count P i (Suc n) caps = of_bool (P (caps ! i)) + swept_count Q (Suc i) n caps'"
proof -
  have len: "length caps' = length caps" and i: "i < length caps"
    using assms(1) by (simp_all add: caps'_def)
  have other: "caps' ! j = caps ! j" if "j \<noteq> i" for j
    using that by (simp add: caps'_def)
  have at: "caps' ! i = (if P (caps ! i) then retired (caps ! i) else caps ! i)"
    using i by (simp add: caps'_def)
  show "swept P i (Suc n) caps = swept Q (Suc i) n caps'"
  proof (rule nth_equalityI)
    fix j assume "j < length (swept P i (Suc n) caps)"
    then show "swept P i (Suc n) caps ! j = swept Q (Suc i) n caps' ! j"
      using at other [of j] assms(2) [of j] len by (cases "j = i") (auto simp: nth_swept)
  qed (simp add: len)
  have "{j. i \<le> j \<and> j < i + Suc n \<and> P (caps ! j)} =
      (if P (caps ! i) then {i} else {}) \<union> {j. Suc i \<le> j \<and> j < Suc i + n \<and> Q (caps' ! j)}"
  proof (rule set_eqI)
    fix j
    show "j \<in> {j. i \<le> j \<and> j < i + Suc n \<and> P (caps ! j)} \<longleftrightarrow>
        j \<in> (if P (caps ! i) then {i} else {}) \<union> {j. Suc i \<le> j \<and> j < Suc i + n \<and> Q (caps' ! j)}"
      using other [of j] assms(2) [of j] by (cases "j = i") auto
  qed
  then show "swept_count P i (Suc n) caps = of_bool (P (caps ! i)) + swept_count Q (Suc i) n caps'"
    by (simp add: swept_count_def)
qed

text \<open>A retired slot's neighbours keep their targets, with the same identifiers.\<close>

lemma retire_put_keeps_ids:
  assumes inv: "cap_inv s" and fin: "fin_local call_fin" and caps: "s_capabilities s = Some caps"
    and i: "i < MAX_CAPABILITIES" "slot_active (caps ! i)" "slot_target (caps ! i) = Some a"
    and put: "bobject_put call_fin a (retire_slot i (caps ! i) s) = Done s'"
    and j: "j < MAX_CAPABILITIES" "j \<noteq> i" "slot_active (caps ! j)"
  obtains x b b' where "slot_target (caps ! j) = Some x" and "objs s x = Some b"
    and "objs s' x = Some b'" and "ko_id b' = ko_id b"
proof -
  have ok: "slots_ok caps (objs s)"
    using inv caps by (simp add: cap_inv_def)
  obtain bi where bi: "objs (retire_slot i (caps ! i) s) a = Some bi"
    and held: "refs_held caps a \<le> unat (ko_ref bi)"
    by (rule slots_okD [OF ok i(1,2)]) (use i(3) in \<open>auto simp: retire_slot_def\<close>)
  obtain x b where x: "slot_target (caps ! j) = Some x" and b: "objs s x = Some b"
    by (rule slots_okD [OF ok j(1,3)])
  have "\<exists>b'. objs s' x = Some b' \<and> ko_id b' = ko_id b"
  proof (cases "x = a")
    case True
    have "{i, j} \<subseteq> {k. k < length caps \<and> holds (caps ! k) a}"
      using i j x ok True by (auto simp: holds_def slots_ok_def)
    then have "card {i, j} \<le> refs_held caps a"
      unfolding refs_held_def by (rule card_mono [rotated]) simp
    then have "ko_ref bi \<noteq> 1"
      using held j(2) by auto
    then show ?thesis
      using put_frame(5) [OF fin put bi] True bi b by (simp add: retire_slot_def)
  next
    case False
    then show ?thesis
      using put_frame(3) [OF fin put bi] b by (simp add: retire_slot_def)
  qed
  then show thesis
    using that x b by blast
qed

locale slot_sweep =
  fixes test :: "'a cap_state_scheme \<Rightarrow> capability_slot \<Rightarrow> bool exec"
    and hit :: "(addr \<Rightarrow> bobject option) \<Rightarrow> capability_slot \<Rightarrow> bool"
  assumes test_idle: "\<not> slot_active slot \<Longrightarrow> test s slot = Done False"
    and test_active:
      "slot_active slot \<Longrightarrow> slot_target slot = Some a \<Longrightarrow> objs s a = Some b \<Longrightarrow>
         test s slot = Done (hit (objs s) slot)"
    and hit_active: "hit h slot \<Longrightarrow> slot_active slot"
    and hit_id:
      "slot_target slot = Some a \<Longrightarrow> h a = Some b \<Longrightarrow> h' a = Some b' \<Longrightarrow> ko_id b' = ko_id b \<Longrightarrow>
         hit h' slot = hit h slot"
begin

lemma test_hit:
  assumes "slots_ok caps (objs s)" and "i < MAX_CAPABILITIES"
  shows "test s (caps ! i) = Done (hit (objs s) (caps ! i))"
proof (cases "slot_active (caps ! i)")
  case True
  show ?thesis
    by (rule slots_okD [OF assms True]) (rule test_active [OF True])
next
  case False
  then show ?thesis
    using test_idle [OF False] hit_active by auto
qed

lemma hit_after_retire:
  assumes "cap_inv s" and "fin_local call_fin" and "s_capabilities s = Some caps"
    and "i < MAX_CAPABILITIES" "slot_active (caps ! i)" "slot_target (caps ! i) = Some a"
    and "bobject_put call_fin a (retire_slot i (caps ! i) s) = Done s'"
    and "j < MAX_CAPABILITIES" "j \<noteq> i"
  shows "hit (objs s') (caps ! j) = hit (objs s) (caps ! j)"
proof (cases "slot_active (caps ! j)")
  case True
  show ?thesis
    by (rule retire_put_keeps_ids [OF assms True]) (rule hit_id)
next
  case False
  then show ?thesis
    using hit_active by blast
qed

lemma sweep_idle:
  assumes "s_capabilities s = Some caps" and "\<And>j. i \<le> j \<Longrightarrow> j < i + n \<Longrightarrow> \<not> slot_active (caps ! j)"
  shows "sweep test call_fin i n k s = Done (s, k)"
  using assms(2)
proof (induction n arbitrary: i)
  case (Suc n)
  have "\<not> slot_active (caps ! i)"
    by (rule Suc.prems) simp_all
  moreover have "sweep test call_fin (Suc i) n k s = Done (s, k)"
    by (rule Suc.IH) (use Suc.prems in simp)
  ultimately show ?case
    using assms(1) test_idle by simp
qed simp

lemma sweep_effect:
  assumes "cap_inv s" and "fin_local call_fin" and "s_capabilities s = Some caps"
    and "i + n \<le> MAX_CAPABILITIES" and "sweep test call_fin i n k s = Done (s', k')"
  shows "cap_inv s' \<and> s_capabilities s' = Some (swept (hit (objs s)) i n caps) \<and>
         k' = k + of_nat (swept_count (hit (objs s)) i n caps)"
  using assms
proof (induction n arbitrary: i k s caps)
  case 0
  then show ?case by simp
next
  case (Suc n)
  note fin = Suc.prems(2) and caps = Suc.prems(3)
  have ok: "slots_ok caps (objs s)" and i: "i < MAX_CAPABILITIES"
    using Suc.prems by (auto simp: cap_inv_def)
  then have len: "i + Suc n \<le> length caps"
    using Suc.prems(4) by (simp add: slots_ok_def)
  note test = test_hit [OF ok i]
  show ?case
  proof (cases "hit (objs s) (caps ! i)")
    case False
    then have "sweep test call_fin (Suc i) n k s = Done (s', k')"
      using Suc.prems(5) test caps by simp
    then show ?thesis
      using Suc.IH [OF Suc.prems(1,2,3), of "Suc i" k] Suc.prems(4) False
        swept_Suc [OF len, of "hit (objs s)" "hit (objs s)"] by simp
  next
    case True
    have act: "slot_active (caps ! i)" by (rule hit_active [OF True])
    obtain a where a: "slot_target (caps ! i) = Some a"
      by (rule slots_okD [OF ok i act])
    obtain s1 where put: "bobject_put call_fin a (retire_slot i (caps ! i) s) = Done s1"
        and rest: "sweep test call_fin (Suc i) n (k + 1) s1 = Done (s', k')"
      using Suc.prems(5) test caps True a by (auto simp: exec_bind_Done_iff)
    have s1: "s_capabilities s1 = Some (caps[i := retired (caps ! i)])" "cap_inv s1"
      using retire_put_ok [OF Suc.prems(1) fin caps i act a put] by simp_all
    have same: "hit (objs s1) (caps ! j) = hit (objs s) (caps ! j)"
      if "i < j" "j < i + Suc n" for j
      using hit_after_retire [OF Suc.prems(1) fin caps i act a put, of j] that Suc.prems(4) by simp
    show ?thesis
      using Suc.IH [OF s1(2) fin s1(1) _ rest] Suc.prems(4) True
        swept_Suc [where P = "hit (objs s)" and Q = "hit (objs s1)", OF len same]
      by (simp add: algebra_simps)
  qed
qed

end

definition domain_hit :: "u32 \<Rightarrow> (addr \<Rightarrow> bobject option) \<Rightarrow> capability_slot \<Rightarrow> bool" where
  "domain_hit d h slot \<longleftrightarrow>
     slot_active slot \<and>
     (slot_owner_domain slot = d \<or>
      slot_type slot = cap_domain \<and>
      (case slot_target slot of
         None \<Rightarrow> False
       | Some a \<Rightarrow> (case h a of None \<Rightarrow> False | Some b \<Rightarrow> ko_id b = d)))"

definition domain_test :: "u32 \<Rightarrow> 'a cap_state_scheme \<Rightarrow> capability_slot \<Rightarrow> bool exec" where
  "domain_test d s slot =
     exec_bind
       (if slot_active slot \<and> slot_type slot = cap_domain
        then case slot_target slot of
               None \<Rightarrow> Done False
             | Some a \<Rightarrow> (case objs s a of None \<Rightarrow> Trap | Some b \<Rightarrow> Done (ko_id b = d))
        else Done False)
       (\<lambda>t. Done (slot_active slot \<and> (slot_owner_domain slot = d \<or> t)))"

lemma revoke_domain_loop_sweep:
  "revoke_domain_loop call_fin d i n k s = sweep (domain_test d) call_fin i n k s"
proof (induction n arbitrary: i k s)
  case (Suc n)
  then have "revoke_domain_loop call_fin d i n k = sweep (domain_test d) call_fin i n k" for i k
    by (intro ext)
  then show ?case
    by (simp add: domain_test_def [of d s] Let_def split: option.split)
qed simp

interpretation dom: slot_sweep "domain_test d" "domain_hit d" for d
  by unfold_locales (auto simp: domain_test_def domain_hit_def)

lemma revoke_target_loop_sweep:
  "revoke_target_loop call_fin a i n k s =
     sweep (\<lambda>s slot. Done (holds slot a)) call_fin i n k s"
proof (induction n arbitrary: i k s)
  case (Suc n)
  then have "revoke_target_loop call_fin a i n k =
      sweep (\<lambda>s slot. Done (holds slot a)) call_fin i n k" for i k
    by (intro ext)
  then show ?case
    by (simp add: holds_def [of "_ ! _"] split: option.split)
qed simp

interpretation tgt: slot_sweep "\<lambda>s slot. Done (holds slot a)" "\<lambda>h slot. holds slot a" for a
  by unfold_locales (auto simp: holds_def)

lemma cap_inv_revoke_for_domain:
  assumes "cap_inv s" and "fin_local call_fin" and "cap_revoke_for_domain call_fin d s = Done (s', k)"
  shows "cap_inv s'"
  using assms dom.sweep_effect [OF assms(1,2), of _ 1 "MAX_CAPABILITIES - 1" d 0 s' k]
  by (auto simp: cap_revoke_for_domain_def revoke_domain_loop_sweep MAX_CAPABILITIES_def
      split: option.splits)

text \<open>Unlike its sibling, this sweep does not test the table pointer first.\<close>

lemma cap_revoke_target_without_table:
  assumes "s_capabilities s = None"
  shows "cap_revoke_target call_fin a s = Trap"
proof -
  have "revoke_target_loop call_fin a i n k s = Trap" if "0 < n" for i n k
    using that assms by (cases n) simp_all
  then show ?thesis
    by (simp add: cap_revoke_target_def MAX_CAPABILITIES_def)
qed

lemma cap_inv_revoke_target:
  assumes "cap_inv s" and "fin_local call_fin" and "cap_revoke_target call_fin a s = Done (s', k)"
  shows "cap_inv s'"
proof -
  obtain caps where "s_capabilities s = Some caps"
    using assms(3) cap_revoke_target_without_table [of s call_fin a] by (cases "s_capabilities s") auto
  then show ?thesis
    using assms tgt.sweep_effect [OF assms(1,2), of caps 1 "MAX_CAPABILITIES - 1" a 0 s' k]
    by (simp add: cap_revoke_target_def revoke_target_loop_sweep MAX_CAPABILITIES_def)
qed

section \<open>Runs\<close>

text \<open>
  A run interleaves the operations of the table with what the rest of the kernel does to the
  objects: taking references, dropping references of its own (never one that a slot holds),
  and lifecycle transitions.
\<close>

inductive cap_step ::
  "'a lookup \<Rightarrow> 'a finalize \<Rightarrow> 'a cap_state_scheme \<Rightarrow> 'a cap_state_scheme \<Rightarrow> bool"
  for look call_fin where
  issue: "cap_issue look ok ty obj_id rights owner s = Done (s', r) \<Longrightarrow> cap_step look call_fin s s'"
| duplicate: "cap_duplicate look ok t rights owner s = Done (s', r) \<Longrightarrow> cap_step look call_fin s s'"
| acquire: "cap_acquire look ok t rights owner s = Done (s', r) \<Longrightarrow> cap_step look call_fin s s'"
| duplicate_for:
    "cap_duplicate_for look ok t rights d owner s = Done (s', r) \<Longrightarrow> cap_step look call_fin s s'"
| release: "cap_release call_fin t s = Done (s', u) \<Longrightarrow> cap_step look call_fin s s'"
| revoke: "cap_revoke call_fin t s = Done (s', u) \<Longrightarrow> cap_step look call_fin s s'"
| revoke_domain: "cap_revoke_for_domain call_fin d s = Done (s', k) \<Longrightarrow> cap_step look call_fin s s'"
| revoke_target: "cap_revoke_target call_fin a s = Done (s', k) \<Longrightarrow> cap_step look call_fin s s'"
| register: "register_lookup ty fn s = (s', u) \<Longrightarrow> cap_step look call_fin s s'"
| other_get: "bobject_try_get a s = Done (s', got) \<Longrightarrow> cap_step look call_fin s s'"
| other_put:
    "objs s a = Some b \<Longrightarrow> \<forall>caps. s_capabilities s = Some caps \<longrightarrow> refs_held caps a < unat (ko_ref b) \<Longrightarrow>
     bobject_put call_fin a s = Done s' \<Longrightarrow> cap_step look call_fin s s'"
| lifecycle:
    "objs s a = Some b \<Longrightarrow> cap_step look call_fin s (upd_obj a (fst (transition b target)) s)"

inductive cap_reach ::
  "'a lookup \<Rightarrow> 'a finalize \<Rightarrow> 'a cap_state_scheme \<Rightarrow> 'a cap_state_scheme \<Rightarrow> bool"
  for look call_fin s0 where
  start: "cap_reach look call_fin s0 s0"
| step: "cap_reach look call_fin s0 s \<Longrightarrow> cap_step look call_fin s s' \<Longrightarrow> cap_reach look call_fin s0 s'"

definition cap_boot :: "'a cap_state_scheme \<Rightarrow> bool" where
  "cap_boot s \<longleftrightarrow> s_capabilities s = None \<and> s_lookup_table s = replicate LOOKUP_TABLE_SIZE None"

lemma slots_ok_heap:
  assumes "slots_ok caps h"
    and "\<And>a b. 0 < refs_held caps a \<Longrightarrow> h a = Some b \<Longrightarrow> refs_held caps a \<le> unat (ko_ref b) \<Longrightarrow>
           \<exists>b'. h' a = Some b' \<and> refs_held caps a \<le> unat (ko_ref b')"
  shows "slots_ok caps h'"
proof -
  have "\<exists>a b. slot_target (caps ! i) = Some a \<and> h' a = Some b \<and> refs_held caps a \<le> unat (ko_ref b)"
    if "i < MAX_CAPABILITIES" "slot_active (caps ! i)" for i
    by (rule slots_okD [OF assms(1) that]) (use assms(2) in blast)
  then show ?thesis
    using assms(1) by (simp add: slots_ok_def)
qed

lemma cap_inv_heap:
  assumes "cap_inv s" and "s_capabilities s' = s_capabilities s" and "s_lookup_table s' = s_lookup_table s"
    and "\<And>caps a b. s_capabilities s = Some caps \<Longrightarrow> objs s a = Some b \<Longrightarrow>
           refs_held caps a \<le> unat (ko_ref b) \<Longrightarrow> 0 < refs_held caps a \<Longrightarrow>
           \<exists>b'. objs s' a = Some b' \<and> refs_held caps a \<le> unat (ko_ref b')"
  shows "cap_inv s'"
  using assms slots_ok_heap [of _ "objs s" "objs s'"] unfolding cap_inv_def by metis

lemma cap_inv_other_get:
  assumes "cap_inv s" and "bobject_try_get a s = Done (s', got)"
  shows "cap_inv s'"
proof -
  obtain b where b: "objs s a = Some b"
    using assms(2) by (auto simp: bobject_try_get_def split: option.splits)
  then obtain r where r: "kref_try_get (ko_ref b) = Done (r, got)"
      and s': "s' = upd_obj a (b\<lparr>ko_ref := r\<rparr>) s"
    using assms(2) by (auto simp: bobject_try_get_def exec_bind_Done_iff)
  have "unat (ko_ref b) \<le> unat r"
    using r unat_succ_below_limit [of "ko_ref b"] by (auto simp: kref_try_get_Done)
  then show ?thesis
    by (intro cap_inv_heap [OF assms(1)]) (use b in \<open>auto simp: s'\<close>)
qed

lemma cap_inv_other_put:
  assumes "cap_inv s" and "fin_local call_fin" and b: "objs s a = Some b"
    and slack: "\<forall>caps. s_capabilities s = Some caps \<longrightarrow> refs_held caps a < unat (ko_ref b)"
    and put: "bobject_put call_fin a s = Done s'"
  shows "cap_inv s'"
proof (rule cap_inv_heap [OF assms(1)])
  note f = put_frame [OF assms(2) put b]
  show "s_capabilities s' = s_capabilities s" "s_lookup_table s' = s_lookup_table s"
    by (rule f)+
  fix caps x bx
  assume caps: "s_capabilities s = Some caps" and bx: "objs s x = Some bx"
    and le: "refs_held caps x \<le> unat (ko_ref bx)" and pos: "0 < refs_held caps x"
  show "\<exists>b'. objs s' x = Some b' \<and> refs_held caps x \<le> unat (ko_ref b')"
  proof (cases "x = a")
    case True
    then have "refs_held caps a < unat (ko_ref b)" using slack caps by simp
    moreover from this pos True have "ko_ref b \<noteq> 1" by auto
    ultimately show ?thesis
      using f(5) f(4) True by (simp add: unat_pred)
  next
    case False
    then show ?thesis using f(3) bx le by simp
  qed
qed

lemma cap_inv_lifecycle:
  assumes "cap_inv s" and "objs s a = Some b"
  shows "cap_inv (upd_obj a (fst (transition b t)) s)"
  by (rule cap_inv_heap [OF assms(1)]) (use assms(2) in \<open>auto simp: transition_frame\<close>)

lemma cap_inv_register: "cap_inv s \<Longrightarrow> register_lookup ty fn s = (s', u) \<Longrightarrow> cap_inv s'"
  by (auto simp: register_lookup_def cap_inv_def split: if_splits)

lemma cap_inv_step: "cap_step look call_fin s s' \<Longrightarrow> cap_inv s \<Longrightarrow> fin_local call_fin \<Longrightarrow> cap_inv s'"
proof (induction rule: cap_step.induct)
  case (other_put s a b s')
  then show ?case by (blast intro: cap_inv_other_put)
qed (auto simp: cap_issue_def cap_revoke_is_release
    intro: cap_inv_issue cap_inv_duplicate cap_inv_acquire cap_inv_duplicate_for cap_inv_release
      cap_inv_revoke_for_domain cap_inv_revoke_target cap_inv_register cap_inv_other_get
      cap_inv_lifecycle)

lemma cap_inv_reach:
  assumes "cap_reach look call_fin s0 s" and "cap_boot s0" and "fin_local call_fin"
  shows "cap_inv s"
  using assms(1)
proof induction
  case start
  show ?case using assms(2) by (simp add: cap_boot_def cap_inv_def)
next
  case (step s s')
  then show ?case using cap_inv_step assms(3) by blast
qed

section \<open>What a token proves\<close>

lemma token_ok_iff: "token_ok t \<longleftrightarrow> token_type t \<noteq> cap_none"
  by (auto simp: token_ok_def token_type_def cap_none_def)

lemma issued_token_valid:
  assumes inv: "cap_inv s" and iss: "issue_locked look ok ty obj_id rights owner s = Done (s', Inr t)"
    and ty: "ty \<noteq> cap_none"
  shows "\<exists>a. validate_slot t rights owner True s' = Done (Inr a) \<and> token_type t = ty \<and> token_rights t = rights"
  using iss
proof (rule issue_locked_Inr)
  fix s1 caps f i a b
  assume ens: "ensure_capabilities_locked ok s = (s1, True)"
    and caps: "the (s_capabilities s1) = caps" and b: "objs s1 a = Some b" "ko_state b = Active"
    and first: "first_from (\<lambda>i. \<not> slot_active (caps ! i)) 1 (MAX_CAPABILITIES - 1) = Some i"
    and s': "s' = slot_upd i (new_slot ty rights owner a (ko_generation b) (caps ! i))
                   (upd_obj a (b\<lparr>ko_ref := ko_ref b + 1\<rparr>) s1)"
    and t: "t = token_make ty (of_nat i) (slot_generation (caps ! i)) rights"
  let ?n = "new_slot ty rights owner a (ko_generation b) (caps ! i)"
  note e = ensure_capabilities_cases [OF ens inv]
  have s1: "s_capabilities s1 = Some caps" using e caps by auto
  then have len: "length caps = MAX_CAPABILITIES"
    using e unfolding cap_inv_def slots_ok_def by blast
  have i: "i < MAX_CAPABILITIES" "i \<noteq> 0"
    using first_from_Some [OF first] by (auto simp: MAX_CAPABILITIES_def)
  then have ui: "unat (of_nat i :: u16) = i"
    by (simp add: MAX_CAPABILITIES_def unat_of_nat take_bit_eq_mod)
  have "token_ok t"
    using ty t by (simp add: token_ok_iff)
  then have "slot_for t s' = Some (i, ?n)"
    using i ui len by (simp add: slot_for_Some s' s1 t new_slot_def)
  then have "validate_slot t rights owner True s' = Done (Inr a)"
    using b by (auto simp: validate_slot_Inr s' new_slot_def t)
  then show ?thesis
    by (simp add: t)
qed

lemma reissue_slot:
  assumes "reissue look ok source target rights owner s = Done (s', r)"
  obtains obj_id where "issue_locked look ok (token_type source) obj_id rights owner s = Done (s', r)"
    and "token_type source \<noteq> cap_none"
  using assms
  by (auto simp: reissue_def slot_for_Some token_ok_def split: option.splits)

lemma cap_duplicate_for_Inr:
  assumes "cap_duplicate_for look ok source rights d owner s = Done (s', Inr t)"
  shows "(\<exists>a. validate_slot source rights d True s = Done (Inr a) \<and>
             reissue look ok source a rights owner s = Done (s', Inr t)) \<and>
         (owner = d \<or> mask_has (token_rights source) cr_delegate)"
proof -
  obtain a where v: "validate_slot source rights d True s = Done (Inr a)"
    using assms by (auto simp: cap_duplicate_for_def exec_bind_sum_Done_iff)
  then obtain i slot where sl: "slot_for source s = Some (i, slot)"
    by (auto simp: validate_slot_Inr)
  then have "slot_rights slot = token_rights source"
    by (auto simp: slot_for_Some)
  with assms v sl show ?thesis
    by (auto simp: cap_duplicate_for_def mask_has_def split: if_splits)
qed

lemma validate_after_retire:
  assumes "s_capabilities s = Some caps" and "length caps = MAX_CAPABILITIES"
    and "slot_for t s = Some (i, slot)" and "s_capabilities s' = Some (caps[i := retired slot])"
  shows "slot_for t s' = None"
    and "token_object_id u \<noteq> token_object_id t \<Longrightarrow> slot_for u s' = slot_for u s"
proof -
  from assms show "slot_for t s' = None"
    by (auto simp: slot_for_Some) (auto simp: slot_for_def retired_def Let_def)
  assume "token_object_id u \<noteq> token_object_id t"
  then have "unat (token_object_id u) \<noteq> i"
    using assms(3) by (auto simp: slot_for_Some word_unat_eq_iff)
  then show "slot_for u s' = slot_for u s"
    using assms by (simp add: slot_for_def Let_def)
qed

lemma cap_release_Inr:
  assumes "cap_inv s" and "fin_local call_fin" and "cap_release call_fin t s = Done (s', Inr ())"
  obtains caps i where "s_capabilities s = Some caps" and "length caps = MAX_CAPABILITIES"
    and "slot_for t s = Some (i, caps ! i)" and "s_capabilities s' = Some (caps[i := retired (caps ! i)])"
    and "token_ok t"
proof -
  obtain i slot a where sl: "slot_for t s = Some (i, slot)" and a: "slot_target slot = Some a"
      and put: "bobject_put call_fin a (retire_slot i slot s) = Done s'" and tok: "token_ok t"
    using assms(3) by (auto simp: cap_release_def exec_bind_Done_iff split: if_splits option.splits)
  from sl obtain caps where caps: "s_capabilities s = Some caps"
      and i: "i < MAX_CAPABILITIES" "slot_active (caps ! i)" and slot: "slot = caps ! i"
    by (auto simp: slot_for_Some)
  then have "length caps = MAX_CAPABILITIES"
    using assms(1) by (auto simp: cap_inv_def slots_ok_def)
  then show thesis
    using that caps sl slot tok a put retire_put_ok [OF assms(1,2) caps i] by auto
qed

section \<open>The kernel's finalizer is local\<close>

text \<open>
  The function the kernel installs is \<^const>\<open>finalize_last_put\<close>, which calls the registered
  reclaimer; here every reclaimer is the common \<^const>\<open>complete_reclaim\<close>.
\<close>

definition kernel_fin :: "'a finalize" where
  "kernel_fin f a s = finalize_last_put (\<lambda>g. complete_reclaim) a s"

lemma fin_local_kernel: "fin_local kernel_fin"
  by (auto simp: fin_local_def kernel_fin_def finalize_last_put_def complete_reclaim_def
      entry_upd_def upd_obj_def Let_def split: option.splits)

section \<open>Sample states\<close>

definition sample_target :: bobject where
  "sample_target = bobject_default\<lparr>ko_id := 5, ko_type := KT_domain, ko_state := Active\<rparr>"

definition sample_look :: "'a lookup" where
  "sample_look f obj_id s = (if obj_id = 5 then Some 7 else None)"

definition sample_boot :: cap_state where
  "sample_boot =
     \<lparr>objs = Map.empty(7 := Some sample_target), g_bobject_finalizer = Some 1, g_metadata = [],
      s_capabilities = None, s_lookup_table = replicate LOOKUP_TABLE_SIZE None\<rparr>"

definition sample_ready :: cap_state where
  "sample_ready = sample_boot\<lparr>s_lookup_table := (replicate LOOKUP_TABLE_SIZE None)[1 := Some 9]\<rparr>"

definition sample_table :: "capability_slot list" where
  "sample_table = replicate MAX_CAPABILITIES capability_slot_default"

definition sample_rights :: cap_rights where
  "sample_rights = cr_read OR cr_delegate"

definition sample_slot :: capability_slot where
  "sample_slot = new_slot cap_domain sample_rights 3 7 0 capability_slot_default"

definition sample_token :: cap_token where
  "sample_token = token_make cap_domain 1 1 sample_rights"

definition sample_issued :: cap_state where
  "sample_issued = sample_ready
     \<lparr>objs := Map.empty(7 := Some (sample_target\<lparr>ko_ref := 2\<rparr>)),
      s_capabilities := Some (sample_table[1 := sample_slot])\<rparr>"

lemma first_from_hit: "P i \<Longrightarrow> 0 < n \<Longrightarrow> first_from P i n = Some i"
  by (cases n) simp_all

lemma first_from_second: "\<not> P i \<Longrightarrow> P (Suc i) \<Longrightarrow> 1 < n \<Longrightarrow> first_from P i n = Some (Suc i)"
  using first_from_hit [of P "Suc i" "n - 1"] by (cases n) simp_all

lemma sample_register: "register_lookup cap_domain (Some 9) sample_boot = (sample_ready, Inr ())"
  by (simp add: register_lookup_def sample_boot_def sample_ready_def LOOKUP_TABLE_SIZE_def cap_domain_def)

lemma sample_issue:
  "cap_issue sample_look True cap_domain 5 sample_rights 3 sample_ready = Done (sample_issued, Inr sample_token)"
proof -
  have "first_from (\<lambda>i. \<not> slot_active (sample_table ! i)) 1 (MAX_CAPABILITIES - 1) = Some 1"
    by (rule first_from_hit)
      (simp_all add: sample_table_def MAX_CAPABILITIES_def capability_slot_default_def)
  moreover have "kref_try_get 1 = Done (2, True)"
    by (simp add: kref_try_get_def KREF_LIMIT_def word_le_nat_alt)
  ultimately show ?thesis
    by (simp add: cap_issue_def issue_locked_def ensure_capabilities_locked_def lookup_kobject_def
        sample_ready_def sample_boot_def sample_look_def sample_issued_def sample_token_def
        sample_slot_def sample_target_def bobject_default_def bobject_try_get_def new_slot_def LOOKUP_TABLE_SIZE_def cap_domain_def upd_obj_def slot_upd_def
        Let_def flip: sample_table_def)
      (simp add: sample_table_def MAX_CAPABILITIES_def capability_slot_default_def)
qed

lemma sample_reach: "cap_reach sample_look kernel_fin sample_boot sample_issued"
proof -
  have "cap_step sample_look kernel_fin sample_boot sample_ready"
    by (rule cap_step.register) (rule sample_register)
  moreover have "cap_step sample_look kernel_fin sample_ready sample_issued"
    by (rule cap_step.issue) (rule sample_issue)
  ultimately show ?thesis
    by (blast intro: cap_reach.intros)
qed

lemma sample_boot_ok: "cap_boot sample_boot"
  by (simp add: cap_boot_def sample_boot_def)

lemma sample_inv: "cap_inv sample_issued"
  by (rule cap_inv_reach [OF sample_reach sample_boot_ok fin_local_kernel])

lemma sample_slot_for: "slot_for sample_token sample_issued = Some (1, sample_slot)"
  by (simp add: slot_for_Some token_ok_iff sample_token_def sample_issued_def cap_domain_def
      cap_none_def MAX_CAPABILITIES_def sample_table_def sample_slot_def new_slot_def
      capability_slot_default_def)

definition sample_delegated :: cap_state where
  "sample_delegated = sample_issued
     \<lparr>objs := Map.empty(7 := Some (sample_target\<lparr>ko_ref := 3\<rparr>)),
      s_capabilities := Some (sample_table[1 := sample_slot,
        2 := new_slot cap_domain cr_read 4 7 0 capability_slot_default])\<rparr>"

lemma sample_duplicate:
  "cap_duplicate_for sample_look True sample_token cr_read 3 4 sample_issued =
     Done (sample_delegated, Inr (token_make cap_domain 2 1 cr_read))"
proof -
  let ?c = "sample_table[1 := sample_slot]"
  have "first_from (\<lambda>i. \<not> slot_active (?c ! i)) 1 (MAX_CAPABILITIES - 1) = Some (Suc 1)"
    by (rule first_from_second)
      (simp_all add: sample_table_def MAX_CAPABILITIES_def capability_slot_default_def
        sample_slot_def new_slot_def)
  then have first: "first_from (\<lambda>i. \<not> slot_active (?c ! i)) 1 (MAX_CAPABILITIES - 1) = Some 2"
    by (simp add: numeral_2_eq_2)
  have caps: "s_capabilities sample_issued = Some ?c" and obj: "objs sample_issued 7 = Some (sample_target\<lparr>ko_ref := 2\<rparr>)"
    and tab: "s_lookup_table sample_issued ! 1 = Some 9"
    by (simp_all add: sample_issued_def sample_ready_def LOOKUP_TABLE_SIZE_def)
  have get: "kref_try_get 2 = Done (3, True)"
    by (simp add: kref_try_get_def KREF_LIMIT_def word_le_nat_alt)
  have "mask_has (token_rights sample_token) cr_read"
    by (simp add: sample_token_def sample_rights_def mask_has_def cr_read_def cr_delegate_def)
  then have valid: "validate_slot sample_token cr_read 3 True sample_issued = Done (Inr 7)"
    using obj sample_slot_for
    by (simp add: validate_slot_Inr sample_slot_def new_slot_def sample_target_def bobject_default_def)
  have "issue_locked sample_look True cap_domain 5 cr_read 4 sample_issued =
      Done (sample_delegated, Inr (token_make cap_domain 2 1 cr_read))"
    using first tab obj caps get
    by (simp add: issue_locked_def ensure_capabilities_locked_def lookup_kobject_def sample_look_def
        cap_domain_def LOOKUP_TABLE_SIZE_def sample_target_def bobject_default_def bobject_try_get_def
        Let_def)
      (simp add: sample_delegated_def slot_upd_def upd_obj_def sample_issued_def sample_target_def
        bobject_default_def new_slot_def cap_domain_def sample_table_def MAX_CAPABILITIES_def
        capability_slot_default_def)
  then show ?thesis
    using valid sample_slot_for obj
    by (simp add: cap_duplicate_for_def reissue_def sample_slot_def new_slot_def sample_rights_def
        sample_target_def cr_read_def cr_delegate_def)
qed

definition sample_released :: cap_state where
  "sample_released = sample_ready\<lparr>s_capabilities := Some (sample_table[1 := retired sample_slot])\<rparr>"

lemma sample_retire_put:
  "bobject_put kernel_fin 7 (retire_slot 1 sample_slot sample_issued) = Done sample_released"
proof -
  have "objs (retire_slot 1 sample_slot sample_issued) 7 = Some (sample_target\<lparr>ko_ref := 2\<rparr>)"
    by (simp add: retire_slot_def sample_issued_def)
  from bobject_put_shared [OF this, of kernel_fin] show ?thesis
    by (simp add: sample_target_def bobject_default_def retire_slot_def slot_upd_def
        upd_obj_def sample_issued_def sample_released_def sample_ready_def sample_boot_def)
qed

lemma sample_release: "cap_release kernel_fin sample_token sample_issued = Done (sample_released, Inr ())"
proof -
  have "slot_target sample_slot = Some 7"
    by (simp add: sample_slot_def new_slot_def)
  then show ?thesis
    using sample_retire_put sample_slot_for
    by (simp add: cap_release_def token_ok_iff sample_token_def cap_domain_def cap_none_def)
qed

section \<open>Properties\<close>

text \<open>
  Token layout: a 64-bit token is exactly its four 16-bit fields. Packing type, object
  identifier, generation and rights yields the token whose extracted fields are those four
  values, and no other, so packing and unpacking are inverse to each other.
\<close>

theorem token_fields_roundtrip:
  "token_make ty obj_id gen rights = t \<longleftrightarrow>
     token_type t = ty \<and> token_object_id t = obj_id \<and> token_generation t = gen \<and> token_rights t = rights"
  using token_make_of_fields [of t] by auto

text \<open>
  C2. No dangling capability: in every state reached from boot by the operations of the table,
  interleaved with reference and lifecycle operations of the rest of the kernel, each active
  slot points to a live object whose reference count is at least the number of active slots
  that point to it. The finalizer is assumed to work on its own object only.
\<close>

theorem capability_targets_stay_referenced:
  assumes "cap_boot s0" and "fin_local call_fin" and "cap_reach look call_fin s0 s"
    and "s_capabilities s = Some caps" and "i < MAX_CAPABILITIES" and "slot_active (caps ! i)"
  shows "\<exists>a b. slot_target (caps ! i) = Some a \<and> objs s a = Some b \<and>
               card {j. j < MAX_CAPABILITIES \<and> slot_active (caps ! j) \<and> slot_target (caps ! j) = Some a}
                 \<le> unat (ko_ref b)"
proof -
  have ok: "slots_ok caps (objs s)"
    using cap_inv_reach [OF assms(3,1,2)] assms(4) by (simp add: cap_inv_def)
  then have len: "length caps = MAX_CAPABILITIES" by (simp add: slots_ok_def)
  show ?thesis
    by (rule slots_okD [OF ok assms(5,6)]) (auto simp: refs_held_def holds_def len)
qed

theorem capability_targets_stay_referenced_witness:
  "\<exists>b. objs sample_issued 7 = Some b \<and>
       card {j. j < MAX_CAPABILITIES \<and> slot_active ((sample_table[1 := sample_slot]) ! j) \<and>
                slot_target ((sample_table[1 := sample_slot]) ! j) = Some 7} \<le> unat (ko_ref b)"
proof -
  have "s_capabilities sample_issued = Some (sample_table[1 := sample_slot])"
    and "(1::nat) < MAX_CAPABILITIES" and "slot_active ((sample_table[1 := sample_slot]) ! 1)"
    and tgt: "slot_target ((sample_table[1 := sample_slot]) ! 1) = Some 7"
    by (simp_all add: sample_issued_def sample_table_def MAX_CAPABILITIES_def sample_slot_def new_slot_def)
  then show ?thesis
    using capability_targets_stay_referenced [OF sample_boot_ok fin_local_kernel sample_reach, of
        "sample_table[1 := sample_slot]" 1] by auto
qed

text \<open>
  C6. Delegation attenuates: when \<open>cap_duplicate_for\<close> hands out a token, the source token was
  valid for the source domain, the new token has the same type and at most the source's
  rights, a different owner is possible only when the source carries the delegate right, and
  the new token validates for the new owner with exactly the requested rights.
\<close>

theorem delegation_attenuates:
  assumes "cap_inv s" and "cap_duplicate_for look alloc_ok source rights d owner s = Done (s', Inr t)"
  shows "cap_validate_generic_for source rights d s = Done (Inr ()) \<and>
         token_type t = token_type source \<and> token_rights t = rights \<and>
         mask_has (token_rights source) (token_rights t) \<and>
         (owner = d \<or> mask_has (token_rights source) cr_delegate) \<and>
         cap_validate_generic_for t rights owner s' = Done (Inr ())"
proof -
  obtain a where v: "validate_slot source rights d True s = Done (Inr a)"
      and re: "reissue look alloc_ok source a rights owner s = Done (s', Inr t)"
      and del: "owner = d \<or> mask_has (token_rights source) cr_delegate"
    using cap_duplicate_for_Inr [OF assms(2)] by blast
  obtain a' where "validate_slot t rights owner True s' = Done (Inr a')"
      and "token_type t = token_type source" and "token_rights t = rights"
    by (rule reissue_slot [OF re]) (use issued_token_valid [OF assms(1)] in metis)
  moreover have "mask_has (token_rights source) rights"
    using v by (auto simp: validate_slot_Inr)
  ultimately show ?thesis
    using v del by (simp add: cap_validate_generic_for_def)
qed

theorem delegation_attenuates_witness:
  "cap_validate_generic_for (token_make cap_domain 2 1 cr_read) cr_read 4 sample_delegated = Done (Inr ())"
  using delegation_attenuates [OF sample_inv sample_duplicate] by simp



text \<open>
  C19. Domain revocation is exact: \<open>cap_revoke_for_domain\<close> retires precisely the active slots
  that the domain owns or that name the domain object itself, leaves every other slot as it
  was, and returns how many slots it retired.
\<close>

theorem revoke_for_domain_exact:
  assumes "cap_inv s" and "fin_local call_fin" and "s_capabilities s = Some caps"
    and "cap_revoke_for_domain call_fin d s = Done (s', k)"
  shows "\<exists>caps'. s_capabilities s' = Some caps' \<and> length caps' = MAX_CAPABILITIES \<and>
           (\<forall>j < MAX_CAPABILITIES.
              caps' ! j = (if domain_hit d (objs s) (caps ! j) then retired (caps ! j) else caps ! j)) \<and>
           unat k = card {j. j < MAX_CAPABILITIES \<and> domain_hit d (objs s) (caps ! j)}"
proof -
  let ?P = "domain_hit d (objs s)"
  have ok: "slots_ok caps (objs s)" and len: "length caps = MAX_CAPABILITIES"
    using assms(1,3) by (auto simp: cap_inv_def slots_ok_def)
  then have zero: "\<not> ?P (caps ! 0)"
    using slots_okD [OF ok, of 0] by (auto simp: domain_hit_def MAX_CAPABILITIES_def)
  have "s_capabilities s' = Some (swept ?P 1 (MAX_CAPABILITIES - 1) caps)"
      and k: "k = of_nat (swept_count ?P 1 (MAX_CAPABILITIES - 1) caps)"
    using dom.sweep_effect [OF assms(1,2,3), of 1 "MAX_CAPABILITIES - 1" d 0 s' k] assms(3,4)
    by (simp_all add: cap_revoke_for_domain_def revoke_domain_loop_sweep MAX_CAPABILITIES_def)
  moreover have "swept ?P 1 (MAX_CAPABILITIES - 1) caps ! j = (if ?P (caps ! j) then retired (caps ! j) else caps ! j)"
    if "j < MAX_CAPABILITIES" for j
    using that len zero by (cases "j = 0") (auto simp: nth_swept)
  moreover have "unat k = card {j. j < MAX_CAPABILITIES \<and> ?P (caps ! j)}"
  proof -
    have "{j. 1 \<le> j \<and> j < 1 + (MAX_CAPABILITIES - 1) \<and> ?P (caps ! j)} = {j. j < MAX_CAPABILITIES \<and> ?P (caps ! j)}"
      using zero by (auto simp: MAX_CAPABILITIES_def Suc_le_eq intro: gr0I)
    moreover have "card {j. j < MAX_CAPABILITIES \<and> ?P (caps ! j)} \<le> card {j. j < MAX_CAPABILITIES}"
      by (rule card_mono) auto
    ultimately show ?thesis
      by (simp add: k swept_count_def MAX_CAPABILITIES_def unat_of_nat take_bit_eq_mod)
  qed
  ultimately show ?thesis
    using len by auto
qed

theorem revoke_for_domain_exact_witness:
  "cap_revoke_for_domain kernel_fin 3 sample_issued = Done (sample_released, 1) \<and>
   unat (1::u32) = card {j. j < MAX_CAPABILITIES \<and>
       domain_hit 3 (objs sample_issued) ((sample_table[1 := sample_slot]) ! j)}"
proof -
  have caps: "s_capabilities sample_issued = Some (sample_table[1 := sample_slot])"
    by (simp add: sample_issued_def)
  have "sweep (domain_test 3) kernel_fin (Suc 1) (MAX_CAPABILITIES - 2) 1 sample_released =
      Done (sample_released, 1)"
    by (rule dom.sweep_idle [where caps = "sample_table[1 := retired sample_slot]"])
      (simp_all add: sample_released_def sample_table_def capability_slot_default_def MAX_CAPABILITIES_def)
  moreover have "MAX_CAPABILITIES - 1 = Suc (MAX_CAPABILITIES - 2)"
    by (simp add: MAX_CAPABILITIES_def)
  moreover have "(sample_table[1 := sample_slot]) ! 1 = sample_slot"
    by (simp add: sample_table_def MAX_CAPABILITIES_def)
  moreover have "domain_test 3 sample_issued sample_slot = Done True"
    by (simp add: domain_test_def sample_slot_def new_slot_def sample_issued_def)
  ultimately have "cap_revoke_for_domain kernel_fin 3 sample_issued = Done (sample_released, 1)"
    using sample_retire_put caps
    by (simp add: cap_revoke_for_domain_def revoke_domain_loop_sweep)
      (simp add: sample_slot_def new_slot_def)
  then show ?thesis
    using revoke_for_domain_exact [OF sample_inv fin_local_kernel caps] by blast
qed

end
