(* ===== verification/ZX_Authorize.thy ===== *)
theory ZX_Authorize
  imports ZX_Domain
begin

text \<open>
  The authorization check every nucleus call passes through
  (\<open>zxfoundation/dgp/authorize.zcomponent\<close>): the rights an operation needs, the extra
  arguments it checks, and the single-use lease a successful check returns. A lease points
  to the two object headers; reading them again goes through the object store.
\<close>

section \<open>Types\<close>

datatype operation_kind =
    op_none | domain_create | domain_destroy | domain_exit | domain_info | domain_query
  | strand_create | address_space_create | gate_create | gate_destroy | gate_entry
  | portal_create | portal_destroy | io_bind | io_unbind | io_submit | io_irq_bind
  | io_dma_extent | io_completion_dequeue | op_signal_register | signal_poll | signal_ack
  | signal_send | signal_mask_set | signal_mask_get | signal_wait | mem_alloc | mem_free
  | mem_map | mem_unmap | mem_protect | mem_share | op_cap_acquire | op_cap_release
  | op_cap_validate | op_cap_revoke | time_yield | time_deadline | time_now | console_write
  | register_service | lookup_service | unregister_service | strand_set_policy
  | strand_set_affinity | strand_query_state | ipc_endpoint_create | ipc_endpoint_destroy
  | ipc_send | ipc_receive | shm_export | shm_import | shm_map | policy_server_register
  | policy_server_unregister

record authorization_metadata =
  requested_rights :: isolation_rights
  target_va_start :: u64
  target_va_end :: u64
  gate_id :: u32

record authorization_lease =
  lease_caller :: "addr option"
  lease_target :: "addr option"
  caller_generation :: u32
  target_generation :: u32
  lease_operation :: operation_kind
  lease_rights :: isolation_rights
  consumed :: bool

section \<open>Leases\<close>

definition points_to_active :: "(addr \<Rightarrow> bobject option) \<Rightarrow> addr \<Rightarrow> u32 \<Rightarrow> bool exec" where
  "points_to_active h a generation =
     (case h a of
        None \<Rightarrow> Trap
      | Some b \<Rightarrow> Done (ko_generation b = generation \<and> ko_state b = Active))"

definition lease_valid :: "(addr \<Rightarrow> bobject option) \<Rightarrow> authorization_lease \<Rightarrow> bool exec" where
  "lease_valid h l =
     (if consumed l then Done False
      else case (lease_caller l, lease_target l) of
        (Some c, Some t) \<Rightarrow>
          exec_bind (points_to_active h c (caller_generation l))
            (\<lambda>c_ok. exec_bind (points_to_active h t (target_generation l))
               (\<lambda>t_ok. Done (c_ok \<and> t_ok)))
      | _ \<Rightarrow> Done False)"

definition lease_consume ::
  "(addr \<Rightarrow> bobject option) \<Rightarrow> authorization_lease \<Rightarrow> (authorization_lease \<times> bool) exec" where
  "lease_consume h l =
     exec_bind (lease_valid h l)
       (\<lambda>v. if \<not> v then Done (l, False) else Done (l\<lparr>consumed := True\<rparr>, True))"

section \<open>The check\<close>

definition validate_common :: "percpu_sync \<Rightarrow> bool \<Rightarrow> domain \<Rightarrow> domain \<Rightarrow> unit expected" where
  "validate_common pcp irqs_enabled caller target =
     (if ko_state (dom_ko caller) \<noteq> Active then Inl (from_generic invalid_arg)
      else if ko_state (dom_ko target) \<noteq> Active then Inl (from_generic invalid_arg)
      else case validate_authority_lookup
                  (contract_snapshot pcp irqs_enabled lc_thread tp_none (ko_id (dom_ko caller))) of
        Inl e \<Rightarrow> Inl e
      | Inr _ \<Rightarrow> Inr ())"

primrec required_rights_for_op :: "operation_kind \<Rightarrow> isolation_rights" where
  "required_rights_for_op domain_create = rights_lifecycle"
| "required_rights_for_op domain_destroy = rights_lifecycle"
| "required_rights_for_op gate_create = rights_lifecycle"
| "required_rights_for_op gate_destroy = rights_lifecycle"
| "required_rights_for_op portal_destroy = rights_lifecycle"
| "required_rights_for_op portal_create = rights_lifecycle OR rights_share"
| "required_rights_for_op strand_create = rights_lifecycle OR rights_sched"
| "required_rights_for_op address_space_create = rights_lifecycle"
| "required_rights_for_op ipc_endpoint_create = rights_signal"
| "required_rights_for_op ipc_endpoint_destroy = rights_signal"
| "required_rights_for_op ipc_send = rights_signal"
| "required_rights_for_op ipc_receive = rights_signal"
| "required_rights_for_op shm_export = rights_share"
| "required_rights_for_op shm_import = rights_map"
| "required_rights_for_op shm_map = rights_map OR rights_share"
| "required_rights_for_op policy_server_register = rights_service"
| "required_rights_for_op policy_server_unregister = rights_service"
| "required_rights_for_op io_bind = rights_io"
| "required_rights_for_op io_unbind = rights_io"
| "required_rights_for_op io_submit = rights_io"
| "required_rights_for_op io_irq_bind = rights_io"
| "required_rights_for_op io_dma_extent = rights_io"
| "required_rights_for_op io_completion_dequeue = rights_io"
| "required_rights_for_op op_signal_register = rights_signal"
| "required_rights_for_op signal_poll = rights_signal"
| "required_rights_for_op signal_ack = rights_signal"
| "required_rights_for_op signal_send = rights_signal"
| "required_rights_for_op signal_mask_set = rights_signal"
| "required_rights_for_op signal_mask_get = rights_signal"
| "required_rights_for_op signal_wait = rights_signal"
| "required_rights_for_op mem_alloc = rights_map"
| "required_rights_for_op mem_free = rights_map"
| "required_rights_for_op mem_map = rights_map"
| "required_rights_for_op mem_unmap = rights_map"
| "required_rights_for_op mem_protect = rights_map"
| "required_rights_for_op mem_share = rights_share"
| "required_rights_for_op gate_entry = rights_enter"
| "required_rights_for_op op_cap_acquire = rights_none"
| "required_rights_for_op op_cap_release = rights_none"
| "required_rights_for_op op_cap_validate = rights_none"
| "required_rights_for_op op_cap_revoke = rights_delegate OR rights_lifecycle"
| "required_rights_for_op time_yield = rights_none"
| "required_rights_for_op time_deadline = rights_none"
| "required_rights_for_op time_now = rights_none"
| "required_rights_for_op console_write = rights_console"
| "required_rights_for_op register_service = rights_service"
| "required_rights_for_op lookup_service = rights_service"
| "required_rights_for_op unregister_service = rights_service OR rights_lifecycle"
| "required_rights_for_op domain_exit = rights_none"
| "required_rights_for_op domain_info = rights_none"
| "required_rights_for_op domain_query = rights_debug"
| "required_rights_for_op strand_set_policy = rights_sched"
| "required_rights_for_op strand_set_affinity = rights_sched"
| "required_rights_for_op strand_query_state = rights_sched OR rights_debug"
| "required_rights_for_op op_none = rights_none"

definition validate_op_metadata :: "operation_kind \<Rightarrow> authorization_metadata \<Rightarrow> unit expected" where
  "validate_op_metadata op meta =
     (if op \<in> {portal_create, mem_map, mem_share, mem_unmap, mem_protect, mem_free, shm_export}
      then if target_va_start meta \<ge> target_va_end meta then Inl (from_generic invalid_arg) else Inr ()
      else if op \<in> {gate_entry, io_irq_bind}
      then if gate_id meta = 0 then Inl (from_generic invalid_arg) else Inr ()
      else Inr ())"

definition authorize ::
  "percpu_sync \<Rightarrow> bool \<Rightarrow> addr \<Rightarrow> domain \<Rightarrow> addr \<Rightarrow> domain \<Rightarrow> operation_kind \<Rightarrow>
   authorization_metadata \<Rightarrow> authorization_lease expected" where
  "authorize pcp irqs_enabled ca caller ta target op meta =
     (case validate_common pcp irqs_enabled caller target of
        Inl e \<Rightarrow> Inl e
      | Inr _ \<Rightarrow>
          (case validate_op_metadata op meta of
             Inl e \<Rightarrow> Inl e
           | Inr _ \<Rightarrow>
               let required = required_rights_for_op op
               in if required \<noteq> rights_none
                     \<and> \<not> has_all_rights (dom_granted_rights caller) (requested_rights meta OR required)
                  then Inl (from_memory capability_invalid)
                  else Inr \<lparr>lease_caller = Some ca, lease_target = Some ta,
                            caller_generation = ko_generation (dom_ko caller),
                            target_generation = ko_generation (dom_ko target),
                            lease_operation = op, lease_rights = required, consumed = False\<rparr>))"

section \<open>Operations that need no right\<close>

definition unprivileged_ops :: "operation_kind set" where
  "unprivileged_ops =
     {op_none, domain_exit, domain_info, op_cap_acquire, op_cap_release, op_cap_validate, time_yield,
      time_deadline, time_now}"

lemma required_rights_none_iff: "required_rights_for_op op = rights_none \<longleftrightarrow> op \<in> unprivileged_ops"
  by (cases op) (simp_all add: unprivileged_ops_def rights_consts)

lemma authorize_Inr:
  "authorize pcp irqs ca caller ta target op meta = Inr l \<longleftrightarrow>
     ko_state (dom_ko caller) = Active \<and> ko_state (dom_ko target) = Active \<and>
     validate_op_metadata op meta = Inr () \<and>
     (op \<in> unprivileged_ops \<or>
      has_all_rights (dom_granted_rights caller) (requested_rights meta) \<and>
      has_all_rights (dom_granted_rights caller) (required_rights_for_op op)) \<and>
     l = \<lparr>lease_caller = Some ca, lease_target = Some ta,
          caller_generation = ko_generation (dom_ko caller),
          target_generation = ko_generation (dom_ko target),
          lease_operation = op, lease_rights = required_rights_for_op op, consumed = False\<rparr>"
  by (auto simp: authorize_def validate_common_def validate_authority_lookup_def
      contract_snapshot_def Let_def required_rights_none_iff has_all_rights_def
      mask_has_or split: sum.splits if_splits)

section \<open>Properties\<close>


definition sample_caller :: domain where
  "sample_caller =
     domain_default\<lparr>dom_ko := bobject_default\<lparr>ko_id := 3, ko_state := Active, ko_generation := 4\<rparr>,
       dom_granted_rights := rights_map OR rights_share\<rparr>"

definition sample_request :: authorization_metadata where
  "sample_request =
     \<lparr>requested_rights = rights_map, target_va_start = 0x1000, target_va_end = 0x3000, gate_id = 0\<rparr>"

definition sample_lease :: authorization_lease where
  "sample_lease =
     \<lparr>lease_caller = Some 8, lease_target = Some 8, caller_generation = 4, target_generation = 4,
      lease_operation = mem_map, lease_rights = rights_map, consumed = False\<rparr>"


text \<open>
  C31. A lease is good for one use while its objects stand still: as long as both headers keep
  their generation and stay active, the first \<open>consume\<close> of a fresh lease succeeds, and every
  later one fails; when one of the two objects has left the active state or has been replaced
  (its generation differs), even the first fails and the lease stays unconsumed.
\<close>

theorem lease_consumed_once:
  assumes "authorize pcp irqs ca caller ta target op meta = Inr l"
    and "h ca = Some cb" and "h ta = Some tb"
  shows "lease_consume h l =
           (if ko_generation cb = ko_generation (dom_ko caller) \<and> ko_state cb = Active \<and>
               ko_generation tb = ko_generation (dom_ko target) \<and> ko_state tb = Active
            then Done (l\<lparr>consumed := True\<rparr>, True) else Done (l, False)) \<and>
         lease_consume h' (l\<lparr>consumed := True\<rparr>) = Done (l\<lparr>consumed := True\<rparr>, False)"
  using assms
  by (auto simp: authorize_Inr lease_consume_def lease_valid_def points_to_active_def)

theorem lease_consumed_once_witness:
  "lease_consume (Map.empty(8 := Some (dom_ko sample_caller))) sample_lease =
     Done (sample_lease\<lparr>consumed := True\<rparr>, True)"
proof -
  have "authorize \<lparr>pc_cpu_id = 0, pc_lock_depth = 0, in_rcu_read_side = 0\<rparr> True 8 sample_caller 8
      sample_caller mem_map sample_request = Inr sample_lease"
    by (simp add: authorize_Inr sample_caller_def sample_request_def sample_lease_def
        unprivileged_ops_def has_all_rights_def mask_has_def rights_consts validate_op_metadata_def
        word_le_nat_alt)
  from lease_consumed_once [OF this, of "Map.empty(8 := Some (dom_ko sample_caller))"]
  show ?thesis
    by (simp add: sample_caller_def)
qed

end
