(* ===== verification/ZX_Sha256.thy ===== *)
theory ZX_Sha256
  imports ZX_Base
begin

text \<open>
  SHA-256: the kernel's streaming implementation (\<open>crypto/sha256.zcomponent/core.cxx\<close>) and
  the boot loader's own copy with its hardware path (\<open>zxfl/common/sha256.c\<close>).

  The buffer length is a number; it never exceeds 64, and the one subtraction from it writes
  the 32-bit wrap-around out. The machine instructions KLMD and KIMD are parameters.
\<close>

section \<open>The block function\<close>

definition sha256_K :: "u32 list" where
  "sha256_K = concat
      [[0x428a2f98, 0x71374491, 0xb5c0fbcf, 0xe9b5dba5],
       [0x3956c25b, 0x59f111f1, 0x923f82a4, 0xab1c5ed5],
       [0xd807aa98, 0x12835b01, 0x243185be, 0x550c7dc3],
       [0x72be5d74, 0x80deb1fe, 0x9bdc06a7, 0xc19bf174],
       [0xe49b69c1, 0xefbe4786, 0x0fc19dc6, 0x240ca1cc],
       [0x2de92c6f, 0x4a7484aa, 0x5cb0a9dc, 0x76f988da],
       [0x983e5152, 0xa831c66d, 0xb00327c8, 0xbf597fc7],
       [0xc6e00bf3, 0xd5a79147, 0x06ca6351, 0x14292967],
       [0x27b70a85, 0x2e1b2138, 0x4d2c6dfc, 0x53380d13],
       [0x650a7354, 0x766a0abb, 0x81c2c92e, 0x92722c85],
       [0xa2bfe8a1, 0xa81a664b, 0xc24b8b70, 0xc76c51a3],
       [0xd192e819, 0xd6990624, 0xf40e3585, 0x106aa070],
       [0x19a4c116, 0x1e376c08, 0x2748774c, 0x34b0bcb5],
       [0x391c0cb3, 0x4ed8aa4a, 0x5b9cca4f, 0x682e6ff3],
       [0x748f82ee, 0x78a5636f, 0x84c87814, 0x8cc70208],
       [0x90befffa, 0xa4506ceb, 0xbef9a3f7, 0xc67178f2]]"

definition rotr32 :: "u32 \<Rightarrow> nat \<Rightarrow> u32" where
  "rotr32 x n = drop_bit n x OR push_bit (32 - n) x"

definition be32_word :: "u8 list \<Rightarrow> nat \<Rightarrow> u32" where
  "be32_word block i =
     push_bit 24 (ucast (block ! (i * 4 + 0))) OR push_bit 16 (ucast (block ! (i * 4 + 1))) OR
     push_bit 8 (ucast (block ! (i * 4 + 2))) OR ucast (block ! (i * 4 + 3))"

definition schedule_word :: "u32 list \<Rightarrow> nat \<Rightarrow> u32" where
  "schedule_word w i =
     (let s0 = rotr32 (w ! (i - 15)) 7 XOR rotr32 (w ! (i - 15)) 18 XOR drop_bit 3 (w ! (i - 15));
          s1 = rotr32 (w ! (i - 2)) 17 XOR rotr32 (w ! (i - 2)) 19 XOR drop_bit 10 (w ! (i - 2))
      in w ! (i - 16) + s0 + w ! (i - 7) + s1)"

fun extend_schedule :: "nat \<Rightarrow> u32 list \<Rightarrow> u32 list" where
  "extend_schedule 0 w = w"
| "extend_schedule (Suc n) w = extend_schedule n (w @ [schedule_word w (length w)])"

type_synonym working = "u32 \<times> u32 \<times> u32 \<times> u32 \<times> u32 \<times> u32 \<times> u32 \<times> u32"

fun sha256_round :: "u32 list \<Rightarrow> nat \<Rightarrow> working \<Rightarrow> working" where
  "sha256_round w i (a, b, c, d, e, f, g, h) =
     (let s1 = rotr32 e 6 XOR rotr32 e 11 XOR rotr32 e 25;
          ch = (e AND f) XOR (NOT e AND g);
          t1 = h + s1 + ch + sha256_K ! i + w ! i;
          s0 = rotr32 a 2 XOR rotr32 a 13 XOR rotr32 a 22;
          maj = (a AND b) XOR (a AND c) XOR (b AND c);
          t2 = s0 + maj
      in (t1 + t2, a, b, c, d + t1, e, f, g))"

fun add_working :: "u32 list \<Rightarrow> working \<Rightarrow> u32 list" where
  "add_working st (a, b, c, d, e, f, g, h) =
     [st ! 0 + a, st ! 1 + b, st ! 2 + c, st ! 3 + d, st ! 4 + e, st ! 5 + f, st ! 6 + g, st ! 7 + h]"

definition compress :: "u32 list \<Rightarrow> u8 list \<Rightarrow> u32 list" where
  "compress st block =
     (let w = extend_schedule 48 (map (be32_word block) [0..<16])
      in add_working st
           (fold (sha256_round w) [0..<64]
             (st ! 0, st ! 1, st ! 2, st ! 3, st ! 4, st ! 5, st ! 6, st ! 7)))"

section \<open>The streaming context\<close>

record zxfl_sha256_ctx =
  sha_state :: "u32 list"
  bit_count :: u64
  sha_buf :: "u8 list"
  buf_len :: nat

record sha256_ctx = zxfl_sha256_ctx +
  finalized :: bool

definition SHA256_DIGEST_SIZE :: nat where "SHA256_DIGEST_SIZE = 32"

definition sha256_H0 :: "u32 list" where
  "sha256_H0 = [0x6a09e667, 0xbb67ae85, 0x3c6ef372, 0xa54ff53a, 0x510e527f, 0x9b05688c, 0x1f83d9ab, 0x5be0cd19]"

definition sha256_block :: "'a zxfl_sha256_ctx_scheme \<Rightarrow> u8 list \<Rightarrow> 'a zxfl_sha256_ctx_scheme" where
  "sha256_block ctx block = ctx\<lparr>sha_state := compress (sha_state ctx) block\<rparr>"

definition sha256_init :: "sha256_ctx \<Rightarrow> sha256_ctx" where
  "sha256_init ctx = ctx\<lparr>sha_state := sha256_H0, bit_count := 0, buf_len := 0, finalized := False\<rparr>"

definition u32_sub :: "nat \<Rightarrow> nat \<Rightarrow> nat" where
  "u32_sub a b = (a + 2 ^ 32 - b) mod 2 ^ 32"

fun copy_in :: "u8 list \<Rightarrow> nat \<Rightarrow> u8 list \<Rightarrow> u8 list" where
  "copy_in buf k [] = buf"
| "copy_in buf k (x # xs) = copy_in (buf[k := x]) (Suc k) xs"

text \<open>One iteration: copy \<open>xs\<close> into the buffer and compress it when it is full.\<close>

definition absorb :: "u8 list \<Rightarrow> 'a zxfl_sha256_ctx_scheme \<Rightarrow> 'a zxfl_sha256_ctx_scheme" where
  "absorb xs ctx =
     (let ctx1 = ctx\<lparr>sha_buf := copy_in (sha_buf ctx) (buf_len ctx) xs, buf_len := buf_len ctx + length xs\<rparr>
      in if buf_len ctx1 = 64 then (sha256_block ctx1 (sha_buf ctx1))\<lparr>buf_len := 0\<rparr> else ctx1)"

text \<open>
  The kernel's loop narrows the remaining byte count to 32 bits before it compares. It need
  not return, so it is a partial function.
\<close>

partial_function (option) sha256_update_loop :: "u8 list \<Rightarrow> sha256_ctx \<Rightarrow> sha256_ctx option" where
  "sha256_update_loop rest ctx =
     (if rest = [] then Some ctx
      else
        let space = u32_sub 64 (buf_len ctx);
            remaining32 = length rest mod 2 ^ 32;
            n = (if remaining32 < space then remaining32 else space)
        in sha256_update_loop (drop n rest) (absorb (take n rest) ctx))"

text \<open>The span has a pointer and a size; a null pointer is \<open>None\<close> with its claimed size.\<close>

datatype span = Null nat | Bytes "u8 list"

definition sha256_update :: "sha256_ctx \<Rightarrow> span \<Rightarrow> (sha256_ctx \<times> unit expected) option" where
  "sha256_update ctx data =
     (if finalized ctx then Some (ctx, Inl (from_crypto invalid_input))
      else case data of
        Null n \<Rightarrow> if n \<noteq> 0 then Some (ctx, Inl (from_crypto invalid_input)) else Some (ctx, Inr ())
      | Bytes xs \<Rightarrow>
          if xs = [] then Some (ctx, Inr ())
          else
            let max_bytes = (- 1 - bit_count ctx) div 8
            in if length xs > unat max_bytes then Some (ctx, Inl (from_crypto invalid_input))
               else
                 let ctx1 = ctx\<lparr>bit_count := bit_count ctx + of_nat (length xs) * 8\<rparr>
                 in map_option (\<lambda>ctx2. (ctx2, Inr ())) (sha256_update_loop xs ctx1))"

definition be64_bytes :: "u64 \<Rightarrow> u8 list" where
  "be64_bytes bits =
     [ucast (drop_bit 56 bits), ucast (drop_bit 48 bits), ucast (drop_bit 40 bits), ucast (drop_bit 32 bits),
      ucast (drop_bit 24 bits), ucast (drop_bit 16 bits), ucast (drop_bit 8 bits), ucast bits]"

definition be32_bytes :: "u32 \<Rightarrow> u8 list" where
  "be32_bytes x = [ucast (drop_bit 24 x), ucast (drop_bit 16 x), ucast (drop_bit 8 x), ucast x]"

definition serialize :: "u32 list \<Rightarrow> u8 list" where
  "serialize st = concat (map (\<lambda>i. be32_bytes (st ! i)) [0..<8])"

definition zero_fill :: "nat \<Rightarrow> 'a zxfl_sha256_ctx_scheme \<Rightarrow> 'a zxfl_sha256_ctx_scheme" where
  "zero_fill limit ctx =
     ctx\<lparr>sha_buf := copy_in (sha_buf ctx) (buf_len ctx) (replicate (limit - buf_len ctx) 0),
         buf_len := max limit (buf_len ctx)\<rparr>"

definition pad_and_compress :: "'a zxfl_sha256_ctx_scheme \<Rightarrow> 'a zxfl_sha256_ctx_scheme" where
  "pad_and_compress ctx =
     (let ctx1 = ctx\<lparr>sha_buf := (sha_buf ctx)[buf_len ctx := 0x80], buf_len := buf_len ctx + 1\<rparr>;
          ctx2 = (if buf_len ctx1 > 56
                  then let f = zero_fill 64 ctx1 in (sha256_block f (sha_buf f))\<lparr>buf_len := 0\<rparr>
                  else ctx1);
          ctx3 = zero_fill 56 ctx2;
          ctx4 = ctx3\<lparr>sha_buf := copy_in (sha_buf ctx3) 56 (be64_bytes (bit_count ctx3))\<rparr>
      in sha256_block ctx4 (sha_buf ctx4))"

definition sha256_final :: "sha256_ctx \<Rightarrow> sha256_ctx \<times> u8 list expected" where
  "sha256_final ctx =
     (if finalized ctx then (ctx, Inl (from_crypto invalid_input))
      else let ctx' = pad_and_compress ctx
           in (ctx'\<lparr>finalized := True\<rparr>, Inr (serialize (sha_state ctx'))))"

definition sha256_hash ::
  "(u32 list \<Rightarrow> u64 \<Rightarrow> u8 list \<Rightarrow> u32 list) \<Rightarrow> bool \<Rightarrow> sha256_ctx \<Rightarrow> u8 list \<Rightarrow> (u8 list expected) option" where
  "sha256_hash klmd has_msa uninit data =
     (if has_msa
      then let msg_bits = of_nat (length data) * 8 in Some (Inr (serialize (klmd sha256_H0 msg_bits data)))
      else
        case sha256_update (sha256_init uninit) (Bytes data) of
          None \<Rightarrow> None
        | Some (ctx, Inl e) \<Rightarrow> Some (Inl e)
        | Some (ctx, Inr _) \<Rightarrow> Some (snd (sha256_final ctx)))"

definition sha256_verify ::
  "(u32 list \<Rightarrow> u64 \<Rightarrow> u8 list \<Rightarrow> u32 list) \<Rightarrow> bool \<Rightarrow> sha256_ctx \<Rightarrow> u8 list \<Rightarrow> u8 list \<Rightarrow>
   (unit expected) option" where
  "sha256_verify klmd has_msa uninit data expected_digest =
     map_option
       (\<lambda>r. case r of
          Inl e \<Rightarrow> Inl e
        | Inr computed \<Rightarrow>
            if list_all (\<lambda>i. computed ! i = expected_digest ! i) [0..<SHA256_DIGEST_SIZE] then Inr ()
            else Inl (from_crypto hash_mismatch))
       (sha256_hash klmd has_msa uninit data)"

section \<open>The boot loader's copy\<close>

definition zxfl_K :: "u32 list" where
  "zxfl_K = concat
      [[0x428a2f98, 0x71374491, 0xb5c0fbcf, 0xe9b5dba5],
       [0x3956c25b, 0x59f111f1, 0x923f82a4, 0xab1c5ed5],
       [0xd807aa98, 0x12835b01, 0x243185be, 0x550c7dc3],
       [0x72be5d74, 0x80deb1fe, 0x9bdc06a7, 0xc19bf174],
       [0xe49b69c1, 0xefbe4786, 0x0fc19dc6, 0x240ca1cc],
       [0x2de92c6f, 0x4a7484aa, 0x5cb0a9dc, 0x76f988da],
       [0x983e5152, 0xa831c66d, 0xb00327c8, 0xbf597fc7],
       [0xc6e00bf3, 0xd5a79147, 0x06ca6351, 0x14292967],
       [0x27b70a85, 0x2e1b2138, 0x4d2c6dfc, 0x53380d13],
       [0x650a7354, 0x766a0abb, 0x81c2c92e, 0x92722c85],
       [0xa2bfe8a1, 0xa81a664b, 0xc24b8b70, 0xc76c51a3],
       [0xd192e819, 0xd6990624, 0xf40e3585, 0x106aa070],
       [0x19a4c116, 0x1e376c08, 0x2748774c, 0x34b0bcb5],
       [0x391c0cb3, 0x4ed8aa4a, 0x5b9cca4f, 0x682e6ff3],
       [0x748f82ee, 0x78a5636f, 0x84c87814, 0x8cc70208],
       [0x90befffa, 0xa4506ceb, 0xbef9a3f7, 0xc67178f2]]"

definition zxfl_schedule :: "u8 list \<Rightarrow> u32 list" where
  "zxfl_schedule block =
     fold (\<lambda>i w.
         let s0 = rotr32 (w ! (i - 15)) 7 XOR rotr32 (w ! (i - 15)) 18 XOR drop_bit 3 (w ! (i - 15));
             s1 = rotr32 (w ! (i - 2)) 17 XOR rotr32 (w ! (i - 2)) 19 XOR drop_bit 10 (w ! (i - 2))
         in w @ [w ! (i - 16) + s0 + w ! (i - 7) + s1])
       [16..<64] (map (be32_word block) [0..<16])"

fun zxfl_round :: "u32 list \<Rightarrow> nat \<Rightarrow> working \<Rightarrow> working" where
  "zxfl_round w i (a, b, c, d, e, f, g, h) =
     (let S1 = rotr32 e 6 XOR rotr32 e 11 XOR rotr32 e 25;
          ch = (e AND f) XOR (NOT e AND g);
          t1 = h + S1 + ch + zxfl_K ! i + w ! i;
          S0 = rotr32 a 2 XOR rotr32 a 13 XOR rotr32 a 22;
          maj = (a AND b) XOR (a AND c) XOR (b AND c);
          t2 = S0 + maj
      in (t1 + t2, a, b, c, d + t1, e, f, g))"

definition zxfl_sha256_block :: "zxfl_sha256_ctx \<Rightarrow> u8 list \<Rightarrow> zxfl_sha256_ctx" where
  "zxfl_sha256_block ctx block =
     (let st = sha_state ctx
      in ctx\<lparr>sha_state :=
           add_working st
             (fold (zxfl_round (zxfl_schedule block)) [0..<64]
               (st ! 0, st ! 1, st ! 2, st ! 3, st ! 4, st ! 5, st ! 6, st ! 7))\<rparr>)"

definition zxfl_sha256_init :: "zxfl_sha256_ctx \<Rightarrow> zxfl_sha256_ctx" where
  "zxfl_sha256_init ctx =
     ctx\<lparr>sha_state := [0x6a09e667, 0xbb67ae85, 0x3c6ef372, 0xa54ff53a, 0x510e527f, 0x9b05688c, 0x1f83d9ab,
                       0x5be0cd19],
         bit_count := 0, buf_len := 0\<rparr>"

partial_function (option) zxfl_update_loop :: "u8 list \<Rightarrow> zxfl_sha256_ctx \<Rightarrow> zxfl_sha256_ctx option" where
  "zxfl_update_loop p ctx =
     (if p = [] then Some ctx
      else
        let space = u32_sub 64 (buf_len ctx);
            n = (if length p < space then length p mod 2 ^ 32 else space);
            ctx1 = ctx\<lparr>sha_buf := copy_in (sha_buf ctx) (buf_len ctx) (take n p), buf_len := buf_len ctx + n\<rparr>
        in zxfl_update_loop (drop n p)
             (if buf_len ctx1 = 64 then (zxfl_sha256_block ctx1 (sha_buf ctx1))\<lparr>buf_len := 0\<rparr> else ctx1))"

definition zxfl_sha256_update :: "zxfl_sha256_ctx \<Rightarrow> u8 list \<Rightarrow> zxfl_sha256_ctx option" where
  "zxfl_sha256_update ctx data =
     zxfl_update_loop data (ctx\<lparr>bit_count := bit_count ctx + of_nat (length data) * 8\<rparr>)"

definition zxfl_sha256_final :: "zxfl_sha256_ctx \<Rightarrow> zxfl_sha256_ctx \<times> u8 list" where
  "zxfl_sha256_final ctx =
     (let ctx1 = ctx\<lparr>sha_buf := (sha_buf ctx)[buf_len ctx := 0x80], buf_len := buf_len ctx + 1\<rparr>;
          ctx2 = (if buf_len ctx1 > 56
                  then let f = zero_fill 64 ctx1 in (zxfl_sha256_block f (sha_buf f))\<lparr>buf_len := 0\<rparr>
                  else ctx1);
          ctx3 = zero_fill 56 ctx2;
          ctx4 = ctx3\<lparr>sha_buf := copy_in (sha_buf ctx3) 56 (be64_bytes (bit_count ctx3))\<rparr>;
          ctx5 = zxfl_sha256_block ctx4 (sha_buf ctx4)
      in (ctx5, serialize (sha_state ctx5)))"

definition zxfl_sha256_sw :: "zxfl_sha256_ctx \<Rightarrow> u8 list \<Rightarrow> u8 list option" where
  "zxfl_sha256_sw uninit data =
     map_option (\<lambda>ctx. snd (zxfl_sha256_final ctx)) (zxfl_sha256_update (zxfl_sha256_init uninit) data)"

text \<open>
  The hardware path. \<open>kimd\<close> stands for the instruction on a chaining value and a message
  segment; \<open>tail0\<close> is the uninitialised stack buffer. A store outside it traps.
\<close>

definition zxfl_sha256_hw ::
  "(u32 list \<Rightarrow> u8 list \<Rightarrow> u32 list) \<Rightarrow> u8 list \<Rightarrow> u8 list \<Rightarrow> u8 list" where
  "zxfl_sha256_hw kimd tail0 data =
     (let len = length data;
          st0 = [0x6a09e667, 0xbb67ae85, 0x3c6ef372, 0xa54ff53a, 0x510e527f, 0x9b05688c, 0x1f83d9ab, 0x5be0cd19];
          full = len - len mod 64;
          st1 = (if full \<noteq> 0 then kimd st0 (take full data) else st0);
          rem = len - full;
          tail1 = copy_in tail0 0 (drop full data);
          tail2 = tail1[rem := 0x80];
          block_bytes = (if rem \<le> 55 then 64 else 128);
          tail3 = copy_in tail2 (rem + 1) (replicate (block_bytes - 8 - (rem + 1)) 0);
          tail4 = copy_in tail3 (block_bytes - 8) (be64_bytes (of_nat len * 8))
      in serialize (kimd st1 (take block_bytes tail4)))"

definition kat_in :: "u8 list" where
  "kat_in = [0x61, 0x62, 0x63]"

definition kat_expect :: "u8 list" where
  "kat_expect =
     [0xba, 0x78, 0x16, 0xbf, 0x8f, 0x01, 0xcf, 0xea, 0x41, 0x41, 0x40, 0xde, 0x5d, 0xae, 0x22, 0x23,
      0xb0, 0x03, 0x61, 0xa3, 0x96, 0x17, 0x7a, 0x9c, 0xb4, 0x10, 0xff, 0x61, 0xf2, 0x00, 0x15, 0xad]"

text \<open>\<open>stfle\<close> is the facility list that \<open>stfle_detect\<close> stored, if it stored one.\<close>

definition STFLE_MAX_DWORDS :: nat where "STFLE_MAX_DWORDS = 32"
definition STFLE_BIT_MSA :: nat where "STFLE_BIT_MSA = 17"

definition stfle_has_facility :: "u64 list \<Rightarrow> nat \<Rightarrow> bool" where
  "stfle_has_facility fac_list n \<longleftrightarrow>
     (let dword_idx = n div 64; bit_pos = 63 - n mod 64
      in if dword_idx \<ge> STFLE_MAX_DWORDS then False
         else drop_bit bit_pos (fac_list ! dword_idx) AND 1 \<noteq> 0)"

definition zxfl_sha256_hw_selftest ::
  "(u32 list \<Rightarrow> u8 list \<Rightarrow> u32 list) \<Rightarrow> u8 list \<Rightarrow> u64 option \<Rightarrow> bool" where
  "zxfl_sha256_hw_selftest kimd tail0 stfle =
     (case stfle of
        None \<Rightarrow> False
      | Some fac \<Rightarrow>
          if \<not> stfle_has_facility [fac] STFLE_BIT_MSA then False
          else let out = zxfl_sha256_hw kimd tail0 kat_in
               in list_all (\<lambda>i. out ! i = kat_expect ! i) [0..<32])"

definition zxfl_sha256 ::
  "(u32 list \<Rightarrow> u8 list \<Rightarrow> u32 list) \<Rightarrow> u8 list \<Rightarrow> u64 option \<Rightarrow> zxfl_sha256_ctx \<Rightarrow> int \<Rightarrow> u8 list \<Rightarrow>
   (int \<times> u8 list) option" where
  "zxfl_sha256 kimd tail0 stfle uninit g_sha256_hw data =
     (let g = (if g_sha256_hw = 0 then if zxfl_sha256_hw_selftest kimd tail0 stfle then 1 else - 1
               else g_sha256_hw)
      in if g = 1 then Some (g, zxfl_sha256_hw kimd tail0 data)
         else map_option (Pair g) (zxfl_sha256_sw uninit data))"

section \<open>The specification\<close>

text \<open>Merkle-Damgard iteration over the whole blocks of a byte string, and the padding.\<close>

fun md_blocks :: "u32 list \<Rightarrow> u8 list \<Rightarrow> u32 list" where
  "md_blocks st xs = (if length xs < 64 then st else md_blocks (compress st (take 64 xs)) (drop 64 xs))"

definition sha256_padding :: "nat \<Rightarrow> u8 list" where
  "sha256_padding len = [0x80] @ replicate ((119 - len mod 64) mod 64) 0 @ be64_bytes (of_nat len * 8)"

definition sha256_spec :: "u8 list \<Rightarrow> u8 list" where
  "sha256_spec data = serialize (md_blocks sha256_H0 (data @ sha256_padding (length data)))"

declare md_blocks.simps [simp del]

section \<open>Blocks and copies\<close>

lemma md_blocks_short: "length xs < 64 \<Longrightarrow> md_blocks st xs = st"
  by (subst md_blocks.simps) simp

lemma md_blocks_one: "length xs = 64 \<Longrightarrow> md_blocks st (xs @ ys) = md_blocks (compress st xs) ys"
  by (subst md_blocks.simps) simp

lemma md_blocks_append:
  "length xs mod 64 = 0 \<Longrightarrow> md_blocks st (xs @ ys) = md_blocks (md_blocks st xs) ys"
proof (induction st xs rule: md_blocks.induct)
  case (1 st xs)
  show ?case
  proof (cases "length xs < 64")
    case True
    with 1(2) have "xs = []" by simp
    then show ?thesis by (simp add: md_blocks_short)
  next
    case False
    then have len: "length (take 64 xs) = 64" and m: "length (drop 64 xs) mod 64 = 0"
      using 1(2) by (simp_all add: mod_if)
    have "md_blocks st (xs @ ys) = md_blocks st (take 64 xs @ (drop 64 xs @ ys))"
      by (simp flip: append_assoc)
    also have "\<dots> = md_blocks (compress st (take 64 xs)) (drop 64 xs @ ys)"
      by (rule md_blocks_one [OF len])
    also have "\<dots> = md_blocks (md_blocks (compress st (take 64 xs)) (drop 64 xs)) ys"
      by (rule 1(1) [OF False m])
    also have "md_blocks (compress st (take 64 xs)) (drop 64 xs) = md_blocks st xs"
      using False by (subst (2) md_blocks.simps) simp
    finally show ?thesis .
  qed
qed

lemma md_blocks_tail:
  "length xs mod 64 = 0 \<Longrightarrow> length ys < 64 \<Longrightarrow> md_blocks st (xs @ ys) = md_blocks st xs"
  by (simp add: md_blocks_append md_blocks_short)

lemma copy_in_eq:
  "k + length xs \<le> length buf \<Longrightarrow> copy_in buf k xs = take k buf @ xs @ drop (k + length xs) buf"
proof (induction buf k xs rule: copy_in.induct)
  case (2 buf k x xs)
  then have "copy_in buf k (x # xs) = take (Suc k) (buf[k := x]) @ xs @ drop (Suc k + length xs) (buf[k := x])"
    by simp
  also have "take (Suc k) (buf[k := x]) = take k buf @ [x]"
    using 2(2) by (simp add: take_Suc_conv_app_nth)
  finally show ?case
    by simp
qed simp

lemma u32_sub_small [simp]: "b \<le> 64 \<Longrightarrow> 0 < b \<Longrightarrow> u32_sub 64 b = 64 - b" "u32_sub 64 0 = 64"
  by (simp_all add: u32_sub_def mod_if)

section \<open>What a context has absorbed\<close>

definition absorbed :: "'a zxfl_sha256_ctx_scheme \<Rightarrow> u8 list \<Rightarrow> bool" where
  "absorbed ctx msg \<longleftrightarrow>
     sha_state ctx = md_blocks sha256_H0 msg \<and> length (sha_buf ctx) = 64 \<and>
     buf_len ctx = length msg mod 64 \<and>
     take (buf_len ctx) (sha_buf ctx) = drop (64 * (length msg div 64)) msg"

lemma absorbed_split:
  assumes "absorbed ctx msg"
  obtains whole rest where "msg = whole @ rest" and "length whole mod 64 = 0" and "length rest < 64"
    and "buf_len ctx = length rest" and "take (length rest) (sha_buf ctx) = rest"
    and "sha_state ctx = md_blocks sha256_H0 whole" and "length (sha_buf ctx) = 64"
proof -
  define n where "n = 64 * (length msg div 64)"
  have len: "length msg = n + length msg mod 64"
    by (simp add: n_def)
  then have le: "n \<le> length msg"
    by linarith
  have r: "length (drop n msg) = length msg mod 64"
    using len by simp
  have m: "length (take n msg) mod 64 = 0"
    using le by (simp add: n_def)
  have lt: "length (drop n msg) < 64"
    unfolding r by simp
  have "md_blocks sha256_H0 msg = md_blocks sha256_H0 (take n msg)"
    using md_blocks_tail [OF m lt, of sha256_H0] by simp
  moreover have "buf_len ctx = length msg mod 64" "take (buf_len ctx) (sha_buf ctx) = drop n msg"
    using assms by (auto simp: absorbed_def n_def)
  moreover from this have "take (length (drop n msg)) (sha_buf ctx) = drop n msg"
    unfolding r by simp
  ultimately show thesis
    using assms that [OF append_take_drop_id [of n msg, symmetric] m lt] r by (simp add: absorbed_def)
qed

lemma absorbedI:
  assumes "length whole mod 64 = 0" and "length rest < 64" and "buf_len ctx = length rest"
    and "take (length rest) (sha_buf ctx) = rest" and "sha_state ctx = md_blocks sha256_H0 whole"
    and "length (sha_buf ctx) = 64"
  shows "absorbed ctx (whole @ rest)"
proof -
  obtain q where q: "length whole = 64 * q"
    using assms(1) by (auto simp: mod_eq_0_iff_dvd dvd_def)
  then have "(64 * q + length rest) mod 64 = length rest" and "64 * ((64 * q + length rest) div 64) = length whole"
    using assms(2) by simp_all
  then show ?thesis
    using assms md_blocks_tail [OF assms(1,2), of sha256_H0] q by (simp add: absorbed_def)
qed

lemma absorb_absorbed:
  assumes "absorbed ctx msg" and "buf_len ctx + length xs \<le> 64"
  shows "absorbed (absorb xs ctx) (msg @ xs) \<and> bit_count (absorb xs ctx) = bit_count ctx"
proof -
  obtain whole rest where w: "msg = whole @ rest" "length whole mod 64 = 0" "length rest < 64"
      "buf_len ctx = length rest" "take (length rest) (sha_buf ctx) = rest"
      "sha_state ctx = md_blocks sha256_H0 whole" "length (sha_buf ctx) = 64"
    by (rule absorbed_split [OF assms(1)])
  have copy: "copy_in (sha_buf ctx) (length rest) xs = rest @ xs @ drop (length rest + length xs) (sha_buf ctx)"
    using assms(2) w by (simp add: copy_in_eq)
  show ?thesis
  proof (cases "length rest + length xs = 64")
    case True
    have "absorbed (absorb xs ctx) ((whole @ rest @ xs) @ [])"
    proof (rule absorbedI)
      show "length (whole @ rest @ xs) mod 64 = 0"
        using w(2) True by simp
      have "md_blocks sha256_H0 (whole @ rest @ xs) = compress (md_blocks sha256_H0 whole) (rest @ xs)"
        using w(2) True by (simp add: md_blocks_append md_blocks_one [of "rest @ xs" _ "[]", simplified] md_blocks_short)
      then show "sha_state (absorb xs ctx) = md_blocks sha256_H0 (whole @ rest @ xs)"
        using True w copy by (simp add: absorb_def sha256_block_def)
    qed (use True w copy in \<open>simp_all add: absorb_def sha256_block_def\<close>)
    then show ?thesis
      using w(1) True w(4) by (simp add: absorb_def sha256_block_def)
  next
    case False
    have "absorbed (absorb xs ctx) (whole @ (rest @ xs))"
      by (rule absorbedI) (use False assms(2) w copy in \<open>auto simp: absorb_def\<close>)
    then show ?thesis
      using w(1) False w(4) by (simp add: absorb_def)
  qed
qed

section \<open>The update loops\<close>

lemma absorbed_set_count [simp]: "absorbed (ctx\<lparr>bit_count := b\<rparr>) msg = absorbed ctx msg"
  by (simp add: absorbed_def)

lemma absorbed_space: "absorbed ctx msg \<Longrightarrow> buf_len ctx < 64 \<and> u32_sub 64 (buf_len ctx) = 64 - buf_len ctx"
  by (cases "buf_len ctx = 0") (auto simp: absorbed_def)

lemma finalized_absorb [simp]: "finalized (absorb xs ctx) = finalized ctx"
  by (simp add: absorb_def sha256_block_def Let_def)

lemma sha256_update_loop_returns:
  assumes "absorbed ctx msg" and "length xs < 2 ^ 32"
  shows "\<exists>ctx'. sha256_update_loop xs ctx = Some ctx' \<and> absorbed ctx' (msg @ xs) \<and>
                bit_count ctx' = bit_count ctx \<and> finalized ctx' = finalized ctx"
  using assms
proof (induction "length xs" arbitrary: xs ctx msg rule: less_induct)
  case less
  show ?case
  proof (cases "xs = []")
    case True
    then show ?thesis using less.prems by (simp add: sha256_update_loop.simps)
  next
    case False
    define n where "n = (if length xs mod 2 ^ 32 < u32_sub 64 (buf_len ctx) then length xs mod 2 ^ 32
                         else u32_sub 64 (buf_len ctx))"
    have n: "0 < n" "buf_len ctx + n \<le> 64" "n \<le> length xs"
      using absorbed_space [OF less.prems(1)] False less.prems(2) by (auto simp: n_def)
    let ?c = "absorb (take n xs) ctx"
    have c: "absorbed ?c (msg @ take n xs)" "bit_count ?c = bit_count ctx"
      using absorb_absorbed [OF less.prems(1), of "take n xs"] n by simp_all
    have step: "sha256_update_loop xs ctx = sha256_update_loop (drop n xs) ?c"
      using False by (subst sha256_update_loop.simps) (simp add: n_def Let_def)
    have "\<exists>ctx'. sha256_update_loop (drop n xs) ?c = Some ctx' \<and> absorbed ctx' ((msg @ take n xs) @ drop n xs) \<and>
        bit_count ctx' = bit_count ?c \<and> finalized ctx' = finalized ?c"
      by (rule less.hyps [OF _ c(1)]) (use n less.prems(2) in simp_all)
    then show ?thesis
      using c(2) step by simp
  qed
qed

text \<open>
  The narrowed comparison makes the loop stop at the next multiple of \<open>2 ^ 32\<close> and stay there:
  a longer input is never finished.
\<close>

lemma sha256_update_loop_bound:
  "sha256_update_loop xs ctx = Some ctx' \<Longrightarrow> length xs < 2 ^ 32"
proof (induction rule: sha256_update_loop.raw_induct [rotated, consumes 1, case_names step])
  case (step rec xs ctx ctx')
  show ?case
  proof (cases "xs = []")
    case False
    define r where "r = length xs mod 2 ^ 32"
    define n where "n = (if r < u32_sub 64 (buf_len ctx) then r else u32_sub 64 (buf_len ctx))"
    have "rec (drop n xs) (absorb (take n xs) ctx) = Some ctx'"
      using step.hyps False by (auto simp: n_def r_def Let_def split: if_splits)
    from step.IH [OF this] have "length xs - n < 2 ^ 32"
      by simp
    moreover have "n \<le> r" "length xs = 2 ^ 32 * (length xs div 2 ^ 32) + r"
      by (simp_all add: n_def r_def)
    ultimately have "2 ^ 32 * (length xs div 2 ^ 32) < (2 ^ 32 :: nat)"
      by linarith
    then show ?thesis
      by (simp add: div_eq_0_iff)
  qed simp
qed

lemma extend_schedule_fold:
  "length w = k \<Longrightarrow> fold (\<lambda>i w. w @ [schedule_word w i]) [k..<k + n] w = extend_schedule n w"
proof (induction n arbitrary: k w)
  case (Suc n)
  have "[k..<k + Suc n] = k # [Suc k..<Suc k + n]"
    by (simp add: upt_rec)
  then show ?case
    using Suc.IH [of "w @ [schedule_word w k]" "Suc k"] Suc.prems by simp
qed simp

lemma zxfl_schedule_eq: "zxfl_schedule block = extend_schedule 48 (map (be32_word block) [0..<16])"
proof -
  have "length (map (be32_word block) [0..<16]) = 16"
    by simp
  from extend_schedule_fold [OF this, of 48]
  have "fold (\<lambda>i w. w @ [schedule_word w i]) [16..<64] (map (be32_word block) [0..<16]) =
      extend_schedule 48 (map (be32_word block) [0..<16])"
    by (simp only: numeral_plus_numeral semiring_norm)
  then show ?thesis
    by (simp only: zxfl_schedule_def schedule_word_def Let_def)
qed

lemma zxfl_round_eq: "zxfl_round = sha256_round"
proof -
  have "zxfl_K = sha256_K"
    by (simp add: zxfl_K_def sha256_K_def)
  then show ?thesis
    by (simp add: fun_eq_iff)
qed

lemma zxfl_sha256_block_eq: "zxfl_sha256_block = sha256_block"
  by (intro ext) (simp add: zxfl_sha256_block_def sha256_block_def compress_def zxfl_round_eq
      zxfl_schedule_eq Let_def)

lemma zxfl_update_loop_returns:
  assumes "absorbed ctx msg"
  shows "\<exists>ctx'. zxfl_update_loop xs ctx = Some ctx' \<and> absorbed ctx' (msg @ xs) \<and> bit_count ctx' = bit_count ctx"
  using assms
proof (induction "length xs" arbitrary: xs ctx msg rule: less_induct)
  case less
  show ?case
  proof (cases "xs = []")
    case True
    then show ?thesis using less.prems by (simp add: zxfl_update_loop.simps)
  next
    case False
    define n where "n = (if length xs < u32_sub 64 (buf_len ctx) then length xs mod 2 ^ 32
                         else u32_sub 64 (buf_len ctx))"
    have n: "0 < n" "buf_len ctx + n \<le> 64" "n \<le> length xs"
      using absorbed_space [OF less.prems(1)] False by (auto simp: n_def)
    let ?c = "absorb (take n xs) ctx"
    have c: "absorbed ?c (msg @ take n xs)" "bit_count ?c = bit_count ctx"
      using absorb_absorbed [OF less.prems(1), of "take n xs"] n by simp_all
    have step: "zxfl_update_loop xs ctx = zxfl_update_loop (drop n xs) ?c"
      using False n(3)
      by (subst zxfl_update_loop.simps)
        (simp only: if_False Let_def n_def [symmetric] absorb_def zxfl_sha256_block_eq length_take min_absorb2)
    have "\<exists>ctx'. zxfl_update_loop (drop n xs) ?c = Some ctx' \<and> absorbed ctx' ((msg @ take n xs) @ drop n xs) \<and>
        bit_count ctx' = bit_count ?c"
      by (rule less.hyps [OF _ c(1)]) (use n in simp_all)
    then show ?thesis
      using c(2) step by simp
  qed
qed

section \<open>Padding and output\<close>

lemma length_be64 [simp]: "length (be64_bytes b) = 8"
  by (simp add: be64_bytes_def)

lemma zero_fill_small:
  assumes "take k (sha_buf ctx) = xs" and "buf_len ctx = k" and "k \<le> limit" and "limit \<le> 64"
    and "length (sha_buf ctx) = 64"
  shows "take limit (sha_buf (zero_fill limit ctx)) = xs @ replicate (limit - k) 0"
    and "buf_len (zero_fill limit ctx) = limit" and "length (sha_buf (zero_fill limit ctx)) = 64"
    and "sha_state (zero_fill limit ctx) = sha_state ctx" and "bit_count (zero_fill limit ctx) = bit_count ctx"
  using assms by (auto simp: zero_fill_def copy_in_eq max_def min_def)

lemma last_block:
  assumes "take k (sha_buf ctx) = xs" and "buf_len ctx = k" and "k \<le> 56" and "length (sha_buf ctx) = 64"
  shows "sha_state (let f = zero_fill 56 ctx;
                        g = f\<lparr>sha_buf := copy_in (sha_buf f) 56 (be64_bytes (bit_count f))\<rparr>
                    in sha256_block g (sha_buf g)) =
         compress (sha_state ctx) (xs @ replicate (56 - k) 0 @ be64_bytes (bit_count ctx))"
proof -
  note z = zero_fill_small [OF assms(1,2,3) _ assms(4)]
  have "copy_in (sha_buf (zero_fill 56 ctx)) 56 (be64_bytes (bit_count ctx)) =
      xs @ replicate (56 - k) 0 @ be64_bytes (bit_count ctx)"
    using z by (simp add: copy_in_eq)
  then show ?thesis
    using z by (simp add: sha256_block_def Let_def)
qed

text \<open>Behind the whole blocks the padded message has one block more, or two when the length does not fit.\<close>

lemma md_blocks_two_last:
  assumes "length rest = r" "55 < r" "r < 64" "length len = 8"
  shows "md_blocks S (rest @ [0x80] @ replicate ((119 - r) mod 64) 0 @ len) =
    compress (compress S (rest @ [0x80] @ replicate (63 - r) 0)) (replicate 56 0 @ len)"
proof -
  have "(119 - r) mod 64 = (63 - r) + 56" using assms(2,3) by (simp add: mod_if)
  then have split: "rest @ [0x80] @ replicate ((119 - r) mod 64) 0 @ len =
      (rest @ [0x80] @ replicate (63 - r) 0) @ (replicate 56 0 @ len)"
    by (simp only: replicate_add append_assoc)
  have l: "length (rest @ [0x80] @ replicate (63 - r) 0) = 64" using assms by simp
  show ?thesis
    unfolding split md_blocks_one [OF l]
    using md_blocks_one [of "replicate 56 0 @ len" _ "[]"] assms(4) by (simp add: md_blocks_short)
qed

lemma md_blocks_one_last:
  assumes "length rest = r" "r \<le> 55" "length len = 8"
  shows "md_blocks S (rest @ [0x80] @ replicate ((119 - r) mod 64) 0 @ len) =
    compress S ((rest @ [0x80]) @ replicate (56 - Suc r) 0 @ len)"
proof -
  have "(119 - r) mod 64 = 56 - Suc r" using assms(2) by (simp add: mod_if)
  then show ?thesis
    using md_blocks_one [of "(rest @ [0x80]) @ replicate (56 - Suc r) 0 @ len" S "[]"] assms
    by (simp add: md_blocks_short)
qed

lemma pad_and_compress_state:
  assumes "absorbed ctx msg" and "bit_count ctx = of_nat (length msg) * 8"
  shows "sha_state (pad_and_compress ctx) = md_blocks sha256_H0 (msg @ sha256_padding (length msg))"
proof -
  obtain whole rest where w: "msg = whole @ rest" "length whole mod 64 = 0" "length rest < 64"
      "buf_len ctx = length rest" "take (length rest) (sha_buf ctx) = rest"
      "sha_state ctx = md_blocks sha256_H0 whole" "length (sha_buf ctx) = 64"
    by (rule absorbed_split [OF assms(1)])
  define r where "r = length rest"
  define c1 where "c1 = ctx\<lparr>sha_buf := (sha_buf ctx)[buf_len ctx := 0x80], buf_len := buf_len ctx + 1\<rparr>"
  have mod: "length msg mod 64 = r"
    using assms(1) w(4) by (simp add: absorbed_def r_def)
  have c1: "take (Suc r) (sha_buf c1) = rest @ [0x80]" "buf_len c1 = Suc r" "length (sha_buf c1) = 64"
      "sha_state c1 = md_blocks sha256_H0 whole" "bit_count c1 = of_nat (length msg) * 8"
    using w assms(2) by (simp_all add: c1_def r_def take_Suc_conv_app_nth)
  let ?len = "be64_bytes (of_nat (length msg) * 8)"
  have spec: "md_blocks sha256_H0 (msg @ sha256_padding (length msg)) =
      md_blocks (md_blocks sha256_H0 whole) (rest @ [0x80] @ replicate ((119 - r) mod 64) 0 @ ?len)"
    using w(1,2) mod by (simp add: md_blocks_append sha256_padding_def)
  show ?thesis
  proof (cases "56 < Suc r")
    case True
    define f where "f = zero_fill 64 c1"
    have z: "take 64 (sha_buf f) = (rest @ [0x80]) @ replicate (63 - r) 0" "length (sha_buf f) = 64"
        "sha_state f = md_blocks sha256_H0 whole" "bit_count f = of_nat (length msg) * 8"
      using zero_fill_small [OF c1(1,2) _ _ c1(3), of 64] w(3) c1 by (simp_all add: f_def r_def)
    define c2 where "c2 = (sha256_block f (sha_buf f))\<lparr>buf_len := 0\<rparr>"
    have b1: "sha_buf f = rest @ [0x80] @ replicate (63 - r) 0"
      using z(1,2) by simp
    have c2: "take 0 (sha_buf c2) = []" "buf_len c2 = 0" "length (sha_buf c2) = 64"
        "sha_state c2 = compress (md_blocks sha256_H0 whole) (rest @ [0x80] @ replicate (63 - r) 0)"
        "bit_count c2 = of_nat (length msg) * 8"
      using z b1 by (simp_all add: c2_def sha256_block_def)
    have "pad_and_compress ctx = (let f = zero_fill 56 c2;
                        g = f\<lparr>sha_buf := copy_in (sha_buf f) 56 (be64_bytes (bit_count f))\<rparr>
                    in sha256_block g (sha_buf g))"
      using True w(4) by (simp add: pad_and_compress_def c1_def f_def c2_def r_def Let_def)
    then have "sha_state (pad_and_compress ctx) = compress (sha_state c2) (replicate 56 0 @ ?len)"
      using last_block [OF c2(1,2) _ c2(3)] c2(5) by simp
    then show ?thesis
      using md_blocks_two_last [of rest r ?len "md_blocks sha256_H0 whole"] True w(3) c2(4) spec
      by (simp add: r_def)
  next
    case False
    have "pad_and_compress ctx = (let f = zero_fill 56 c1;
                        g = f\<lparr>sha_buf := copy_in (sha_buf f) 56 (be64_bytes (bit_count f))\<rparr>
                    in sha256_block g (sha_buf g))"
      using False w(4) by (simp add: pad_and_compress_def c1_def r_def Let_def)
    then have "sha_state (pad_and_compress ctx) =
        compress (md_blocks sha256_H0 whole) ((rest @ [0x80]) @ replicate (56 - Suc r) 0 @ ?len)"
      using last_block [OF c1(1,2) _ c1(3)] False c1(4,5) by simp
    then show ?thesis
      using md_blocks_one_last [of rest r ?len "md_blocks sha256_H0 whole"] False spec by (simp add: r_def)
  qed
qed

section \<open>One-shot hashing\<close>

lemma absorbed_init: "length (sha_buf ctx) = 64 \<Longrightarrow> absorbed (sha256_init ctx) []"
  by (simp add: absorbed_def sha256_init_def md_blocks_short)

lemma zxfl_absorbed_init: "length (sha_buf ctx) = 64 \<Longrightarrow> absorbed (zxfl_sha256_init ctx) []"
  by (simp add: absorbed_def zxfl_sha256_init_def md_blocks_short sha256_H0_def)

lemma zxfl_sha256_final_eq:
  "zxfl_sha256_final ctx = (pad_and_compress ctx, serialize (sha_state (pad_and_compress ctx)))"
  by (simp only: zxfl_sha256_final_def pad_and_compress_def zxfl_sha256_block_eq Let_def)

lemma zxfl_sha256_sw_spec:
  assumes "length (sha_buf uninit) = 64"
  shows "zxfl_sha256_sw uninit data = Some (sha256_spec data)"
proof -
  let ?c = "(zxfl_sha256_init uninit)\<lparr>bit_count := bit_count (zxfl_sha256_init uninit) + of_nat (length data) * 8\<rparr>"
  have "absorbed ?c []"
    using zxfl_absorbed_init [OF assms] by simp
  from zxfl_update_loop_returns [OF this, of data] obtain ctx' where
    ctx': "zxfl_update_loop data ?c = Some ctx'" "absorbed ctx' data" "bit_count ctx' = bit_count ?c"
    by auto
  then have "bit_count ctx' = of_nat (length data) * 8"
    by (simp add: zxfl_sha256_init_def)
  from pad_and_compress_state [OF ctx'(2) this] ctx'(1) show ?thesis
    by (simp add: zxfl_sha256_sw_def zxfl_sha256_update_def zxfl_sha256_final_eq sha256_spec_def)
qed

lemma max_bytes_init: "unat ((- 1 - (0 :: u64)) div 8) = 2 ^ 61 - 1"
  by (simp add: unat_div unsigned_minus_1_eq_mask mask_eq_exp_minus_1)

lemma sha256_update_init:
  assumes "length (sha_buf uninit) = 64" and "length data < 2 ^ 32"
  shows "\<exists>ctx. sha256_update (sha256_init uninit) (Bytes data) = Some (ctx, Inr ()) \<and> absorbed ctx data \<and>
               bit_count ctx = of_nat (length data) * 8 \<and> \<not> finalized ctx"
proof -
  let ?c = "(sha256_init uninit)\<lparr>bit_count := bit_count (sha256_init uninit) + of_nat (length data) * 8\<rparr>"
  have a: "absorbed ?c []"
    using absorbed_init [OF assms(1)] by simp
  have max: "\<not> length data > unat ((- 1 - bit_count (sha256_init uninit)) div 8)"
    using max_bytes_init assms(2) by (simp add: sha256_init_def)
  have fin: "\<not> finalized (sha256_init uninit)" and z: "bit_count (sha256_init uninit) = 0"
    by (simp_all add: sha256_init_def)
  show ?thesis
  proof (cases "data = []")
    case True
    then show ?thesis
      using absorbed_init [OF assms(1)] fin z by (simp add: sha256_update_def)
  next
    case False
    then show ?thesis
      using sha256_update_loop_returns [OF a assms(2)] fin z max by (auto simp: sha256_update_def Let_def)
  qed
qed

lemma padding_zeros:
  fixes m :: nat
  assumes "m < 64"
  shows "(119 - m) mod 64 = (if m \<le> 55 then 55 - m else 119 - m)"
proof (cases "m \<le> 55")
  case True
  then have "119 - m = 64 + (55 - m)" by simp
  then have "(119 - m) mod 64 = (55 - m) mod 64"
    by (simp only: mod_add_self1)
  then show ?thesis using True by simp
qed (use assms in simp)

lemma length_sha256_padding: "(n + length (sha256_padding n)) mod 64 = 0"
proof -
  define m where "m = n mod 64"
  have m: "m < 64" and n: "n = 64 * (n div 64) + m"
    by (simp_all add: m_def)
  have "m + length (sha256_padding n) = (if m \<le> 55 then 64 else 128)"
    using m by (simp add: sha256_padding_def flip: m_def) (simp add: padding_zeros)
  moreover have "n + length (sha256_padding n) = 64 * (n div 64) + (m + length (sha256_padding n))"
    using n by linarith
  ultimately show ?thesis by simp
qed

section \<open>The hardware path\<close>

text \<open>What the Principles of Operation promise of KIMD-SHA-256 on whole blocks, and of KLMD.\<close>

definition kimd_spec :: "(u32 list \<Rightarrow> u8 list \<Rightarrow> u32 list) \<Rightarrow> bool" where
  "kimd_spec kimd \<longleftrightarrow> (\<forall>st xs. length xs mod 64 = 0 \<longrightarrow> kimd st xs = md_blocks st xs)"

definition klmd_spec :: "(u32 list \<Rightarrow> u64 \<Rightarrow> u8 list \<Rightarrow> u32 list) \<Rightarrow> bool" where
  "klmd_spec klmd \<longleftrightarrow>
     (\<forall>st mbl xs. klmd st mbl xs =
        md_blocks st (xs @ [0x80] @ replicate ((119 - length xs mod 64) mod 64) 0 @ be64_bytes mbl))"

lemma zxfl_sha256_hw_spec:
  assumes "kimd_spec kimd" and "length tail0 = 128"
  shows "zxfl_sha256_hw kimd tail0 data = sha256_spec data"
proof -
  define r where "r = length data mod 64"
  define full where "full = length data - r"
  define bb :: nat where "bb = (if r \<le> 55 then 64 else 128)"
  define len where "len = be64_bytes (of_nat (length data) * 8)"
  have r: "r < 64" and full: "length data = full + r" and fm: "full mod 64 = 0"
    by (simp_all add: r_def full_def minus_mod_eq_mult_div)
  define rest where "rest = drop full data"
  have rest: "length rest = r" using full by (simp add: rest_def)
  have "copy_in tail0 0 rest = rest @ drop r tail0"
    using assms(2) r rest by (simp add: copy_in_eq)
  then have t2: "(copy_in tail0 0 rest)[r := 0x80] = rest @ [0x80] @ drop (Suc r) tail0"
    using assms(2) r rest
    by (simp add: list_update_append Cons_nth_drop_Suc [symmetric, of r tail0])
  have t3: "copy_in ((copy_in tail0 0 rest)[r := 0x80]) (r + 1) (replicate (bb - 8 - (r + 1)) 0) =
      rest @ [0x80] @ replicate (bb - 9 - r) 0 @ drop (bb - 8) tail0"
    unfolding t2 using assms(2) r rest by (subst copy_in_eq) (auto simp: bb_def drop_Cons')
  have t4: "take bb (copy_in (rest @ [0x80] @ replicate (bb - 9 - r) 0 @ drop (bb - 8) tail0) (bb - 8) len) =
      rest @ [0x80] @ replicate (bb - 9 - r) 0 @ len"
    using assms(2) r rest by (subst copy_in_eq) (auto simp: bb_def len_def take_Cons')
  have pad: "rest @ [0x80] @ replicate (bb - 9 - r) 0 @ len = rest @ sha256_padding (length data)"
    using r by (simp add: sha256_padding_def len_def bb_def padding_zeros flip: r_def)
  have "length (rest @ sha256_padding (length data)) mod 64 = 0"
    using length_sha256_padding [of "length data"] full fm rest
    by (metis add.assoc add_0 length_append mod_add_left_eq)
  then have k2: "kimd st (rest @ sha256_padding (length data)) = md_blocks st (rest @ sha256_padding (length data))" for st
    using assms(1) by (simp add: kimd_spec_def)
  have k1: "(if full \<noteq> 0 then kimd sha256_H0 (take full data) else sha256_H0) = md_blocks sha256_H0 (take full data)"
    using assms(1) fm full by (simp add: kimd_spec_def md_blocks_short)
  have "md_blocks (md_blocks sha256_H0 (take full data)) (rest @ sha256_padding (length data)) =
      md_blocks sha256_H0 (data @ sha256_padding (length data))"
    using md_blocks_append [of "take full data" sha256_H0 "rest @ sha256_padding (length data)"] fm full
    by (simp add: rest_def flip: append_assoc)
  moreover have "zxfl_sha256_hw kimd tail0 data =
      serialize (kimd (if full \<noteq> 0 then kimd sha256_H0 (take full data) else sha256_H0)
        (rest @ sha256_padding (length data)))"
  proof -
    have e: "length data - full = r" using full by simp
    show ?thesis
      unfolding zxfl_sha256_hw_def Let_def sha256_H0_def [symmetric] r_def [symmetric] full_def [symmetric]
        e rest_def [symmetric] bb_def [symmetric] len_def [symmetric] t3 t4 pad ..
  qed
  ultimately show ?thesis
    using k1 k2 by (simp add: sha256_spec_def)
qed

section \<open>Streaming\<close>

text \<open>A run of \<open>sha256_update\<close> calls, all of which must succeed.\<close>

fun sha256_updates :: "sha256_ctx \<Rightarrow> u8 list list \<Rightarrow> sha256_ctx option" where
  "sha256_updates ctx [] = Some ctx"
| "sha256_updates ctx (xs # xss) =
     (case sha256_update ctx (Bytes xs) of
        Some (ctx', Inr _) \<Rightarrow> sha256_updates ctx' xss
      | _ \<Rightarrow> None)"

lemma max_bytes:
  assumes "8 * n < 2 ^ 64"
  shows "unat ((- 1 - (of_nat n * 8 :: u64)) div 8) = 2 ^ 61 - 1 - n"
proof -
  have u: "unat (of_nat n * 8 :: u64) = 8 * n"
    using assms by (simp add: unat_word_ariths unat_of_nat take_bit_eq_mod mult.commute)
  have "unat (- 1 - (of_nat n * 8 :: u64)) = 2 ^ 64 - 1 - 8 * n"
    using unat_sub [of "of_nat n * 8 :: u64" "- 1"] u
    by (simp add: unsigned_minus_1_eq_mask mask_eq_exp_minus_1 word_n1_ge)
  then show ?thesis
    by (simp add: unat_div)
qed

lemma sha256_update_step:
  assumes "absorbed ctx msg" and "bit_count ctx = of_nat (length msg) * 8" and "\<not> finalized ctx"
    and "length xs < 2 ^ 32" and "8 * (length msg + length xs) < 2 ^ 64"
  shows "\<exists>ctx'. sha256_update ctx (Bytes xs) = Some (ctx', Inr ()) \<and> absorbed ctx' (msg @ xs) \<and>
                bit_count ctx' = of_nat (length (msg @ xs)) * 8 \<and> \<not> finalized ctx'"
proof (cases "xs = []")
  case True
  then show ?thesis using assms by (simp add: sha256_update_def)
next
  case False
  let ?c = "ctx\<lparr>bit_count := bit_count ctx + of_nat (length xs) * 8\<rparr>"
  have "absorbed ?c msg" using assms(1) by simp
  from sha256_update_loop_returns [OF this assms(4)] obtain ctx' where
    l: "sha256_update_loop xs ?c = Some ctx'" "absorbed ctx' (msg @ xs)" "bit_count ctx' = bit_count ?c"
       "finalized ctx' = finalized ?c"
    by auto
  have "\<not> length xs > unat ((- 1 - bit_count ctx) div 8)"
    using max_bytes [of "length msg"] assms(2,5) by simp
  then show ?thesis
    using l assms(2,3) False by (simp add: sha256_update_def Let_def algebra_simps)
qed

lemma sha256_updates_spec:
  assumes "absorbed ctx msg" and "bit_count ctx = of_nat (length msg) * 8" and "\<not> finalized ctx"
    and "list_all (\<lambda>xs. length xs < 2 ^ 32) xss" and "8 * (length msg + length (concat xss)) < 2 ^ 64"
  shows "\<exists>ctx'. sha256_updates ctx xss = Some ctx' \<and> absorbed ctx' (msg @ concat xss) \<and>
                bit_count ctx' = of_nat (length (msg @ concat xss)) * 8 \<and> \<not> finalized ctx'"
  using assms
proof (induction xss arbitrary: ctx msg)
  case (Cons xs xss)
  have "length xs < 2 ^ 32" "8 * (length msg + length xs) < 2 ^ 64"
    using Cons.prems(4,5) by auto
  from sha256_update_step [OF Cons.prems(1,2,3) this] obtain c where
    c: "sha256_update ctx (Bytes xs) = Some (c, Inr ())" "absorbed c (msg @ xs)"
       "bit_count c = of_nat (length (msg @ xs)) * 8" "\<not> finalized c"
    by blast
  have "\<exists>ctx'. sha256_updates c xss = Some ctx' \<and> absorbed ctx' ((msg @ xs) @ concat xss) \<and>
      bit_count ctx' = of_nat (length ((msg @ xs) @ concat xss)) * 8 \<and> \<not> finalized ctx'"
    by (rule Cons.IH [OF c(2,3,4)]) (use Cons.prems(4,5) in \<open>simp_all add: algebra_simps\<close>)
  then show ?case
    using c(1) by simp
qed simp

section \<open>Known answer\<close>

text \<open>The loader's self-test vector, evaluated by the specification.\<close>

lemma known_answer: "sha256_spec kat_in = kat_expect"
  by code_simp

lemma length_serialize: "length (serialize st) = 32"
  by (simp add: serialize_def be32_bytes_def upt_rec)

lemma length_sha256_spec [simp]: "length (sha256_spec data) = 32"
  by (simp add: sha256_spec_def length_serialize)

lemma hw_selftest_spec:
  assumes "kimd_spec kimd" and "length tail0 = 128"
  shows "zxfl_sha256_hw_selftest kimd tail0 stfle \<longleftrightarrow>
           (\<exists>fac. stfle = Some fac \<and> stfle_has_facility [fac] STFLE_BIT_MSA)"
  using zxfl_sha256_hw_spec [OF assms, of kat_in] known_answer
  by (auto simp: zxfl_sha256_hw_selftest_def Let_def list_all_iff split: option.splits)

lemma zxfl_sha256_spec:
  assumes "kimd_spec kimd" and "length tail0 = 128" and "length (sha_buf uninit) = 64"
  shows "\<exists>g'. zxfl_sha256 kimd tail0 stfle uninit g data = Some (g', sha256_spec data)"
  using zxfl_sha256_hw_spec [OF assms(1,2)] zxfl_sha256_sw_spec [OF assms(3)]
  by (simp add: zxfl_sha256_def Let_def)

lemma sha256_hash_spec:
  assumes "klmd_spec klmd" and "length (sha_buf uninit) = 64" and "length data < 2 ^ 32"
  shows "sha256_hash klmd has_msa uninit data = Some (Inr (sha256_spec data))"
proof -
  obtain ctx where c: "sha256_update (sha256_init uninit) (Bytes data) = Some (ctx, Inr ())"
      "absorbed ctx data" "bit_count ctx = of_nat (length data) * 8" "\<not> finalized ctx"
    using sha256_update_init [OF assms(2,3)] by blast
  then have "snd (sha256_final ctx) = Inr (sha256_spec data)"
    using pad_and_compress_state [OF c(2,3)] by (simp add: sha256_final_def Let_def sha256_spec_def)
  moreover have "klmd sha256_H0 (of_nat (length data) * 8) data =
      md_blocks sha256_H0 (data @ sha256_padding (length data))"
    using assms(1) by (simp add: klmd_spec_def sha256_padding_def)
  ultimately show ?thesis
    using c(1) by (simp add: sha256_hash_def sha256_spec_def)
qed

section \<open>Verified load\<close>

text \<open>
  \<open>zxvl_verify_nucleus_checksums\<close>: the loader compares every listed segment with its digest
  and panics (\<^const>\<open>Trap\<close>) on a malformed table or a mismatch. Physical memory is a function,
  and the loader's hash, with its hardware cache, is threaded through.
\<close>

definition ZXVL_CKSUM_MAGIC :: u32 where "ZXVL_CKSUM_MAGIC = 0x5A58564C"
definition ZXVL_CKSUM_VERSION :: u32 where "ZXVL_CKSUM_VERSION = 1"
definition ZXVL_CKSUM_ALGO_SHA256 :: u32 where "ZXVL_CKSUM_ALGO_SHA256 = 1"
definition ZXVL_CKSUM_MAX_ENTRIES :: u32 where "ZXVL_CKSUM_MAX_ENTRIES = 16"

record zxvl_cksum_entry =
  phys_start :: u64
  seg_size :: u64
  seg_digest :: "u8 list"

record zxvl_checksum_table =
  tbl_magic :: u32
  tbl_version :: u32
  tbl_algo :: u32
  tbl_count :: u32
  tbl_entries :: "zxvl_cksum_entry list"

definition segment_bytes :: "(u64 \<Rightarrow> u8) \<Rightarrow> zxvl_cksum_entry \<Rightarrow> u8 list" where
  "segment_bytes mem e = map (\<lambda>i. mem (phys_start e + of_nat i)) [0..<unat (seg_size e)]"

fun verify_entries ::
  "(int \<Rightarrow> u8 list \<Rightarrow> (int \<times> u8 list) option) \<Rightarrow> (u64 \<Rightarrow> u8) \<Rightarrow> int \<Rightarrow> zxvl_cksum_entry list \<Rightarrow> int exec option" where
  "verify_entries hash mem g [] = Some (Done g)"
| "verify_entries hash mem g (e # es) =
     (if seg_size e = 0 then verify_entries hash mem g es
      else case hash g (segment_bytes mem e) of
        None \<Rightarrow> None
      | Some (g', actual) \<Rightarrow>
          if take 32 actual \<noteq> take 32 (seg_digest e) then Some Trap else verify_entries hash mem g' es)"

definition zxvl_verify_nucleus_checksums ::
  "(int \<Rightarrow> u8 list \<Rightarrow> (int \<times> u8 list) option) \<Rightarrow> (u64 \<Rightarrow> u8) \<Rightarrow> int \<Rightarrow> zxvl_checksum_table \<Rightarrow> int exec option" where
  "zxvl_verify_nucleus_checksums hash mem g tbl =
     (if tbl_magic tbl \<noteq> ZXVL_CKSUM_MAGIC then Some Trap
      else if tbl_version tbl = 0 then Some Trap
      else if tbl_version tbl > ZXVL_CKSUM_VERSION then Some Trap
      else if tbl_count tbl = 0 \<or> tbl_count tbl > ZXVL_CKSUM_MAX_ENTRIES then Some Trap
      else if tbl_algo tbl \<noteq> ZXVL_CKSUM_ALGO_SHA256 then Some Trap
      else verify_entries hash mem g (take (unat (tbl_count tbl)) (tbl_entries tbl)))"

lemma verify_entries_spec:
  assumes "\<And>g xs. \<exists>g'. hash g xs = Some (g', sha256_spec xs)"
    and "list_all (\<lambda>e. length (seg_digest e) = 32) es"
  shows "\<exists>r. verify_entries hash mem g es = Some r \<and>
             ((\<exists>g'. r = Done g') \<longleftrightarrow>
              (\<forall>e \<in> set es. seg_size e \<noteq> 0 \<longrightarrow> seg_digest e = sha256_spec (segment_bytes mem e)))"
  using assms(2)
proof (induction es arbitrary: g)
  case (Cons e es)
  obtain g' where g': "hash g (segment_bytes mem e) = Some (g', sha256_spec (segment_bytes mem e))"
    using assms(1) by blast
  have es: "list_all (\<lambda>e. length (seg_digest e) = 32) es" and len: "length (seg_digest e) = 32"
    using Cons.prems by simp_all
  show ?case
    using Cons.IH [OF es, of g] Cons.IH [OF es, of g'] g' len by auto
qed simp

section \<open>Properties\<close>

text \<open>
  C8. Streaming SHA-256 is chunking-independent: for every way to cut a message into pieces
  shorter than 4 GiB whose total bit length fits 64 bits, initialising a context, feeding the
  pieces and finalising succeeds and yields the digest of the concatenation according to the
  padded block-by-block definition; afterwards the context refuses any further use.
\<close>

theorem sha256_streaming_is_one_shot:
  assumes "length (sha_buf uninit) = 64" and "list_all (\<lambda>xs. length xs < 2 ^ 32) chunks"
    and "8 * length (concat chunks) < 2 ^ 64"
  shows "\<exists>ctx ctx'. sha256_updates (sha256_init uninit) chunks = Some ctx \<and>
           sha256_final ctx = (ctx', Inr (sha256_spec (concat chunks))) \<and>
           sha256_final ctx' = (ctx', Inl (from_crypto invalid_input)) \<and>
           sha256_update ctx' data = Some (ctx', Inl (from_crypto invalid_input))"
proof -
  have i: "absorbed (sha256_init uninit) []" "bit_count (sha256_init uninit) = of_nat (length ([] :: u8 list)) * 8"
      "\<not> finalized (sha256_init uninit)"
    using absorbed_init [OF assms(1)] by (simp_all add: sha256_init_def)
  obtain ctx where c: "sha256_updates (sha256_init uninit) chunks = Some ctx" "absorbed ctx (concat chunks)"
      "bit_count ctx = of_nat (length (concat chunks)) * 8" "\<not> finalized ctx"
    using sha256_updates_spec [OF i assms(2)] assms(3) by auto
  from pad_and_compress_state [OF c(2,3)] c(4)
  have "sha256_final ctx = ((pad_and_compress ctx)\<lparr>finalized := True\<rparr>, Inr (sha256_spec (concat chunks)))"
    by (simp add: sha256_final_def Let_def sha256_spec_def)
  then show ?thesis
    using c(1) by (auto simp: sha256_final_def sha256_update_def)
qed

definition sample_ctx :: sha256_ctx where
  "sample_ctx = \<lparr>sha_state = [], bit_count = 0, sha_buf = replicate 64 0, buf_len = 0, finalized = False\<rparr>"

theorem sha256_streaming_is_one_shot_witness:
  "\<exists>ctx ctx'. sha256_updates (sha256_init sample_ctx) [[0x61], [], [0x62, 0x63]] = Some ctx \<and>
     sha256_final ctx = (ctx', Inr kat_expect)"
proof -
  let ?ch = "[[0x61], [], [0x62, 0x63]] :: u8 list list"
  have c: "concat ?ch = kat_in"
    by (simp add: kat_in_def)
  have "length (sha_buf sample_ctx) = 64" and "list_all (\<lambda>xs. length xs < 2 ^ 32) ?ch"
    and "8 * length (concat ?ch) < 2 ^ 64"
    by (simp_all add: sample_ctx_def)
  from sha256_streaming_is_one_shot [OF this, of "Null 0"] show ?thesis
    unfolding c known_answer by blast
qed

text \<open>
  C32. Kernel and loader agree: given instructions that behave as documented, the kernel's
  one-shot hash (software or KLMD) and the loader's hash (software or KIMD, whatever the cached
  self-test decision) return the same digest for every input below 4 GiB, and the loader's
  self-test succeeds exactly when the message-security-assist facility is installed.
\<close>

theorem sha256_kernel_loader_agree:
  assumes "klmd_spec klmd" and "kimd_spec kimd" and "length tail0 = 128"
    and "length (sha_buf uninit) = 64" and "length (sha_buf uninit') = 64" and "length data < 2 ^ 32"
  shows "\<exists>g' digest. zxfl_sha256 kimd tail0 stfle uninit' g data = Some (g', digest) \<and>
           sha256_hash klmd has_msa uninit data = Some (Inr digest) \<and> length digest = SHA256_DIGEST_SIZE \<and>
           (zxfl_sha256_hw_selftest kimd tail0 stfle \<longleftrightarrow>
              (\<exists>fac. stfle = Some fac \<and> stfle_has_facility [fac] STFLE_BIT_MSA))"
  using zxfl_sha256_spec [OF assms(2,3,5)] sha256_hash_spec [OF assms(1,4,6)]
    hw_selftest_spec [OF assms(2,3)]
  by (simp add: SHA256_DIGEST_SIZE_def)

definition doc_kimd :: "u32 list \<Rightarrow> u8 list \<Rightarrow> u32 list" where
  "doc_kimd st xs = md_blocks st xs"

definition doc_klmd :: "u32 list \<Rightarrow> u64 \<Rightarrow> u8 list \<Rightarrow> u32 list" where
  "doc_klmd st mbl xs =
     md_blocks st (xs @ [0x80] @ replicate ((119 - length xs mod 64) mod 64) 0 @ be64_bytes mbl)"

definition sample_zctx :: zxfl_sha256_ctx where
  "sample_zctx = \<lparr>sha_state = [], bit_count = 0, sha_buf = replicate 64 0, buf_len = 0\<rparr>"

theorem sha256_kernel_loader_agree_witness:
  "\<exists>g' digest. zxfl_sha256 doc_kimd (replicate 128 0) (Some 0x400000000000) sample_zctx 0 kat_in = Some (g', digest) \<and>
     sha256_hash doc_klmd True sample_ctx kat_in = Some (Inr digest)"
proof -
  have "klmd_spec doc_klmd" "kimd_spec doc_kimd"
    by (simp_all add: klmd_spec_def kimd_spec_def doc_klmd_def doc_kimd_def)
  from sha256_kernel_loader_agree [OF this, of "replicate 128 0" sample_ctx sample_zctx kat_in]
  show ?thesis
    by (simp add: sample_ctx_def sample_zctx_def kat_in_def) blast
qed

text \<open>
  C33. The kernel's update loop finishes exactly below 4 GiB: for a context that holds some
  message, \<open>sha256_update\<close> returns for every piece shorter than \<open>2 ^ 32\<close> bytes, while a longer
  piece that passes the length check keeps the loop running forever, because the remaining
  byte count is narrowed to 32 bits before it is compared.
\<close>

theorem sha256_update_returns_iff:
  assumes "absorbed ctx msg" and "\<not> finalized ctx" and "length xs \<le> unat ((- 1 - bit_count ctx) div 8)"
  shows "sha256_update ctx (Bytes xs) \<noteq> None \<longleftrightarrow> length xs < 2 ^ 32"
proof -
  let ?c = "ctx\<lparr>bit_count := bit_count ctx + of_nat (length xs) * 8\<rparr>"
  have "absorbed ?c msg" using assms(1) by simp
  from sha256_update_loop_returns [OF this] sha256_update_loop_bound [of xs ?c]
  have "sha256_update_loop xs ?c \<noteq> None \<longleftrightarrow> length xs < 2 ^ 32"
    by auto
  then show ?thesis
    using assms(2,3) by (simp add: sha256_update_def Let_def)
qed

theorem sha256_update_returns_iff_witness:
  "sha256_update (sha256_init sample_ctx) (Bytes (replicate (2 ^ 32) 0)) = None"
proof -
  have "absorbed (sha256_init sample_ctx) []"
    by (rule absorbed_init) (simp add: sample_ctx_def)
  from sha256_update_returns_iff [OF this, of "replicate (2 ^ 32) 0"] show ?thesis
    using max_bytes_init by (simp add: sha256_init_def del: not_None_eq)
qed

text \<open>
  C7. Verified load: with a documented KIMD, the loader's checksum verification always comes to
  an end, and it lets the boot continue exactly when the table has the right magic number,
  version 1, the SHA-256 algorithm and 1 to 16 entries, and every listed non-empty segment of
  physical memory hashes to its recorded digest.
\<close>

theorem verified_load_exact:
  assumes "kimd_spec kimd" and "length tail0 = 128" and "length (sha_buf uninit) = 64"
    and "list_all (\<lambda>e. length (seg_digest e) = 32) (tbl_entries tbl)"
  shows "\<exists>r. zxvl_verify_nucleus_checksums (zxfl_sha256 kimd tail0 stfle uninit) mem g tbl = Some r \<and>
           ((\<exists>g'. r = Done g') \<longleftrightarrow>
            tbl_magic tbl = ZXVL_CKSUM_MAGIC \<and> tbl_version tbl = 1 \<and> tbl_algo tbl = ZXVL_CKSUM_ALGO_SHA256 \<and>
            1 \<le> tbl_count tbl \<and> tbl_count tbl \<le> 16 \<and>
            (\<forall>e \<in> set (take (unat (tbl_count tbl)) (tbl_entries tbl)).
               seg_size e \<noteq> 0 \<longrightarrow> seg_digest e = sha256_spec (segment_bytes mem e)))"
proof -
  have v: "tbl_version tbl \<noteq> 0 \<and> \<not> tbl_version tbl > ZXVL_CKSUM_VERSION \<longleftrightarrow> tbl_version tbl = 1"
    by (auto simp: ZXVL_CKSUM_VERSION_def word_less_nat_alt word_unat_eq_iff)
  have c: "tbl_count tbl = 0 \<or> tbl_count tbl > ZXVL_CKSUM_MAX_ENTRIES \<longleftrightarrow>
      \<not> (1 \<le> tbl_count tbl \<and> tbl_count tbl \<le> 16)"
    by (auto simp: ZXVL_CKSUM_MAX_ENTRIES_def word_less_nat_alt word_le_nat_alt word_unat_eq_iff)
  have "list_all (\<lambda>e. length (seg_digest e) = 32) (take (unat (tbl_count tbl)) (tbl_entries tbl))"
    using assms(4) by (auto simp: list_all_iff dest: in_set_takeD)
  note e = verify_entries_spec [where hash = "zxfl_sha256 kimd tail0 stfle uninit" and mem = mem and g = g,
      OF zxfl_sha256_spec [OF assms(1,2,3)] this]
  show ?thesis
    unfolding zxvl_verify_nucleus_checksums_def using e v c by auto
qed

definition sample_segment :: zxvl_cksum_entry where
  "sample_segment = \<lparr>phys_start = 0, seg_size = 3, seg_digest = kat_expect\<rparr>"

definition sample_checksums :: zxvl_checksum_table where
  "sample_checksums =
     \<lparr>tbl_magic = ZXVL_CKSUM_MAGIC, tbl_version = 1, tbl_algo = 1, tbl_count = 1,
      tbl_entries = [sample_segment]\<rparr>"

theorem verified_load_exact_witness:
  "\<exists>g'. zxvl_verify_nucleus_checksums (zxfl_sha256 doc_kimd (replicate 128 0) None sample_zctx)
          (\<lambda>a. 0x61 + ucast a) 0 sample_checksums = Some (Done g')"
proof -
  have "kimd_spec doc_kimd" and "length (replicate 128 0 :: u8 list) = 128" and "length (sha_buf sample_zctx) = 64"
    and "list_all (\<lambda>e. length (seg_digest e) = 32) (tbl_entries sample_checksums)"
    by (simp_all add: kimd_spec_def doc_kimd_def sample_zctx_def sample_checksums_def sample_segment_def
        kat_expect_def)
  note p = verified_load_exact [OF this, of None "\<lambda>a. 0x61 + ucast a" 0]
  have "segment_bytes (\<lambda>a. 0x61 + ucast a) sample_segment = kat_in"
    by (simp add: segment_bytes_def sample_segment_def kat_in_def upt_rec)
  then have "\<forall>e \<in> set (take (unat (tbl_count sample_checksums)) (tbl_entries sample_checksums)).
      seg_size e \<noteq> 0 \<longrightarrow> seg_digest e = sha256_spec (segment_bytes (\<lambda>a. 0x61 + ucast a) e)"
    using known_answer by (simp add: sample_checksums_def) (simp add: sample_segment_def)
  with p show ?thesis
    by (auto simp: sample_checksums_def ZXVL_CKSUM_ALGO_SHA256_def)
qed

end
