(* ===== verification/ZX_Sched_Index.thy ===== *)
theory ZX_Sched_Index
  imports ZX_Base
begin

text \<open>
  The two system-wide CPU indexes of the scheduler: real-time priorities
  (\<open>zxfoundation/sched/cpupri.zcomponent\<close>) and earliest deadlines
  (\<open>zxfoundation/sched/cpudl.zcomponent\<close>). The number of CPUs, \<open>CONFIG_ZX_MAX_CPUS\<close>, is the
  parameter \<open>max_cpus\<close>; which CPUs are online is the predicate \<open>online\<close>.

  A CPU mask is the list of its bits. The red-black tree of the deadline index is
  represented by its in-order sequence, which rebalancing does not change.
\<close>

section \<open>CPU masks\<close>

type_synonym cpumask = "bool list"

definition cm_test :: "cpumask \<Rightarrow> nat \<Rightarrow> bool" where
  "cm_test m c \<longleftrightarrow> c < length m \<and> m ! c"

definition cm_set :: "nat \<Rightarrow> cpumask \<Rightarrow> cpumask" where
  "cm_set c m = m[c := True]"

definition cm_clear :: "nat \<Rightarrow> cpumask \<Rightarrow> cpumask" where
  "cm_clear c m = m[c := False]"

definition cm_first_set :: "cpumask \<Rightarrow> nat option" where
  "cm_first_set m = first_from (\<lambda>i. m ! i) 0 (length m)"

definition cm_next_set :: "cpumask \<Rightarrow> nat \<Rightarrow> nat option" where
  "cm_next_set m after =
     (if after + 1 \<ge> length m then None else first_from (\<lambda>i. m ! i) (after + 1) (length m - (after + 1)))"

lemma cm_test_set [simp]: "cm_test (cm_set c m) d \<longleftrightarrow> d < length m \<and> (d = c \<or> cm_test m d)"
  by (cases "c < length m") (auto simp: cm_test_def cm_set_def nth_list_update)

lemma cm_test_clear [simp]: "cm_test (cm_clear c m) d \<longleftrightarrow> d \<noteq> c \<and> cm_test m d"
  by (cases "c < length m") (auto simp: cm_test_def cm_clear_def nth_list_update)

lemma length_cm [simp]: "length (cm_set c m) = length m" "length (cm_clear c m) = length m"
  by (simp_all add: cm_set_def cm_clear_def)

section \<open>Real-time priorities\<close>

definition CPUPRI_NR_PRIORITIES :: nat where "CPUPRI_NR_PRIORITIES = 128"
definition CPUPRI_INVALID :: u8 where "CPUPRI_INVALID = 0xFF"

record cpupri_index =
  pri_mask :: "cpumask list"
  free_mask :: cpumask
  g_cpu_top_pri :: "u8 list"

definition cpupri_init :: "nat \<Rightarrow> (nat \<Rightarrow> bool) \<Rightarrow> cpupri_index" where
  "cpupri_init max_cpus online =
     \<lparr>pri_mask = replicate CPUPRI_NR_PRIORITIES (replicate max_cpus False),
      free_mask = map online [0..<max_cpus],
      g_cpu_top_pri = replicate max_cpus CPUPRI_INVALID\<rparr>"

definition pri_set :: "nat \<Rightarrow> u16 \<Rightarrow> u8 \<Rightarrow> u8 \<Rightarrow> cpupri_index \<Rightarrow> cpupri_index" where
  "pri_set max_cpus cpu old_pri new_pri s =
     (let c = unat cpu
      in if c \<ge> max_cpus then s
         else
           let s1 = (if old_pri \<noteq> CPUPRI_INVALID \<and> unat old_pri < CPUPRI_NR_PRIORITIES
                     then s\<lparr>pri_mask := (pri_mask s)[unat old_pri := cm_clear c (pri_mask s ! unat old_pri)]\<rparr>
                     else s\<lparr>free_mask := cm_clear c (free_mask s)\<rparr>);
               s2 = (if new_pri \<noteq> CPUPRI_INVALID \<and> unat new_pri < CPUPRI_NR_PRIORITIES
                     then s1\<lparr>pri_mask := (pri_mask s1)[unat new_pri := cm_set c (pri_mask s1 ! unat new_pri)]\<rparr>
                     else s1\<lparr>free_mask := cm_set c (free_mask s1)\<rparr>)
           in s2\<lparr>g_cpu_top_pri := (g_cpu_top_pri s2)[c := new_pri]\<rparr>)"

text \<open>One mask is scanned in ascending CPU order for a CPU that is allowed and online.\<close>

fun scan_mask :: "nat \<Rightarrow> cpumask \<Rightarrow> (nat \<Rightarrow> bool) \<Rightarrow> nat option \<Rightarrow> nat option" where
  "scan_mask 0 m ok cur = None"
| "scan_mask (Suc n) m ok None = None"
| "scan_mask (Suc n) m ok (Some c) = (if ok c then Some c else scan_mask n m ok (cm_next_set m c))"

definition first_ok :: "cpumask \<Rightarrow> (nat \<Rightarrow> bool) \<Rightarrow> nat option" where
  "first_ok m ok = scan_mask (Suc (length m)) m ok (cm_first_set m)"

text \<open>The priority bucket is indexed without a bound check: past the array it traps.\<close>

fun find_bucket :: "cpumask list \<Rightarrow> (nat \<Rightarrow> bool) \<Rightarrow> nat \<Rightarrow> nat \<Rightarrow> nat option exec" where
  "find_bucket masks ok p 0 = Done None"
| "find_bucket masks ok p (Suc n) =
     (if p \<ge> length masks then Trap
      else case first_ok (masks ! p) ok of
        Some c \<Rightarrow> Done (Some c)
      | None \<Rightarrow> find_bucket masks ok (Suc p) n)"

definition find_fitness ::
  "nat \<Rightarrow> (nat \<Rightarrow> bool) \<Rightarrow> u8 \<Rightarrow> cpumask \<Rightarrow> cpupri_index \<Rightarrow> u16 exec" where
  "find_fitness max_cpus online pri_threshold affinity s =
     (let ok = (\<lambda>c. cm_test affinity c \<and> online c)
      in exec_bind (find_bucket (pri_mask s) ok 0 (unat pri_threshold + 1))
           (\<lambda>found. case found of
              Some c \<Rightarrow> Done (of_nat c)
            | None \<Rightarrow>
                (case first_ok (free_mask s) ok of
                   Some c \<Rightarrow> Done (of_nat c)
                 | None \<Rightarrow> Done (of_nat max_cpus))))"

definition pri_top :: "nat \<Rightarrow> u16 \<Rightarrow> cpupri_index \<Rightarrow> u8" where
  "pri_top max_cpus cpu s = (if unat cpu \<ge> max_cpus then CPUPRI_INVALID else g_cpu_top_pri s ! unat cpu)"

section \<open>Deadlines\<close>

record cpudl_node =
  dl_deadline_ns :: u64
  dl_cpu :: u16
  dl_is_set :: bool

record cpudl_index =
  dl_tree :: "nat list"
  dl_nodes :: "cpudl_node list"
  earliest_ns :: u64
  earliest_cpu :: u32

definition cpudl_init :: "nat \<Rightarrow> cpudl_index" where
  "cpudl_init max_cpus =
     \<lparr>dl_tree = [], dl_nodes = map (\<lambda>c. \<lparr>dl_deadline_ns = 0, dl_cpu = of_nat c, dl_is_set = False\<rparr>) [0..<max_cpus],
      earliest_ns = 0, earliest_cpu = 0xFFFFFFFF\<rparr>"

definition dl_of :: "cpudl_node list \<Rightarrow> nat \<Rightarrow> u64" where
  "dl_of nodes c = dl_deadline_ns (nodes ! c)"

text \<open>\<open>rb_insert\<close> descends to the right on equal keys: in order, the node goes after all equals.\<close>

definition dl_insert :: "cpudl_node list \<Rightarrow> nat \<Rightarrow> u64 \<Rightarrow> nat list \<Rightarrow> nat list" where
  "dl_insert nodes c key tree =
     takeWhile (\<lambda>x. dl_of nodes x \<le> key) tree @ [c] @ dropWhile (\<lambda>x. dl_of nodes x \<le> key) tree"

definition cache_first :: "cpudl_index \<Rightarrow> cpudl_index" where
  "cache_first s =
     (case dl_tree s of
        [] \<Rightarrow> s
      | c # _ \<Rightarrow> s\<lparr>earliest_ns := dl_deadline_ns (dl_nodes s ! c), earliest_cpu := ucast (dl_cpu (dl_nodes s ! c))\<rparr>)"

definition set_dl :: "nat \<Rightarrow> u16 \<Rightarrow> u64 \<Rightarrow> cpudl_index \<Rightarrow> cpudl_index" where
  "set_dl max_cpus cpu deadline_ns s =
     (let c = unat cpu
      in if c \<ge> max_cpus then s
         else
           let node = dl_nodes s ! c;
               tree = (if dl_is_set node then remove1 c (dl_tree s) else dl_tree s);
               nodes = (dl_nodes s)[c := node\<lparr>dl_deadline_ns := deadline_ns, dl_is_set := True\<rparr>]
           in cache_first (s\<lparr>dl_nodes := nodes, dl_tree := dl_insert nodes c deadline_ns tree\<rparr>))"

definition clear_dl :: "nat \<Rightarrow> u16 \<Rightarrow> cpudl_index \<Rightarrow> cpudl_index" where
  "clear_dl max_cpus cpu s =
     (let c = unat cpu
      in if c \<ge> max_cpus then s
         else if \<not> dl_is_set (dl_nodes s ! c) then s
         else
           let s1 = s\<lparr>dl_tree := remove1 c (dl_tree s),
                      dl_nodes := (dl_nodes s)[c := (dl_nodes s ! c)\<lparr>dl_deadline_ns := 0, dl_is_set := False\<rparr>]\<rparr>
           in if dl_tree s1 \<noteq> [] then cache_first s1
              else s1\<lparr>earliest_ns := 0, earliest_cpu := 0xFFFFFFFF\<rparr>)"

definition first_cpu :: "nat \<Rightarrow> cpudl_index \<Rightarrow> u16" where
  "first_cpu max_cpus s =
     (if earliest_cpu s = 0xFFFFFFFF then of_nat max_cpus else ucast (earliest_cpu s))"

fun latest_loop ::
  "(nat \<Rightarrow> bool) \<Rightarrow> cpudl_node list \<Rightarrow> nat \<Rightarrow> nat \<Rightarrow> u16 \<Rightarrow> u64 \<Rightarrow> u16" where
  "latest_loop ok nodes c 0 chosen latest = chosen"
| "latest_loop ok nodes c (Suc n) chosen latest =
     (if dl_is_set (nodes ! c) \<and> ok c \<and> dl_deadline_ns (nodes ! c) \<ge> latest
      then latest_loop ok nodes (Suc c) n (of_nat c) (dl_deadline_ns (nodes ! c))
      else latest_loop ok nodes (Suc c) n chosen latest)"

definition find_latest :: "nat \<Rightarrow> (nat \<Rightarrow> bool) \<Rightarrow> cpumask \<Rightarrow> cpudl_index \<Rightarrow> u16" where
  "find_latest max_cpus online affinity s =
     latest_loop (\<lambda>c. cm_test affinity c \<and> online c) (dl_nodes s) 0 max_cpus (of_nat max_cpus) 0"

section \<open>Scanning a mask\<close>

lemma first_from_eq_Some:
  "first_from Q k n = Some c \<longleftrightarrow> k \<le> c \<and> c < k + n \<and> Q c \<and> (\<forall>j. k \<le> j \<and> j < c \<longrightarrow> \<not> Q j)"
proof
  assume "k \<le> c \<and> c < k + n \<and> Q c \<and> (\<forall>j. k \<le> j \<and> j < c \<longrightarrow> \<not> Q j)"
  moreover obtain d where "first_from Q k n = Some d"
    using calculation first_from_None [of Q k n] by (cases "first_from Q k n") auto
  moreover from this have "k \<le> d \<and> Q d \<and> (\<forall>j. k \<le> j \<and> j < d \<longrightarrow> \<not> Q j)"
    using first_from_Some by blast
  ultimately show "first_from Q k n = Some c"
    by (metis linorder_neqE_nat)
qed (use first_from_Some in blast)

lemma first_from_cong_skip:
  assumes "k \<le> k'" and "k' \<le> k + n" and "\<And>j. k \<le> j \<Longrightarrow> j < k' \<Longrightarrow> \<not> Q j"
  shows "first_from Q k n = first_from Q k' (k + n - k')"
proof (cases "first_from Q k' (k + n - k')")
  case None
  then have "first_from Q k n = None"
    using assms unfolding first_from_None by (metis add_diff_inverse_nat not_less order_trans)
  with None show ?thesis by simp
next
  case (Some c)
  then have "first_from Q k n = Some c"
    using assms unfolding first_from_eq_Some by (metis add_diff_inverse_nat not_less order_trans)
  with Some show ?thesis by simp
qed

lemma cm_next_set_eq: "cm_next_set m c = first_from (\<lambda>i. m ! i) (Suc c) (length m - Suc c)"
  by (simp add: cm_next_set_def)

lemma scan_mask_eq:
  "length m - k < n \<Longrightarrow>
     scan_mask n m ok (first_from (\<lambda>i. m ! i) k (length m - k)) =
     first_from (\<lambda>i. m ! i \<and> ok i) k (length m - k)"
proof (induction n arbitrary: k)
  case (Suc n)
  show ?case
  proof (cases "first_from (\<lambda>i. m ! i) k (length m - k)")
    case None
    then have "first_from (\<lambda>i. m ! i \<and> ok i) k (length m - k) = None"
      by (auto simp: first_from_None)
    with None show ?thesis by simp
  next
    case (Some c)
    then have c: "k \<le> c" "c < length m" "m ! c" "\<And>j. k \<le> j \<Longrightarrow> j < c \<Longrightarrow> \<not> m ! j"
      by (auto simp: first_from_eq_Some)
    show ?thesis
    proof (cases "ok c")
      case True
      then have "first_from (\<lambda>i. m ! i \<and> ok i) k (length m - k) = Some c"
        using c by (auto simp: first_from_eq_Some)
      with Some True show ?thesis by simp
    next
      case False
      have "first_from (\<lambda>i. m ! i \<and> ok i) k (length m - k) =
          first_from (\<lambda>i. m ! i \<and> ok i) (Suc c) (k + (length m - k) - Suc c)"
        by (rule first_from_cong_skip) (use c False in \<open>auto simp: less_Suc_eq\<close>)
      also have "k + (length m - k) - Suc c = length m - Suc c"
        using c by simp
      finally show ?thesis
        using Some False Suc.IH [of "Suc c"] Suc.prems c by (simp add: cm_next_set_eq)
    qed
  qed
qed simp

lemma first_ok_eq: "first_ok m ok = first_from (\<lambda>i. m ! i \<and> ok i) 0 (length m)"
  using scan_mask_eq [of m 0 "Suc (length m)" ok] by (simp add: first_ok_def cm_first_set_def)

lemma first_ok_Some:
  "first_ok m ok = Some c \<longleftrightarrow> cm_test m c \<and> ok c \<and> (\<forall>d < c. \<not> (cm_test m d \<and> ok d))"
  by (auto simp: first_ok_eq first_from_eq_Some cm_test_def)

lemma first_ok_None: "first_ok m ok = None \<longleftrightarrow> (\<forall>c. \<not> (cm_test m c \<and> ok c))"
  by (auto simp: first_ok_eq first_from_None cm_test_def)

lemma find_bucket_cases:
  assumes "p + n \<le> length masks"
  shows "\<exists>r. find_bucket masks ok p n = Done r \<and>
     (case r of
        Some c \<Rightarrow> \<exists>q. p \<le> q \<and> q < p + n \<and> first_ok (masks ! q) ok = Some c \<and>
                   (\<forall>q'. p \<le> q' \<and> q' < q \<longrightarrow> first_ok (masks ! q') ok = None)
      | None \<Rightarrow> \<forall>q. p \<le> q \<and> q < p + n \<longrightarrow> first_ok (masks ! q) ok = None)"
  using assms
proof (induction n arbitrary: p)
  case (Suc n)
  show ?case
  proof (cases "first_ok (masks ! p) ok")
    case None
    obtain r where r: "find_bucket masks ok (Suc p) n = Done r"
      and c: "case r of
        Some c \<Rightarrow> \<exists>q. Suc p \<le> q \<and> q < Suc p + n \<and> first_ok (masks ! q) ok = Some c \<and>
                   (\<forall>q'. Suc p \<le> q' \<and> q' < q \<longrightarrow> first_ok (masks ! q') ok = None)
      | None \<Rightarrow> \<forall>q. Suc p \<le> q \<and> q < Suc p + n \<longrightarrow> first_ok (masks ! q) ok = None"
      using Suc.IH [of "Suc p"] Suc.prems by auto
    have down: "p \<le> q \<longleftrightarrow> q = p \<or> Suc p \<le> q" for q by auto
    show ?thesis
      using None r c Suc.prems by (auto simp: down split: option.splits)
  next
    case (Some c)
    then have "find_bucket masks ok p (Suc n) = Done (Some c)"
      using Suc.prems by simp
    then show ?thesis
      using Some by (intro exI [of _ "Some c"]) (auto intro: exI [of _ p])
  qed
qed auto

section \<open>The priority index\<close>

text \<open>
  Each CPU is in the bucket of its top priority and in no other; a CPU in the free mask has no
  real-time priority. Callers pass the priority that the index holds as the old one.
\<close>

definition has_pri :: "u8 \<Rightarrow> bool" where
  "has_pri p \<longleftrightarrow> unat p < CPUPRI_NR_PRIORITIES"

definition cpupri_inv :: "nat \<Rightarrow> cpupri_index \<Rightarrow> bool" where
  "cpupri_inv max_cpus s \<longleftrightarrow>
     length (pri_mask s) = CPUPRI_NR_PRIORITIES \<and> length (g_cpu_top_pri s) = max_cpus \<and>
     length (free_mask s) = max_cpus \<and>
     (\<forall>p < CPUPRI_NR_PRIORITIES. length (pri_mask s ! p) = max_cpus) \<and>
     (\<forall>c < max_cpus. \<forall>p < CPUPRI_NR_PRIORITIES.
        cm_test (pri_mask s ! p) c \<longleftrightarrow> unat (g_cpu_top_pri s ! c) = p) \<and>
     (\<forall>c < max_cpus. cm_test (free_mask s) c \<longrightarrow> \<not> has_pri (g_cpu_top_pri s ! c))"

lemma invalid_not_has_pri: "p \<noteq> CPUPRI_INVALID \<and> unat p < CPUPRI_NR_PRIORITIES \<longleftrightarrow> has_pri p"
  by (auto simp: CPUPRI_INVALID_def CPUPRI_NR_PRIORITIES_def has_pri_def)

lemma cpupri_inv_init: "cpupri_inv max_cpus (cpupri_init max_cpus online)"
  by (auto simp: cpupri_inv_def cpupri_init_def cm_test_def has_pri_def CPUPRI_INVALID_def
      CPUPRI_NR_PRIORITIES_def)

lemma cpupri_inv_set:
  assumes inv: "cpupri_inv max_cpus s" and c: "unat cpu < max_cpus"
  shows "cpupri_inv max_cpus (pri_set max_cpus cpu (g_cpu_top_pri s ! unat cpu) new_pri s)"
proof -
  define c where "c = unat cpu"
  define old where "old = g_cpu_top_pri s ! c"
  define s1 where "s1 = (if has_pri old
      then s\<lparr>pri_mask := (pri_mask s)[unat old := cm_clear c (pri_mask s ! unat old)]\<rparr>
      else s\<lparr>free_mask := cm_clear c (free_mask s)\<rparr>)"
  define s2 where "s2 = (if has_pri new_pri
      then s1\<lparr>pri_mask := (pri_mask s1)[unat new_pri := cm_set c (pri_mask s1 ! unat new_pri)]\<rparr>
      else s1\<lparr>free_mask := cm_set c (free_mask s1)\<rparr>)"
  have len: "length (pri_mask s) = CPUPRI_NR_PRIORITIES" "length (free_mask s) = max_cpus"
      "length (g_cpu_top_pri s) = max_cpus"
      "\<And>p. p < CPUPRI_NR_PRIORITIES \<Longrightarrow> length (pri_mask s ! p) = max_cpus"
    using inv by (auto simp: cpupri_inv_def)
  have cl: "c < max_cpus" using c by (simp add: c_def)
  have bucket: "cm_test (pri_mask s ! p) x \<longleftrightarrow> unat (g_cpu_top_pri s ! x) = p"
    if "x < max_cpus" "p < CPUPRI_NR_PRIORITIES" for x p
    using inv that by (simp add: cpupri_inv_def)
  have free: "cm_test (free_mask s) x \<Longrightarrow> \<not> has_pri (g_cpu_top_pri s ! x)" if "x < max_cpus" for x
    using inv that by (simp add: cpupri_inv_def)
  have s1: "length (pri_mask s1) = CPUPRI_NR_PRIORITIES" "length (free_mask s1) = max_cpus"
      "g_cpu_top_pri s1 = g_cpu_top_pri s"
      "\<And>p. p < CPUPRI_NR_PRIORITIES \<Longrightarrow> length (pri_mask s1 ! p) = max_cpus"
      "\<And>p x. p < CPUPRI_NR_PRIORITIES \<Longrightarrow> x < max_cpus \<Longrightarrow>
         cm_test (pri_mask s1 ! p) x \<longleftrightarrow> x \<noteq> c \<and> unat (g_cpu_top_pri s ! x) = p"
      "\<And>x. x < max_cpus \<Longrightarrow> cm_test (free_mask s1) x \<Longrightarrow> x \<noteq> c \<and> \<not> has_pri (g_cpu_top_pri s ! x)"
    using len bucket free cl by (auto simp: s1_def old_def has_pri_def nth_list_update split: if_splits)
  have "cpupri_inv max_cpus (s2\<lparr>g_cpu_top_pri := (g_cpu_top_pri s2)[c := new_pri]\<rparr>)"
    using s1 cl len(3)
    by (auto simp: cpupri_inv_def s2_def has_pri_def nth_list_update)
  moreover have "pri_set max_cpus cpu old new_pri s = s2\<lparr>g_cpu_top_pri := (g_cpu_top_pri s2)[c := new_pri]\<rparr>"
    using cl unfolding pri_set_def c_def [symmetric] Let_def invalid_not_has_pri s1_def [symmetric] s2_def [symmetric]
    by simp
  ultimately show ?thesis
    by (simp add: old_def c_def)
qed

text \<open>A run of updates, each made with the priority the index holds.\<close>

fun pri_updates :: "nat \<Rightarrow> (u16 \<times> u8) list \<Rightarrow> cpupri_index \<Rightarrow> cpupri_index" where
  "pri_updates max_cpus [] s = s"
| "pri_updates max_cpus ((cpu, p) # us) s =
     pri_updates max_cpus us (pri_set max_cpus cpu (pri_top max_cpus cpu s) p s)"

lemma cpupri_inv_updates: "cpupri_inv max_cpus s \<Longrightarrow> cpupri_inv max_cpus (pri_updates max_cpus us s)"
proof (induction us arbitrary: s)
  case (Cons u us)
  obtain cpu p where u: "u = (cpu, p)" by (cases u)
  have "cpupri_inv max_cpus (pri_set max_cpus cpu (pri_top max_cpus cpu s) p s)"
  proof (cases "unat cpu < max_cpus")
    case True
    then show ?thesis
      using cpupri_inv_set [OF Cons.prems True, of p] by (simp add: pri_top_def)
  next
    case False
    then show ?thesis
      using Cons.prems by (simp add: pri_set_def Let_def)
  qed
  then show ?case
    using Cons.IH u by simp
qed simp

section \<open>Properties of the priority index\<close>

definition fit_cpu :: "nat \<Rightarrow> cpumask \<Rightarrow> (nat \<Rightarrow> bool) \<Rightarrow> nat \<Rightarrow> bool" where
  "fit_cpu max_cpus affinity online c \<longleftrightarrow> c < max_cpus \<and> cm_test affinity c \<and> online c"

lemma cpupri_bucket:
  assumes "cpupri_inv max_cpus s" "p < CPUPRI_NR_PRIORITIES"
  shows "cm_test (pri_mask s ! p) c \<longleftrightarrow> c < max_cpus \<and> unat (g_cpu_top_pri s ! c) = p"
proof -
  have "length (pri_mask s ! p) = max_cpus" using assms by (auto simp: cpupri_inv_def)
  then have "cm_test (pri_mask s ! p) c \<Longrightarrow> c < max_cpus" by (simp add: cm_test_def)
  then show ?thesis using assms unfolding cpupri_inv_def by blast
qed

lemma find_bucket_lowest:
  assumes inv: "cpupri_inv max_cpus s" and thr: "unat thr < CPUPRI_NR_PRIORITIES"
  shows "\<exists>r. find_bucket (pri_mask s) (\<lambda>c. cm_test affinity c \<and> online c) 0 (unat thr + 1) = Done r \<and>
    (case r of
       Some c \<Rightarrow> fit_cpu max_cpus affinity online c \<and> g_cpu_top_pri s ! c \<le> thr \<and>
         (\<forall>d. fit_cpu max_cpus affinity online d \<longrightarrow> g_cpu_top_pri s ! c \<le> g_cpu_top_pri s ! d)
     | None \<Rightarrow> \<forall>c. fit_cpu max_cpus affinity online c \<longrightarrow> \<not> g_cpu_top_pri s ! c \<le> thr)"
proof -
  let ?fit = "fit_cpu max_cpus affinity online" and ?ok = "\<lambda>c. cm_test affinity c \<and> online c"
  have hit: "first_ok (pri_mask s ! p) ?ok = Some c \<Longrightarrow> ?fit c \<and> unat (g_cpu_top_pri s ! c) = p"
    and miss: "first_ok (pri_mask s ! p) ?ok = None \<Longrightarrow> ?fit d \<Longrightarrow> unat (g_cpu_top_pri s ! d) \<noteq> p"
    if "p \<le> unat thr" for p c d
    using cpupri_bucket [OF inv, of p] that thr by (auto simp: first_ok_Some first_ok_None fit_cpu_def)
  have "0 + (unat thr + 1) \<le> length (pri_mask s)"
    using thr inv by (simp add: cpupri_inv_def)
  from find_bucket_cases [OF this, of ?ok] obtain r
    where r: "find_bucket (pri_mask s) ?ok 0 (unat thr + 1) = Done r"
      and rc: "case r of
        Some c \<Rightarrow> \<exists>q. 0 \<le> q \<and> q < 0 + (unat thr + 1) \<and> first_ok (pri_mask s ! q) ?ok = Some c \<and>
                   (\<forall>q'. 0 \<le> q' \<and> q' < q \<longrightarrow> first_ok (pri_mask s ! q') ?ok = None)
      | None \<Rightarrow> \<forall>q. 0 \<le> q \<and> q < 0 + (unat thr + 1) \<longrightarrow> first_ok (pri_mask s ! q) ?ok = None"
    by blast
  show ?thesis
  proof (cases r)
    case (Some c)
    then obtain q where q: "q \<le> unat thr" "first_ok (pri_mask s ! q) ?ok = Some c"
        "\<And>q'. q' < q \<Longrightarrow> first_ok (pri_mask s ! q') ?ok = None"
      using rc that by (auto simp: less_Suc_eq_le)
    have "q \<le> unat (g_cpu_top_pri s ! d)" if "?fit d" for d
      using miss [OF _ q(3) that, of "unat (g_cpu_top_pri s ! d)"] q(1) by linarith
    then show ?thesis
      using hit [OF q(1,2)] q(1) r Some by (auto simp: word_le_nat_alt simp del: find_bucket.simps)
  next
    case None
    then show ?thesis using r rc miss by (auto simp: word_le_nat_alt less_Suc_eq_le simp del: find_bucket.simps)
  qed
qed


lemma top_pri_set:
  "g_cpu_top_pri (pri_set max_cpus cpu old new s) =
     (if unat cpu < max_cpus then (g_cpu_top_pri s)[unat cpu := new] else g_cpu_top_pri s)"
  by (simp add: pri_set_def Let_def)

definition sample_pri :: cpupri_index where
  "sample_pri = pri_updates 3 [(0, 9), (1, 4), (2, 7)] (cpupri_init 3 (\<lambda>c. True))"


section \<open>The deadline index\<close>

definition tree_ok :: "nat \<Rightarrow> cpudl_node list \<Rightarrow> nat list \<Rightarrow> bool" where
  "tree_ok max_cpus nodes tree \<longleftrightarrow>
     length nodes = max_cpus \<and> (\<forall>c < max_cpus. dl_cpu (nodes ! c) = of_nat c) \<and>
     distinct tree \<and> set tree = {c. c < max_cpus \<and> dl_is_set (nodes ! c)} \<and>
     sorted (map (dl_of nodes) tree)"

definition cpudl_inv :: "nat \<Rightarrow> cpudl_index \<Rightarrow> bool" where
  "cpudl_inv max_cpus s \<longleftrightarrow>
     tree_ok max_cpus (dl_nodes s) (dl_tree s) \<and>
     (case dl_tree s of
        [] \<Rightarrow> earliest_ns s = 0 \<and> earliest_cpu s = 0xFFFFFFFF
      | c # _ \<Rightarrow> earliest_ns s = dl_of (dl_nodes s) c \<and> earliest_cpu s = of_nat c)"

lemma cpudl_inv_init: "cpudl_inv max_cpus (cpudl_init max_cpus)"
  by (simp add: cpudl_inv_def tree_ok_def cpudl_init_def)

lemma dl_insert_set: "set (dl_insert nodes c key tree) = insert c (set tree)"
  unfolding dl_insert_def by (metis (no_types, lifting) Un_insert_right append_Cons append_Nil
      list.simps(15) set_append takeWhile_dropWhile_id)

lemma dl_insert_distinct:
  assumes "distinct tree" and "c \<notin> set tree"
  shows "distinct (dl_insert nodes c key tree)"
proof -
  have g: "distinct (xs @ ys) \<Longrightarrow> c \<notin> set (xs @ ys) \<Longrightarrow> distinct (xs @ [c] @ ys)" for xs ys
    by auto
  show ?thesis
    unfolding dl_insert_def by (rule g) (use assms in simp_all)
qed

lemma dl_insert_sorted:
  assumes "sorted (map (dl_of nodes) tree)" and "dl_of nodes c = key"
  shows "sorted (map (dl_of nodes) (dl_insert nodes c key tree))"
  using assms(1)
proof (induction tree)
  case Nil
  then show ?case by (simp add: dl_insert_def)
next
  case (Cons x tree)
  show ?case
  proof (cases "dl_of nodes x \<le> key")
    case True
    have "sorted (map (dl_of nodes) (dl_insert nodes c key tree))"
      using Cons by simp
    moreover have "\<forall>y \<in> set (dl_insert nodes c key tree). dl_of nodes x \<le> dl_of nodes y"
      using Cons.prems True assms(2) by (auto simp: dl_insert_set)
    ultimately show ?thesis
      using True by (auto simp: dl_insert_def)
  next
    case False
    then have "key \<le> dl_of nodes x" by simp
    moreover have "\<forall>y \<in> set tree. dl_of nodes x \<le> dl_of nodes y"
      using Cons.prems by simp
    ultimately have "\<forall>y \<in> set tree. key \<le> dl_of nodes y"
      using order_trans by blast
    then show ?thesis
      using Cons.prems False assms(2) \<open>key \<le> dl_of nodes x\<close> by (simp add: dl_insert_def)
  qed
qed

lemma cache_first_inv:
  assumes "tree_ok max_cpus (dl_nodes s) (dl_tree s)" and "dl_tree s \<noteq> []" and "max_cpus < 2 ^ 16"
  shows "cpudl_inv max_cpus (cache_first s)"
proof -
  obtain c t where tree: "dl_tree s = c # t"
    using assms(2) by (cases "dl_tree s") auto
  have c: "c < max_cpus" "dl_cpu (dl_nodes s ! c) = of_nat c"
    using assms(1) tree by (auto simp: tree_ok_def)
  have "ucast (of_nat c :: u16) = (of_nat c :: u32)"
    using c assms(3) by (simp add: word_unat_eq_iff unat_of_nat take_bit_eq_mod unsigned_ucast_eq)
  then show ?thesis
    using assms(1) c by (simp add: cpudl_inv_def cache_first_def tree dl_of_def)
qed

lemma tree_ok_remove:
  assumes ok: "tree_ok max_cpus nodes tree" and c: "c < max_cpus"
    and nodes': "nodes' = nodes[c := (nodes ! c)\<lparr>dl_deadline_ns := d, dl_is_set := b\<rparr>]"
  defines "tree' \<equiv> if dl_is_set (nodes ! c) then remove1 c tree else tree"
  shows "set tree' = {x. x < max_cpus \<and> x \<noteq> c \<and> dl_is_set (nodes' ! x)} \<and> distinct tree' \<and>
         sorted (map (dl_of nodes') tree') \<and> length nodes' = max_cpus \<and>
         (\<forall>x < max_cpus. dl_cpu (nodes' ! x) = of_nat x) \<and> dl_is_set (nodes' ! c) = b \<and> dl_of nodes' c = d"
proof -
  have len: "length nodes = max_cpus" and dis: "distinct tree"
    and st: "set tree = {x. x < max_cpus \<and> dl_is_set (nodes ! x)}" and so: "sorted (map (dl_of nodes) tree)"
    and cpu: "\<forall>x < max_cpus. dl_cpu (nodes ! x) = of_nat x"
    using ok by (auto simp: tree_ok_def)
  have other: "x \<noteq> c \<Longrightarrow> nodes' ! x = nodes ! x" for x
    by (simp add: nodes')
  have at: "dl_is_set (nodes' ! c) = b" "dl_of nodes' c = d" "dl_cpu (nodes' ! c) = of_nat c"
    using c len cpu by (simp_all add: nodes' dl_of_def)
  have s: "set tree' = {x. x < max_cpus \<and> x \<noteq> c \<and> dl_is_set (nodes' ! x)}"
  proof (rule set_eqI)
    fix x
    show "x \<in> set tree' \<longleftrightarrow> x \<in> {x. x < max_cpus \<and> x \<noteq> c \<and> dl_is_set (nodes' ! x)}"
      using st dis other [of x] by (cases "x = c") (auto simp: tree'_def)
  qed
  have "sorted (map (dl_of nodes) tree')"
    using so by (simp add: tree'_def sorted_map_remove1)
  moreover have "map (dl_of nodes') tree' = map (dl_of nodes) tree'"
    using s other by (simp add: dl_of_def)
  ultimately have "sorted (map (dl_of nodes') tree')"
    by (simp only:)
  moreover have "\<forall>x < max_cpus. dl_cpu (nodes' ! x) = of_nat x"
    using cpu at(3) other by metis
  ultimately show ?thesis
    using s at dis len by (simp add: tree'_def nodes')
qed

lemma cpudl_inv_set:
  assumes inv: "cpudl_inv max_cpus s" and m: "max_cpus < 2 ^ 16"
  shows "cpudl_inv max_cpus (set_dl max_cpus cpu d s)"
proof (cases "unat cpu < max_cpus")
  case True
  define c where "c = unat cpu"
  define nodes where "nodes = (dl_nodes s)[c := (dl_nodes s ! c)\<lparr>dl_deadline_ns := d, dl_is_set := True\<rparr>]"
  define tree where "tree = (if dl_is_set (dl_nodes s ! c) then remove1 c (dl_tree s) else dl_tree s)"
  have c: "c < max_cpus" and ok: "tree_ok max_cpus (dl_nodes s) (dl_tree s)"
    using True inv by (simp_all add: c_def cpudl_inv_def)
  note r = tree_ok_remove [OF ok c nodes_def, folded tree_def]
  have "tree_ok max_cpus nodes (dl_insert nodes c d tree)"
    using r c dl_insert_distinct [of tree c nodes d] dl_insert_sorted [of nodes tree c d]
    by (auto simp: tree_ok_def dl_insert_set)
  moreover have "set_dl max_cpus cpu d s = cache_first (s\<lparr>dl_nodes := nodes, dl_tree := dl_insert nodes c d tree\<rparr>)"
    using c by (simp add: set_dl_def c_def nodes_def tree_def Let_def)
  ultimately show ?thesis
    using m by (simp add: cache_first_inv dl_insert_def)
next
  case False
  then show ?thesis using inv by (simp add: set_dl_def Let_def)
qed

lemma cpudl_inv_clear:
  assumes inv: "cpudl_inv max_cpus s" and m: "max_cpus < 2 ^ 16"
  shows "cpudl_inv max_cpus (clear_dl max_cpus cpu s)"
proof (cases "unat cpu < max_cpus \<and> dl_is_set (dl_nodes s ! unat cpu)")
  case True
  define c where "c = unat cpu"
  define s1 where "s1 = s\<lparr>dl_tree := remove1 c (dl_tree s),
      dl_nodes := (dl_nodes s)[c := (dl_nodes s ! c)\<lparr>dl_deadline_ns := 0, dl_is_set := False\<rparr>]\<rparr>"
  have c: "c < max_cpus" "dl_is_set (dl_nodes s ! c)" and ok: "tree_ok max_cpus (dl_nodes s) (dl_tree s)"
    using True inv by (simp_all add: c_def cpudl_inv_def)
  have ok1: "tree_ok max_cpus (dl_nodes s1) (dl_tree s1)"
    using tree_ok_remove [OF ok c(1) refl, of False 0] c(2) by (auto simp: tree_ok_def s1_def)
  have "clear_dl max_cpus cpu s =
      (if dl_tree s1 \<noteq> [] then cache_first s1 else s1\<lparr>earliest_ns := 0, earliest_cpu := 0xFFFFFFFF\<rparr>)"
    using True by (simp add: clear_dl_def c_def s1_def Let_def)
  then show ?thesis
    using ok1 m by (auto simp: cache_first_inv) (simp add: cpudl_inv_def)
next
  case False
  then show ?thesis using inv by (auto simp: clear_dl_def Let_def)
qed

section \<open>Deadline runs\<close>

text \<open>The index seen from outside: which CPUs have a deadline, and which.\<close>

datatype dl_op = SetDl u16 u64 | ClearDl u16

fun dl_step :: "nat \<Rightarrow> dl_op \<Rightarrow> cpudl_index \<Rightarrow> cpudl_index" where
  "dl_step max_cpus (SetDl cpu d) s = set_dl max_cpus cpu d s"
| "dl_step max_cpus (ClearDl cpu) s = clear_dl max_cpus cpu s"

fun dl_spec :: "nat \<Rightarrow> dl_op \<Rightarrow> (nat \<rightharpoonup> u64) \<Rightarrow> nat \<rightharpoonup> u64" where
  "dl_spec max_cpus (SetDl cpu d) m = (if unat cpu < max_cpus then m(unat cpu \<mapsto> d) else m)"
| "dl_spec max_cpus (ClearDl cpu) m = m(unat cpu := None)"

definition dl_abs :: "nat \<Rightarrow> cpudl_index \<Rightarrow> nat \<rightharpoonup> u64" where
  "dl_abs max_cpus s c = (if c < max_cpus \<and> dl_is_set (dl_nodes s ! c) then Some (dl_of (dl_nodes s) c) else None)"

lemma nodes_cache_first [simp]: "dl_nodes (cache_first s) = dl_nodes s"
  by (simp add: cache_first_def split: list.split)

lemma dl_step_refines:
  assumes "cpudl_inv max_cpus s" and "max_cpus < 2 ^ 16"
  shows "cpudl_inv max_cpus (dl_step max_cpus op s) \<and>
         dl_abs max_cpus (dl_step max_cpus op s) = dl_spec max_cpus op (dl_abs max_cpus s)"
proof (cases op)
  case (SetDl cpu d)
  have "length (dl_nodes s) = max_cpus"
    using assms(1) by (simp add: cpudl_inv_def tree_ok_def)
  then have "dl_abs max_cpus (set_dl max_cpus cpu d s) = dl_spec max_cpus op (dl_abs max_cpus s)"
    by (auto simp: fun_eq_iff SetDl dl_abs_def set_dl_def dl_of_def Let_def nth_list_update)
  then show ?thesis
    using cpudl_inv_set [OF assms] by (simp add: SetDl)
next
  case (ClearDl cpu)
  have "length (dl_nodes s) = max_cpus"
    using assms(1) by (simp add: cpudl_inv_def tree_ok_def)
  then have "dl_abs max_cpus (clear_dl max_cpus cpu s) = dl_spec max_cpus op (dl_abs max_cpus s)"
    by (auto simp: fun_eq_iff ClearDl dl_abs_def clear_dl_def dl_of_def Let_def nth_list_update)
  then show ?thesis
    using cpudl_inv_clear [OF assms] by (simp add: ClearDl)
qed

lemma dl_run_refines:
  assumes "cpudl_inv max_cpus s" and "max_cpus < 2 ^ 16"
  shows "cpudl_inv max_cpus (fold (dl_step max_cpus) ops s) \<and>
         dl_abs max_cpus (fold (dl_step max_cpus) ops s) = fold (dl_spec max_cpus) ops (dl_abs max_cpus s)"
  using assms(1)
proof (induction ops arbitrary: s)
  case (Cons op ops)
  then show ?case
    using dl_step_refines [OF Cons.prems assms(2), of op] Cons.IH by simp
qed simp

lemma first_cpu_earliest:
  assumes "cpudl_inv max_cpus s" and "max_cpus < 2 ^ 16"
  shows "if dl_abs max_cpus s = Map.empty then first_cpu max_cpus s = of_nat max_cpus
         else \<exists>c d. first_cpu max_cpus s = of_nat c \<and> dl_abs max_cpus s c = Some d \<and>
                (\<forall>c' d'. dl_abs max_cpus s c' = Some d' \<longrightarrow> d \<le> d')"
proof (cases "dl_tree s")
  case Nil
  then have "dl_abs max_cpus s = Map.empty"
    using assms(1) by (auto simp: cpudl_inv_def tree_ok_def dl_abs_def fun_eq_iff)
  then show ?thesis
    using Nil assms(1) by (simp add: cpudl_inv_def first_cpu_def)
next
  case (Cons c t)
  have set: "insert c (set t) = {x. x < max_cpus \<and> dl_is_set (dl_nodes s ! x)}"
      and low: "\<forall>x \<in> set t. dl_of (dl_nodes s) c \<le> dl_of (dl_nodes s) x" and e: "earliest_cpu s = of_nat c"
    using assms(1) Cons by (auto simp: cpudl_inv_def tree_ok_def)
  then have c: "c < max_cpus" "dl_is_set (dl_nodes s ! c)"
    by auto
  have w: "(of_nat c :: u32) \<noteq> 0xFFFFFFFF" "ucast (of_nat c :: u32) = (of_nat c :: u16)"
    using c assms(2) by (simp_all add: word_unat_eq_iff unat_of_nat take_bit_eq_mod unsigned_ucast_eq)
  have "dl_of (dl_nodes s) c \<le> d'" if "dl_abs max_cpus s c' = Some d'" for c' d'
  proof -
    from that have "c' \<in> insert c (set t)" "d' = dl_of (dl_nodes s) c'"
      unfolding set by (auto simp: dl_abs_def split: if_splits)
    then show ?thesis using low by auto
  qed
  moreover have "dl_abs max_cpus s c = Some (dl_of (dl_nodes s) c)"
    using c by (simp add: dl_abs_def)
  moreover have "first_cpu max_cpus s = of_nat c"
    using e w by (simp add: first_cpu_def)
  ultimately show ?thesis
    by (metis option.distinct(1))
qed

lemma latest_loop_spec:
  assumes "\<And>x. x < c \<Longrightarrow> hit x \<Longrightarrow> dl_of nodes x \<le> latest"
    and "hit = (\<lambda>x. dl_is_set (nodes ! x) \<and> ok x)"
    and "if \<exists>x < c. hit x then r < c \<and> hit r \<and> latest = dl_of nodes r else r = m \<and> latest = 0"
  shows "\<exists>r'. latest_loop ok nodes c n (of_nat r) latest = of_nat r' \<and>
          (if \<exists>x < c + n. hit x then r' < c + n \<and> hit r' \<and> (\<forall>x < c + n. hit x \<longrightarrow> dl_of nodes x \<le> dl_of nodes r')
           else r' = m)"
  using assms(1,3)
proof (induction n arbitrary: c r latest)
  case 0
  then show ?case by (intro exI [of _ r]) (auto split: if_splits)
next
  case (Suc n)
  define take where "take \<longleftrightarrow> hit c \<and> latest \<le> dl_of nodes c"
  define r1 where "r1 = (if take then c else r)"
  define l1 where "l1 = (if take then dl_of nodes c else latest)"
  have step: "latest_loop ok nodes c (Suc n) (of_nat r) latest = latest_loop ok nodes (Suc c) n (of_nat r1) l1"
    by (simp add: r1_def l1_def take_def assms(2) dl_of_def)
  have max: "dl_of nodes x \<le> l1" if "x < Suc c" "hit x" for x
  proof (cases "x = c")
    case True
    then show ?thesis using that(2) by (auto simp: l1_def take_def)
  next
    case False
    then have "dl_of nodes x \<le> latest"
      using Suc.prems(1) that by simp
    then show ?thesis by (cases take) (auto simp: l1_def take_def)
  qed
  have "if \<exists>x < Suc c. hit x then r1 < Suc c \<and> hit r1 \<and> l1 = dl_of nodes r1 else r1 = m \<and> l1 = 0"
    using Suc.prems(2) by (auto simp: r1_def l1_def take_def less_Suc_eq split: if_splits)
  note ih = Suc.IH [OF max this]
  have e: "c + Suc n = Suc c + n" by simp
  show ?case
    unfolding step e by (rule ih)
qed

lemma find_latest_spec:
  "\<exists>r. find_latest max_cpus online affinity s = of_nat r \<and>
       (if \<exists>c. fit_cpu max_cpus affinity online c \<and> dl_abs max_cpus s c \<noteq> None
        then fit_cpu max_cpus affinity online r \<and>
             (\<exists>d. dl_abs max_cpus s r = Some d \<and>
                (\<forall>c d'. fit_cpu max_cpus affinity online c \<longrightarrow> dl_abs max_cpus s c = Some d' \<longrightarrow> d' \<le> d))
        else r = max_cpus)"
proof -
  let ?ok = "\<lambda>c. cm_test affinity c \<and> online c"
  let ?hit = "\<lambda>x. dl_is_set (dl_nodes s ! x) \<and> ?ok x"
  obtain r where r: "find_latest max_cpus online affinity s = of_nat r"
    and spec: "if \<exists>x < max_cpus. ?hit x
       then r < max_cpus \<and> ?hit r \<and> (\<forall>x < max_cpus. ?hit x \<longrightarrow> dl_of (dl_nodes s) x \<le> dl_of (dl_nodes s) r)
       else r = max_cpus"
  proof -
    have "dl_of (dl_nodes s) x \<le> 0" if "x < 0" "?hit x" for x
      using that by simp
    moreover have "if \<exists>x < 0. ?hit x then max_cpus < 0 \<and> ?hit max_cpus \<and> 0 = dl_of (dl_nodes s) max_cpus
        else max_cpus = max_cpus \<and> (0 :: u64) = 0"
      by simp
    ultimately show thesis
      using latest_loop_spec [of 0 ?hit "dl_nodes s" 0 ?ok max_cpus max_cpus max_cpus] that
      unfolding find_latest_def add_0 by blast
  qed
  have fit: "fit_cpu max_cpus affinity online c \<and> dl_abs max_cpus s c \<noteq> None \<longleftrightarrow> c < max_cpus \<and> ?hit c" for c
    by (auto simp: fit_cpu_def dl_abs_def)
  show ?thesis
  proof (cases "\<exists>x < max_cpus. ?hit x")
    case True
    then have c: "r < max_cpus" "?hit r" "\<And>x. x < max_cpus \<Longrightarrow> ?hit x \<Longrightarrow> dl_of (dl_nodes s) x \<le> dl_of (dl_nodes s) r"
      using spec by auto
    have "dl_abs max_cpus s r = Some (dl_of (dl_nodes s) r)" "fit_cpu max_cpus affinity online r"
      using c(1,2) by (simp_all add: dl_abs_def fit_cpu_def)
    moreover have "d' \<le> dl_of (dl_nodes s) r"
      if "fit_cpu max_cpus affinity online c" "dl_abs max_cpus s c = Some d'" for c d'
      using that c(3) [of c] by (simp add: dl_abs_def fit_cpu_def split: if_splits)
    moreover have "\<exists>c. fit_cpu max_cpus affinity online c \<and> dl_abs max_cpus s c \<noteq> None"
      using True fit by blast
    ultimately show ?thesis
      using r by (intro exI [of _ r]) simp
  next
    case False
    then have "\<not> (\<exists>c. fit_cpu max_cpus affinity online c \<and> dl_abs max_cpus s c \<noteq> None)" "r = max_cpus"
      using spec fit by auto
    then show ?thesis
      using r by (intro exI [of _ r]) auto
  qed
qed

section \<open>Properties of the deadline index\<close>

text \<open>
  C13. The deadline index refines a map from CPUs to deadlines: after any sequence of updates
  and removals from boot, the index stands for the map those operations describe, the cached
  answer of \<open>first_cpu\<close> is a CPU with the earliest deadline (or the CPU limit when the map is
  empty), and \<open>find_latest\<close> returns an allowed online CPU with the latest deadline (or the
  limit when no such CPU has one).
\<close>

theorem deadline_index_refines_map:
  assumes "max_cpus < 2 ^ 16" and "s = fold (dl_step max_cpus) ops (cpudl_init max_cpus)"
    and "m = fold (dl_spec max_cpus) ops Map.empty"
  shows "dl_abs max_cpus s = m \<and>
         (if m = Map.empty then first_cpu max_cpus s = of_nat max_cpus
          else \<exists>c d. first_cpu max_cpus s = of_nat c \<and> m c = Some d \<and> (\<forall>c' d'. m c' = Some d' \<longrightarrow> d \<le> d')) \<and>
         (\<exists>r. find_latest max_cpus online affinity s = of_nat r \<and>
            (if \<exists>c. fit_cpu max_cpus affinity online c \<and> m c \<noteq> None
             then fit_cpu max_cpus affinity online r \<and>
                  (\<exists>d. m r = Some d \<and> (\<forall>c d'. fit_cpu max_cpus affinity online c \<longrightarrow> m c = Some d' \<longrightarrow> d' \<le> d))
             else r = max_cpus))"
proof -
  have "dl_abs max_cpus (cpudl_init max_cpus) = Map.empty"
    by (auto simp: dl_abs_def cpudl_init_def fun_eq_iff)
  then have inv: "cpudl_inv max_cpus s" and abs: "dl_abs max_cpus s = m"
    using dl_run_refines [OF cpudl_inv_init assms(1), of ops] assms(2,3) by simp_all
  note first = first_cpu_earliest [OF inv assms(1), unfolded abs]
    and latest = find_latest_spec [of max_cpus online affinity s, unfolded abs]
  show ?thesis
    by (intro conjI abs first latest)
qed

theorem deadline_index_refines_map_witness:
  "\<exists>c d. first_cpu 3 (fold (dl_step 3) [SetDl 0 50, SetDl 2 20, SetDl 1 30, ClearDl 2] (cpudl_init 3)) = of_nat c \<and>
     fold (dl_spec 3) [SetDl 0 50, SetDl 2 20, SetDl 1 30, ClearDl 2] Map.empty c = Some d"
proof -
  let ?ops = "[SetDl 0 50, SetDl 2 20, SetDl 1 30, ClearDl 2]"
  have "fold (dl_spec 3) ?ops Map.empty 1 = Some 30"
    by simp
  then have ne: "fold (dl_spec 3) ?ops Map.empty \<noteq> Map.empty"
    by (metis option.distinct(1))
  have m: "(3 :: nat) < 2 ^ 16" by simp
  note t = deadline_index_refines_map [OF m refl refl, of ?ops "\<lambda>c. True" "[]"]
  from conjunct1 [OF conjunct2 [OF t]] show ?thesis
    unfolding if_not_P [OF ne] by blast
qed

end
