(* ===== verification/ZX_Table.thy ===== *)
theory ZX_Table
  imports ZX_Registry ZX_Cap
begin

text \<open>
  The object table \<open>scoms_table<T, N>\<close> (\<open>zxfoundation/scoms/table.cxxm\<close>) behind domains,
  gates, portals, policy servers and services: slots with a free list, a generation per slot,
  registration of every object with the metadata, and slots that go back to the free list only
  when the last reference to their retired object is dropped.

  There is one table per object type, so the state maps types to tables. The arrays of
  pointers, links and generations are functions of the slot number; a pointer block that is
  not allocated reads as null, which is what \<open>object_ptr\<close> returns. The results of
  \<open>kmalloc\<close> are arguments.
\<close>

section \<open>State\<close>

definition BLOCK_SIZE :: nat where "BLOCK_SIZE = 256"

definition SLOT_NONE :: u32 where "SLOT_NONE = - 1"

record scoms_table =
  t_object :: "nat \<Rightarrow> addr option"
  t_object_block :: "nat \<Rightarrow> bool"
  t_link_block :: "nat \<Rightarrow> bool"
  t_next :: "nat \<Rightarrow> u32"
  t_generation :: "nat \<Rightarrow> u32"
  m_free_head :: u32
  m_count :: u32
  m_initialized :: bool
  m_type :: kobject_type

definition scoms_table_default :: scoms_table where
  "scoms_table_default =
     \<lparr>t_object = (\<lambda>i. None), t_object_block = (\<lambda>b. False), t_link_block = (\<lambda>b. False),
      t_next = (\<lambda>i. SLOT_NONE), t_generation = (\<lambda>i. 0), m_free_head = 0, m_count = 0,
      m_initialized = False, m_type = KT_none\<rparr>"

record table_state = cap_state +
  tables :: "kobject_type \<Rightarrow> scoms_table"

definition upd_table ::
  "kobject_type \<Rightarrow> (scoms_table \<Rightarrow> scoms_table) \<Rightarrow> 'a table_state_scheme \<Rightarrow> 'a table_state_scheme" where
  "upd_table ty f s = s\<lparr>tables := (tables s)(ty := f (tables s ty))\<rparr>"

section \<open>The free list\<close>

definition pop_free :: "scoms_table \<Rightarrow> scoms_table" where
  "pop_free t =
     (let slot = unat (m_free_head t)
      in t\<lparr>m_free_head := t_next t slot, t_next := (t_next t)(slot := SLOT_NONE)\<rparr>)"

definition push_free :: "nat \<Rightarrow> scoms_table \<Rightarrow> scoms_table" where
  "push_free slot t =
     t\<lparr>t_next := (t_next t)(slot := m_free_head t), m_free_head := of_nat slot\<rparr>"

text \<open>
  \<open>ensure_slot_block\<close> allocates the links and generations of one block, \<open>ensure_object_block\<close>
  its pointers.
\<close>

definition ensure_slot_block :: "(nat \<Rightarrow> bool) \<Rightarrow> nat \<Rightarrow> scoms_table \<Rightarrow> scoms_table \<times> bool" where
  "ensure_slot_block ok b t =
     (if t_link_block t b then (t, True)
      else if \<not> ok b then (t, False)
      else (t\<lparr>t_link_block := (t_link_block t)(b := True),
              t_next := (\<lambda>i. if i div BLOCK_SIZE = b then SLOT_NONE else t_next t i),
              t_generation := (\<lambda>i. if i div BLOCK_SIZE = b then 0 else t_generation t i)\<rparr>, True))"

definition ensure_object_block :: "bool \<Rightarrow> nat \<Rightarrow> scoms_table \<Rightarrow> scoms_table \<times> bool" where
  "ensure_object_block ok b t =
     (if t_object_block t b then (t, True)
      else if \<not> ok then (t, False)
      else (t\<lparr>t_object_block := (t_object_block t)(b := True),
              t_object := (\<lambda>i. if i div BLOCK_SIZE = b then None else t_object t i)\<rparr>, True))"

fun link_slots :: "(nat \<Rightarrow> bool) \<Rightarrow> nat \<Rightarrow> nat \<Rightarrow> nat \<Rightarrow> scoms_table \<Rightarrow> scoms_table \<times> bool" where
  "link_slots ok N i 0 t = (t, True)"
| "link_slots ok N i (Suc n) t =
     (case ensure_slot_block ok (i div BLOCK_SIZE) t of
        (t1, False) \<Rightarrow> (t1, False)
      | (t1, True) \<Rightarrow>
          link_slots ok N (Suc i) n
            (t1\<lparr>t_next := (t_next t1)(i := if i + 1 < N then of_nat (i + 1) else SLOT_NONE)\<rparr>))"

definition table_init ::
  "(nat \<Rightarrow> bool) \<Rightarrow> fnptr \<Rightarrow> kobject_type \<Rightarrow> nat \<Rightarrow> 'a table_state_scheme \<Rightarrow> 'a table_state_scheme exec" where
  "table_init ok fin ty N s =
     exec_bind (install_bobject_finalizer (Some fin) s)
       (\<lambda>s1. Done (upd_table ty (\<lambda>t.
          case link_slots ok N 0 N (t\<lparr>m_type := ty\<rparr>) of
            (t1, False) \<Rightarrow> t1
          | (t1, True) \<Rightarrow> t1\<lparr>m_free_head := 0, m_count := 0, m_initialized := True\<rparr>) s1))"

section \<open>Operations\<close>

text \<open>
  A typed reference \<open>robject\<close>: constructing one takes a reference (and is null when that
  fails), destroying one drops it.
\<close>

definition ref_take :: "addr \<Rightarrow> 'a table_state_scheme \<Rightarrow> ('a table_state_scheme \<times> addr option) exec" where
  "ref_take a s =
     exec_bind (bobject_try_get a s) (\<lambda>(s', got). Done (s', if got then Some a else None))"

type_synonym 'a tfinalize = "fnptr \<Rightarrow> addr \<Rightarrow> 'a table_state_scheme \<Rightarrow> 'a table_state_scheme exec"

definition ref_drop :: "'a tfinalize \<Rightarrow> addr option \<Rightarrow> 'a table_state_scheme \<Rightarrow> 'a table_state_scheme exec" where
  "ref_drop call_fin p s = (case p of None \<Rightarrow> Done s | Some a \<Rightarrow> bobject_put call_fin a s)"

definition free_object :: "addr \<Rightarrow> 'a table_state_scheme \<Rightarrow> 'a table_state_scheme" where
  "free_object a s = s\<lparr>objs := (objs s)(a := None)\<rparr>"

text \<open>The rollback of a failed allocation: the slot goes back, the object is freed, the pointer cleared.\<close>

definition abandon_slot :: "kobject_type \<Rightarrow> nat \<Rightarrow> addr \<Rightarrow> 'a table_state_scheme \<Rightarrow> 'a table_state_scheme" where
  "abandon_slot ty slot a s =
     upd_table ty (\<lambda>t. (push_free slot t)\<lparr>t_object := (t_object t)(slot := None)\<rparr>) (free_object a s)"

definition construct_object ::
  "kobject_type \<Rightarrow> nat \<Rightarrow> kobject_type \<Rightarrow> addr \<Rightarrow> 'a table_state_scheme \<Rightarrow> 'a table_state_scheme" where
  "construct_object ty slot object_type a s =
     (let g = t_generation (tables s ty) slot + 1
      in upd_obj a (initialize (bobject_default\<lparr>ko_generation := g\<rparr>) (of_nat slot) object_type)
           (upd_table ty (\<lambda>t. t\<lparr>t_object := (t_object t)(slot := Some a),
                               t_generation := (t_generation t)(slot := g)\<rparr>) s))"

text \<open>
  The tail of \<open>alloc\<close> and \<open>alloc_at\<close> once a slot has left the free list. \<open>mem\<close> is the block
  \<open>kmalloc\<close> returns for the object and \<open>reclaim\<close> the table's \<open>reclaim_object\<close>.
\<close>

definition occupy_slot ::
  "bool \<Rightarrow> addr option \<Rightarrow> (nat \<Rightarrow> bool) \<Rightarrow> fnptr \<Rightarrow> kobject_type \<Rightarrow> nat \<Rightarrow> kobject_type \<Rightarrow>
   'a table_state_scheme \<Rightarrow> ('a table_state_scheme \<times> addr option expected) exec" where
  "occupy_slot block_ok mem reg_ok reclaim ty slot object_type s =
     (case ensure_object_block block_ok (slot div BLOCK_SIZE) (tables s ty) of
        (t1, False) \<Rightarrow> Done (upd_table ty (push_free slot) s, Inl (from_memory out_of_memory))
      | (t1, True) \<Rightarrow>
          let s1 = upd_table ty (\<lambda>t. t1) s
          in case mem of
               None \<Rightarrow> Done (upd_table ty (push_free slot) s1, Inl (from_memory out_of_memory))
             | Some a \<Rightarrow>
                 exec_bind (register_object reg_ok a KOBJECT_ID_INVALID
                              (construct_object ty slot object_type a s1))
                   (\<lambda>(s2, registered). case registered of
                      Inl e \<Rightarrow> Done (abandon_slot ty slot a s2, Inl e)
                    | Inr _ \<Rightarrow>
                        exec_bind (set_reclaimer a (Some reclaim) s2)
                          (\<lambda>(s3, set). case set of
                             Inl e \<Rightarrow>
                               exec_bind (unregister_object a s3)
                                 (\<lambda>(s4, _). Done (abandon_slot ty slot a s4, Inl e))
                           | Inr _ \<Rightarrow>
                               exec_bind (ref_take a (upd_table ty (\<lambda>t. t\<lparr>m_count := m_count t + 1\<rparr>) s3))
                                 (\<lambda>(s4, r). Done (s4, Inr r)))))"

definition table_alloc ::
  "bool \<Rightarrow> addr option \<Rightarrow> (nat \<Rightarrow> bool) \<Rightarrow> fnptr \<Rightarrow> kobject_type \<Rightarrow> kobject_type \<Rightarrow>
   'a table_state_scheme \<Rightarrow> ('a table_state_scheme \<times> addr option expected) exec" where
  "table_alloc block_ok mem reg_ok reclaim ty requested s =
     (if \<not> m_initialized (tables s ty) then Done (s, Inl (from_generic uninitialized))
      else if m_free_head (tables s ty) = SLOT_NONE then Done (s, Inl (from_memory out_of_memory))
      else
        let slot = unat (m_free_head (tables s ty));
            object_type = (if requested = KT_none then m_type (tables s ty) else requested)
        in occupy_slot block_ok mem reg_ok reclaim ty slot object_type (upd_table ty pop_free s))"

definition find_raw :: "kobject_type \<Rightarrow> nat \<Rightarrow> u32 \<Rightarrow> 'a table_state_scheme \<Rightarrow> addr option exec" where
  "find_raw ty N ident s =
     (if unat ident \<ge> N then Done None
      else case t_object (tables s ty) (unat ident) of
        None \<Rightarrow> Done None
      | Some a \<Rightarrow>
          (case objs s a of
             None \<Rightarrow> Trap
           | Some b \<Rightarrow> if ko_id b = KOBJECT_ID_INVALID then Done None else Done (Some a)))"

definition find_by_gen ::
  "kobject_type \<Rightarrow> nat \<Rightarrow> u32 \<Rightarrow> u32 \<Rightarrow> 'a table_state_scheme \<Rightarrow> addr option exec" where
  "find_by_gen ty N ident gen s =
     exec_bind (find_raw ty N ident s)
       (\<lambda>p. case p of
          None \<Rightarrow> Done None
        | Some a \<Rightarrow>
            (case objs s a of
               None \<Rightarrow> Trap
             | Some b \<Rightarrow> if ko_generation b \<noteq> gen then Done None else Done (Some a)))"

definition acquire_ref ::
  "kobject_type \<Rightarrow> nat \<Rightarrow> lifecycle_state \<Rightarrow> 'a table_state_scheme \<Rightarrow>
   ('a table_state_scheme \<times> addr option) exec" where
  "acquire_ref ty ident st s =
     (case t_object (tables s ty) ident of
        None \<Rightarrow> Done (s, None)
      | Some a \<Rightarrow>
          (case objs s a of
             None \<Rightarrow> Trap
           | Some b \<Rightarrow> if ko_state b \<noteq> st then Done (s, None) else ref_take a s))"

definition table_release ::
  "'a tfinalize \<Rightarrow> kobject_type \<Rightarrow> nat \<Rightarrow> u32 \<Rightarrow> 'a table_state_scheme \<Rightarrow>
   ('a table_state_scheme \<times> unit expected) exec" where
  "table_release call_fin ty N ident s =
     (if unat ident \<ge> N then Done (s, Inl (from_generic invalid_arg))
      else case t_object (tables s ty) (unat ident) of
        None \<Rightarrow> Done (s, Inl (from_generic not_found))
      | Some a \<Rightarrow>
          (case objs s a of
             None \<Rightarrow> Trap
           | Some b \<Rightarrow>
               let b1 = (if ko_state b \<in> {Embryo, Active, Suspended} then fst (transition b Dying) else b);
                   s1 = upd_obj a b1 s
               in if ko_state b1 \<noteq> Dying then Done (s1, Inl (from_generic invalid_arg))
                  else exec_bind (unregister_object a s1)
                    (\<lambda>(s2, unregistered). case unregistered of
                       Inl e \<Rightarrow> Done (s2, Inl e)
                     | Inr _ \<Rightarrow>
                         (case objs s2 a of
                            None \<Rightarrow> Trap
                          | Some b2 \<Rightarrow>
                              exec_bind
                                (bobject_put call_fin a
                                   (upd_table ty
                                      (\<lambda>t. t\<lparr>t_object := (t_object t)(unat ident := None), m_count := m_count t - 1\<rparr>)
                                      (upd_obj a (fst (transition b2 Destroyed)) s2)))
                                (\<lambda>s3. Done (s3, Inr ()))))))"

text \<open>
  The table's \<open>reclaim_object\<close>, which the finalizer calls on the last reference: only then
  does the slot return to the free list.
\<close>

definition reclaim_retired :: "kobject_type \<Rightarrow> nat \<Rightarrow> addr \<Rightarrow> 'a table_state_scheme \<Rightarrow> 'a table_state_scheme exec" where
  "reclaim_retired ty N a s =
     (case objs s a of
        None \<Rightarrow> Trap
      | Some b \<Rightarrow>
          if unat (ko_id b) \<ge> N then Trap
          else if t_object (tables s ty) (unat (ko_id b)) \<noteq> None then Trap
          else exec_bind (complete_reclaim a s)
                 (\<lambda>s1. Done (upd_table ty (push_free (unat (ko_id b))) (free_object a s1))))"

text \<open>
  The finalizer the kernel installs is \<^const>\<open>finalize_last_put\<close>; \<open>owner_of\<close> tells which
  table a reclaimer pointer belongs to and \<open>cap_of\<close> that table's capacity.
\<close>

definition table_finalize ::
  "(fnptr \<Rightarrow> kobject_type) \<Rightarrow> (kobject_type \<Rightarrow> nat) \<Rightarrow> 'a tfinalize" where
  "table_finalize owner_of cap_of f a s =
     finalize_last_put (\<lambda>r. reclaim_retired (owner_of r) (cap_of (owner_of r))) a s"

text \<open>
  \<open>destroy_if\<close>: every active object the predicate selects is cleaned up and released; the
  reference taken for the test is dropped at the end of its round.
\<close>

fun destroy_from ::
  "'a tfinalize \<Rightarrow> kobject_type \<Rightarrow> nat \<Rightarrow> (addr \<Rightarrow> 'a table_state_scheme \<Rightarrow> bool) \<Rightarrow>
   (addr \<Rightarrow> 'a table_state_scheme \<Rightarrow> 'a table_state_scheme exec) \<Rightarrow>
   nat \<Rightarrow> nat \<Rightarrow> u32 \<Rightarrow> 'a table_state_scheme \<Rightarrow> ('a table_state_scheme \<times> u32) exec" where
  "destroy_from call_fin ty N pred cleanup i 0 destroyed s = Done (s, destroyed)"
| "destroy_from call_fin ty N pred cleanup i (Suc n) destroyed s =
     exec_bind (acquire_ref ty i Active s)
       (\<lambda>(s1, r). case r of
          None \<Rightarrow> destroy_from call_fin ty N pred cleanup (Suc i) n destroyed s1
        | Some a \<Rightarrow>
            if \<not> pred a s1 then
              exec_bind (ref_drop call_fin (Some a) s1)
                (destroy_from call_fin ty N pred cleanup (Suc i) n destroyed)
            else
              exec_bind (cleanup a s1)
                (\<lambda>s2. exec_bind (table_release call_fin ty N (of_nat i) s2)
                  (\<lambda>(s3, released).
                     exec_bind (ref_drop call_fin (Some a) s3)
                       (destroy_from call_fin ty N pred cleanup (Suc i) n
                          (case released of Inl _ \<Rightarrow> destroyed | Inr _ \<Rightarrow> destroyed + 1)))))"

definition destroy_if ::
  "'a tfinalize \<Rightarrow> kobject_type \<Rightarrow> nat \<Rightarrow> (addr \<Rightarrow> 'a table_state_scheme \<Rightarrow> bool) \<Rightarrow>
   (addr \<Rightarrow> 'a table_state_scheme \<Rightarrow> 'a table_state_scheme exec) \<Rightarrow>
   'a table_state_scheme \<Rightarrow> ('a table_state_scheme \<times> u32) exec" where
  "destroy_if call_fin ty N pred cleanup s = destroy_from call_fin ty N pred cleanup 0 N 0 s"

section \<open>The free list as a list\<close>

fun free_chain :: "(nat \<Rightarrow> u32) \<Rightarrow> u32 \<Rightarrow> nat list \<Rightarrow> bool" where
  "free_chain nx h [] \<longleftrightarrow> h = SLOT_NONE"
| "free_chain nx h (i # fl) \<longleftrightarrow> h = of_nat i \<and> free_chain nx (nx i) fl"

definition table_wf :: "nat \<Rightarrow> scoms_table \<Rightarrow> nat list \<Rightarrow> bool" where
  "table_wf N t fl \<longleftrightarrow>
     N < 2 ^ 32 \<and> free_chain (t_next t) (m_free_head t) fl \<and> distinct fl \<and>
     (\<forall>i \<in> set fl. i < N \<and> t_object t i = None) \<and>
     (\<forall>i. t_object t i \<noteq> None \<longrightarrow> i < N \<and> t_object_block t (i div BLOCK_SIZE))"

lemma free_chain_upd: "i \<notin> set fl \<Longrightarrow> free_chain (nx(i := v)) h fl = free_chain nx h fl"
  by (induction fl arbitrary: h) auto

lemma slot_word: "i < N \<Longrightarrow> N < 2 ^ 32 \<Longrightarrow> unat (of_nat i :: u32) = i"
  by (simp add: unat_of_nat take_bit_eq_mod)

lemma slot_not_none: "i < N \<Longrightarrow> N < 2 ^ 32 \<Longrightarrow> (of_nat i :: u32) \<noteq> SLOT_NONE"
proof
  assume i: "i < N" "N < 2 ^ 32" and "(of_nat i :: u32) = SLOT_NONE"
  then have "unat (of_nat i :: u32) = unat SLOT_NONE" by simp
  with i show False
    by (simp add: slot_word SLOT_NONE_def unsigned_minus_1_eq_mask mask_eq_exp_minus_1)
qed

lemma table_wf_head:
  assumes "table_wf N t fl"
  shows "m_free_head t = SLOT_NONE \<longleftrightarrow> fl = []"
    and "fl = i # fl' \<Longrightarrow> unat (m_free_head t) = i \<and> i < N \<and> t_object t i = None"
  using assms slot_not_none [of _ N] slot_word [of _ N] by (cases fl; auto simp: table_wf_def)+

lemma table_wf_pop:
  assumes "table_wf N t (i # fl)"
  shows "table_wf N (pop_free t) fl" and "t_object (pop_free t) = t_object t"
    and "t_generation (pop_free t) = t_generation t"
  using assms table_wf_head(2) [OF assms refl]
  by (auto simp: table_wf_def pop_free_def Let_def free_chain_upd)

lemma table_wf_push:
  assumes "table_wf N t fl" and "i < N" and "i \<notin> set fl" and "t_object t i = None"
  shows "table_wf N (push_free i t) (i # fl)" and "t_object (push_free i t) = t_object t"
  using assms by (auto simp: table_wf_def push_free_def free_chain_upd)

lemma ensure_object_block_wf:
  assumes "table_wf N t fl" and "ensure_object_block ok b t = (t', r)"
  shows "table_wf N t' fl" and "t_object t' = t_object t" and "t_generation t' = t_generation t"
    and "m_type t' = m_type t" and "m_count t' = m_count t" and "r \<Longrightarrow> t_object_block t' b" and "\<not> r \<Longrightarrow> t' = t"
proof -
  have "t_object t i = None" if "\<not> t_object_block t b" "i div BLOCK_SIZE = b" for i
    using assms(1) that by (auto simp: table_wf_def)
  then have obj: "\<not> t_object_block t b \<Longrightarrow> (\<lambda>i. if i div BLOCK_SIZE = b then None else t_object t i) = t_object t"
    by auto
  show "t_object t' = t_object t"
    using assms(2) obj by (auto simp: ensure_object_block_def split: if_splits)
  with assms show "table_wf N t' fl"
    by (auto simp: table_wf_def ensure_object_block_def split: if_splits)
  show "t_generation t' = t_generation t" "m_type t' = m_type t" "m_count t' = m_count t"
    "r \<Longrightarrow> t_object_block t' b" "\<not> r \<Longrightarrow> t' = t"
    using assms(2) by (auto simp: ensure_object_block_def split: if_splits)
qed

lemma table_wf_occupy:
  assumes "table_wf N t fl" and "i < N" and "i \<notin> set fl" and "t_object_block t (i div BLOCK_SIZE)"
  shows "table_wf N (t\<lparr>t_object := (t_object t)(i := Some a), t_generation := g\<rparr>) fl"
  using assms by (auto simp: table_wf_def)

lemma table_wf_vacate:
  "table_wf N t fl \<Longrightarrow> table_wf N (t\<lparr>t_object := (t_object t)(i := None)\<rparr>) fl"
  by (auto simp: table_wf_def)

lemma table_wf_count [simp]: "table_wf N (t\<lparr>m_count := c\<rparr>) fl = table_wf N t fl"
  by (simp add: table_wf_def)

section \<open>The metadata operations leave the tables alone\<close>

lemma tables_entry_upd [simp]: "tables (entry_upd i e s) = tables s"
  by (simp add: entry_upd_def Let_def)

lemma tables_upd_obj [simp]: "tables (upd_obj a b s) = tables s"
  by (simp add: upd_obj_def)

lemma tables_free_object [simp]: "tables (free_object a s) = tables s"
  by (simp add: free_object_def)

lemma tables_metadata_at: "metadata_at i c ok s = (s', r) \<Longrightarrow> tables s' = tables s"
  by (auto simp: metadata_at_def Let_def split: option.splits if_splits)

lemma tables_register_from: "register_from ok a b ow i n s = (s', r) \<Longrightarrow> tables s' = tables s"
proof (induction n arbitrary: i s)
  case 0
  then show ?case by simp
next
  case (Suc n)
  then show ?case
    by (auto split: prod.splits option.splits if_splits dest!: tables_metadata_at)
qed

lemma tables_register: "register_object ok a ow s = Done (s', r) \<Longrightarrow> tables s' = tables s"
  by (auto simp: register_object_def split: option.splits if_splits dest: tables_register_from)

lemma tables_set_reclaimer: "set_reclaimer a f s = Done (s', r) \<Longrightarrow> tables s' = tables s"
  by (auto simp: set_reclaimer_def split: option.splits if_splits)

lemma tables_clear_parent: "clear_parent_locked c e s = Done s' \<Longrightarrow> tables s' = tables s"
  by (auto simp: clear_parent_locked_def exec_bind_Done_iff Let_def split: option.splits if_splits)

lemma tables_unregister: "unregister_object a s = Done (s', r) \<Longrightarrow> tables s' = tables s"
  by (auto simp: unregister_object_def exec_bind_Done_iff split: option.splits if_splits
      dest!: tables_clear_parent)

lemma tables_complete_reclaim: "complete_reclaim a s = Done s' \<Longrightarrow> tables s' = tables s"
  by (auto simp: complete_reclaim_def split: option.splits)

lemma upd_table_simps [simp]:
  "tables (upd_table ty f s) = (tables s)(ty := f (tables s ty))" "objs (upd_table ty f s) = objs s"
  "g_metadata (upd_table ty f s) = g_metadata s" "g_bobject_finalizer (upd_table ty f s) = g_bobject_finalizer s"
  by (simp_all add: upd_table_def)

lemma entry_at_upd_table [simp]: "entry_at (upd_table ty f s) i = entry_at s i"
  by (simp add: entry_at_alt)

lemma meta_view_upd_table [simp]: "meta_view (upd_table ty f s) = meta_view s"
  by (rule ext) (simp add: meta_view_def entry_at_alt)

lemma meta_inv_upd_table [simp]: "meta_inv (upd_table ty f s) = meta_inv s"
  by (simp add: meta_inv_def shape_ok_def)

section \<open>Allocation\<close>

lemma meta_inv_free_object:
  assumes "meta_inv s" and "objs s a = Some b" and "object_flags b = 0"
  shows "meta_inv (free_object a s)"
proof -
  have "keeps_registered (objs s) (objs (free_object a s))"
    using assms(2,3) by (auto simp: keeps_registered_def free_object_def)
  from meta_inv_keeps [OF assms(1) _ this] show ?thesis
    by (simp add: free_object_def)
qed

lemma register_fresh:
  assumes inv: "meta_inv s" and b: "objs s a = None" "object_flags b = 0" "ko_id b \<noteq> KOBJECT_ID_INVALID"
  obtains s2 r where "register_object ok a ow (upd_obj a b s) = Done (s2, r)" and "meta_inv s2"
    and "tables s2 = tables s" and "isl r \<Longrightarrow> objs s2 = (objs s)(a := Some b)"
    and "\<not> isl r \<Longrightarrow> \<exists>j e. objs s2 = (objs s)(a := Some (b\<lparr>object_flags := of_nat j + 1\<rparr>)) \<and>
           find_locked s2 a (b\<lparr>object_flags := of_nat j + 1\<rparr>) = Some (j, e)"
proof -
  let ?s = "upd_obj a b s"
  have "keeps_registered (objs s) (objs ?s)"
    using b(1) by (auto simp: keeps_registered_def)
  then have inv1: "meta_inv ?s"
    using meta_inv_keeps [OF inv, of ?s] by simp
  have at: "objs ?s a = Some b" by simp
  obtain s2 r where reg: "register_from ok a b ow 0 MAX_OBJECT_METADATA ?s = (s2, r)"
    by (cases "register_from ok a b ow 0 MAX_OBJECT_METADATA ?s")
  have run: "register_object ok a ow ?s = Done (s2, r)"
    using reg b(2) by (simp add: register_object_def find_locked_def)
  note post = register_from_ok [OF inv1 at b(2,3) _ reg, simplified]
  show thesis
  proof (rule that [OF run])
    show "meta_inv s2" "tables s2 = tables s"
      using post tables_register_from [OF reg] by simp_all
    show "isl r \<Longrightarrow> objs s2 = (objs s)(a := Some b)"
      using post by (cases r) (auto simp: register_post_def)
    show "\<exists>j e. objs s2 = (objs s)(a := Some (b\<lparr>object_flags := of_nat j + 1\<rparr>)) \<and>
        find_locked s2 a (b\<lparr>object_flags := of_nat j + 1\<rparr>) = Some (j, e)" if "\<not> isl r"
      using that post by (cases r) (auto simp: register_post_def find_locked_Some registered_entry_def)
  qed
qed

lemma set_reclaimer_found:
  assumes "objs s a = Some b" and "find_locked s a b = Some (j, e)" and "meta_inv s"
  shows "\<exists>s'. set_reclaimer a (Some f) s = Done (s', Inr ()) \<and> meta_inv s' \<and> objs s' = objs s \<and>
     tables s' = tables s \<and> find_locked s' a b = Some (j, e\<lparr>reclaimer := Some f\<rparr>)"
proof -
  let ?s = "entry_upd j (e\<lparr>reclaimer := Some f\<rparr>) s"
  have run: "set_reclaimer a (Some f) s = Done (?s, Inr ())"
    using assms(1,2) by (simp add: set_reclaimer_def)
  have "meta_view ?s = (meta_view s)(j := e\<lparr>reclaimer := Some f\<rparr>)"
    using assms(2) meta_invD(1) [OF assms(3)] by (intro meta_view_entry_upd) (auto simp: find_locked_Some entry_at_active)
  then have "find_locked ?s a b = Some (j, e\<lparr>reclaimer := Some f\<rparr>)"
    using assms(2) by (auto simp: find_locked_Some)
  moreover have "meta_inv ?s"
    by (rule meta_inv_set_reclaimer [OF assms(3) run])
  ultimately show ?thesis
    using run by (intro exI [of _ ?s]) simp
qed

definition fresh_block :: "addr option \<Rightarrow> 'a table_state_scheme \<Rightarrow> bool" where
  "fresh_block mem s \<longleftrightarrow> (case mem of None \<Rightarrow> True | Some a \<Rightarrow> objs s a = None)"

text \<open>The object that a successful allocation leaves in slot \<open>i\<close>.\<close>

definition new_object :: "kobject_type \<Rightarrow> nat \<Rightarrow> u32 \<Rightarrow> addr \<Rightarrow> 'a table_state_scheme \<Rightarrow> bool" where
  "new_object object_type i gen a s \<longleftrightarrow>
     (\<exists>b. objs s a = Some b \<and> ko_id b = of_nat i \<and> ko_type b = object_type \<and> ko_state b = Embryo \<and>
        ko_ref b = 2 \<and> ko_generation b = gen \<and> find_locked s a b \<noteq> None)"

text \<open>The table once the slot is taken, and the two ways the allocation can end.\<close>

definition taken :: "nat \<Rightarrow> addr \<Rightarrow> u32 \<Rightarrow> scoms_table \<Rightarrow> scoms_table" where
  "taken i a g t = t\<lparr>t_object := (t_object t)(i := Some a), t_generation := (t_generation t)(i := g)\<rparr>"

lemma abandon_slot_effect:
  assumes wf: "table_wf N t fl" and i: "i < N" "i \<notin> set fl" "t_object t i = None" "t_object_block t (i div BLOCK_SIZE)"
    and inv: "meta_inv s2" and tab: "tables s2 ty = taken i a g t" and obj: "objs s2 = ob(a := Some b)"
    and b: "object_flags b = 0" and oa: "ob a = None"
  shows "objs (abandon_slot ty i a s2) = ob \<and> meta_inv (abandon_slot ty i a s2) \<and>
     table_wf N (tables (abandon_slot ty i a s2) ty) (i # fl) \<and>
     t_object (tables (abandon_slot ty i a s2) ty) = t_object t"
proof -
  let ?s' = "abandon_slot ty i a s2"
  have tab': "tables ?s' ty = (push_free i (taken i a g t))\<lparr>t_object := (t_object t)(i := None)\<rparr>"
    by (simp add: abandon_slot_def tab taken_def)
  have same: "(t_object t)(i := None) = t_object t"
    by (rule fun_upd_idem) (rule i(3))
  from table_wf_push(1) [OF wf i(1-3)]
  have "table_wf N (tables ?s' ty) (i # fl)"
    unfolding tab' table_wf_def push_free_def taken_def same by simp
  moreover have "t_object (tables ?s' ty) = t_object t"
    unfolding tab' same by simp
  moreover have "objs ?s' = ob"
    using fun_upd_idem [of ob a None, OF oa] by (simp add: abandon_slot_def free_object_def obj)
  moreover have "meta_inv ?s'"
    using meta_inv_free_object [OF inv, of a b] obj b by (simp add: abandon_slot_def)
  ultimately show ?thesis by simp
qed

lemma publish_slot_effect:
  assumes inv: "meta_inv s2" and at: "objs s2 a = Some b" and fl: "find_locked s2 a b = Some (j, e)"
    and b: "ko_ref b = 1"
  shows "\<exists>s3 s4. set_reclaimer a (Some reclaim) s2 = Done (s3, Inr ()) \<and>
     ref_take a (upd_table ty (\<lambda>t. t\<lparr>m_count := m_count t + 1\<rparr>) s3) = Done (s4, Some a) \<and> meta_inv s4 \<and>
     tables s4 ty = (tables s2 ty)\<lparr>m_count := m_count (tables s2 ty) + 1\<rparr> \<and>
     objs s4 = (objs s2)(a := Some (b\<lparr>ko_ref := 2\<rparr>)) \<and> find_locked s4 a (b\<lparr>ko_ref := 2\<rparr>) \<noteq> None"
proof -
  from set_reclaimer_found [OF at fl inv, of reclaim] obtain s3 where
    set: "set_reclaimer a (Some reclaim) s2 = Done (s3, Inr ())" and s3: "meta_inv s3" "objs s3 = objs s2"
      "tables s3 = tables s2" "find_locked s3 a b = Some (j, e\<lparr>reclaimer := Some reclaim\<rparr>)" by blast
  let ?s3 = "upd_table ty (\<lambda>t. t\<lparr>m_count := m_count t + 1\<rparr>) s3"
  let ?s4 = "upd_obj a (b\<lparr>ko_ref := 2\<rparr>) ?s3"
  have take: "ref_take a ?s3 = Done (?s4, Some a)"
    using at s3(2) b bobject_try_get_live [of ?s3 a b] by (simp add: ref_take_def KREF_LIMIT_def)
  have "keeps_registered (objs ?s3) (objs ?s4)"
    unfolding objs_upd_obj by (rule keeps_registered_upd [of _ _ b]) (use at s3(2) in simp_all)
  then have "meta_inv ?s4"
    using meta_inv_keeps [of ?s3 ?s4] s3(1) by simp
  moreover have "find_locked ?s4 a (b\<lparr>ko_ref := 2\<rparr>) = find_locked s3 a b"
    by (simp add: find_locked_def Let_def)
  ultimately show ?thesis
    using set take s3 by auto
qed

lemma registered_slot_effect:
  fixes s s2 :: "'a table_state_scheme"
  defines "b g i ot j \<equiv> (initialize (bobject_default\<lparr>ko_generation := g\<rparr>) (of_nat i) ot)\<lparr>object_flags := of_nat j + 1\<rparr>"
  assumes inv: "meta_inv s2" and t: "tables s2 ty = taken i a g t1" "table_wf N (taken i a g t1) fl"
    and obj: "objs s2 = (objs s)(a := Some (b g i object_type j))"
    and found: "find_locked s2 a (b g i object_type j) = Some (j, e)"
  shows "\<exists>s3 s4. set_reclaimer a (Some reclaim) s2 = Done (s3, Inr ())
    \<and> ref_take a (upd_table ty (\<lambda>t. t\<lparr>m_count := m_count t + 1\<rparr>) s3) = Done (s4, Some a)
    \<and> meta_inv s4 \<and> table_wf N (tables s4 ty) fl \<and> t_object (tables s4 ty) = (t_object t1)(i := Some a)
    \<and> (\<forall>x. x \<noteq> a \<longrightarrow> objs s4 x = objs s x) \<and> new_object object_type i g a s4"
proof -
  let ?b = "b g i object_type j"
  have at: "objs s2 a = Some ?b" and ref: "ko_ref ?b = 1"
    unfolding obj by (simp_all add: initialize_def b_def)
  from publish_slot_effect [OF inv at found ref, of reclaim ty] obtain s3 s4 where
    run: "set_reclaimer a (Some reclaim) s2 = Done (s3, Inr ())"
      "ref_take a (upd_table ty (\<lambda>t. t\<lparr>m_count := m_count t + 1\<rparr>) s3) = Done (s4, Some a)"
    and s4: "meta_inv s4" "tables s4 ty = (tables s2 ty)\<lparr>m_count := m_count (tables s2 ty) + 1\<rparr>"
      "objs s4 = (objs s2)(a := Some (?b\<lparr>ko_ref := 2\<rparr>))" "find_locked s4 a (?b\<lparr>ko_ref := 2\<rparr>) \<noteq> None"
    by blast
  have "new_object object_type i g a s4"
    unfolding new_object_def using s4(3,4)
    by (intro exI [of _ "?b\<lparr>ko_ref := 2\<rparr>"]) (simp add: initialize_def b_def)
  moreover have "tables s4 ty = (taken i a g t1)\<lparr>m_count := m_count t1 + 1\<rparr>"
    by (simp add: s4(2) t(1) taken_def)
  then have "table_wf N (tables s4 ty) fl" "t_object (tables s4 ty) = (t_object t1)(i := Some a)"
    using t(2) by (simp_all add: taken_def)
  ultimately show ?thesis using run s4(1,3) obj by auto
qed

lemma occupy_slot_effect:
  assumes wf: "table_wf N (tables s ty) fl" and i: "i < N" "i \<notin> set fl" "t_object (tables s ty) i = None"
    and inv: "meta_inv s" and fresh: "fresh_block mem s"
  shows "\<exists>s' r. occupy_slot block_ok mem reg_ok reclaim ty i object_type s = Done (s', r) \<and> meta_inv s' \<and>
     (\<forall>x. mem \<noteq> Some x \<longrightarrow> objs s' x = objs s x) \<and>
     (case r of
        Inl _ \<Rightarrow> table_wf N (tables s' ty) (i # fl) \<and> t_object (tables s' ty) = t_object (tables s ty) \<and>
          objs s' = objs s
      | Inr p \<Rightarrow> p = mem \<and> mem \<noteq> None \<and> table_wf N (tables s' ty) fl \<and>
          t_object (tables s' ty) = (t_object (tables s ty))(i := mem) \<and>
          new_object object_type i (t_generation (tables s ty) i + 1) (the mem) s')"
proof -
  obtain t1 ok where ens: "ensure_object_block block_ok (i div BLOCK_SIZE) (tables s ty) = (t1, ok)"
    by (cases "ensure_object_block block_ok (i div BLOCK_SIZE) (tables s ty)")
  note t1 = ensure_object_block_wf [OF wf ens]
  show ?thesis
  proof (cases "ok \<and> mem \<noteq> None")
    case False
    have p0: "table_wf N (push_free i (tables s ty)) (i # fl)" "t_object (push_free i (tables s ty)) = t_object (tables s ty)"
      by (rule table_wf_push [OF wf i])+
    have p1: "table_wf N (push_free i t1) (i # fl)" "t_object (push_free i t1) = t_object (tables s ty)"
      using table_wf_push [OF t1(1) i(1,2)] i(3) t1(2) by simp_all
    show ?thesis
      using False ens p0 p1 inv by (cases ok; cases mem) (auto simp: occupy_slot_def Let_def)
  next
    case True
    then obtain a where a: "mem = Some a" and ok: ok by auto
    have oa: "objs s a = None" using fresh a by (simp add: fresh_block_def)
    let ?g = "t_generation (tables s ty) i + 1"
    let ?b = "initialize (bobject_default\<lparr>ko_generation := ?g\<rparr>) (of_nat i) object_type"
    let ?s1 = "upd_table ty (\<lambda>t. taken i a ?g t1) s"
    have cons: "construct_object ty i object_type a (upd_table ty (\<lambda>t. t1) s) = upd_obj a ?b ?s1"
      by (simp add: construct_object_def t1(3) upd_table_def taken_def Let_def)
    have wf2: "table_wf N (taken i a ?g t1) fl"
      using table_wf_occupy [OF t1(1) i(1,2) t1(6) [OF ok]] by (simp add: taken_def)
    have id: "ko_id ?b \<noteq> KOBJECT_ID_INVALID" "object_flags ?b = 0"
      using slot_not_none [OF i(1)] wf by (simp_all add: initialize_def table_wf_def SLOT_NONE_def KOBJECT_ID_INVALID_def)
    obtain s2 r where reg: "register_object reg_ok a KOBJECT_ID_INVALID (upd_obj a ?b ?s1) = Done (s2, r)"
      and s2: "meta_inv s2" "tables s2 = tables ?s1" "isl r \<Longrightarrow> objs s2 = (objs s)(a := Some ?b)"
        "\<not> isl r \<Longrightarrow> \<exists>j e. objs s2 = (objs s)(a := Some (?b\<lparr>object_flags := of_nat j + 1\<rparr>)) \<and>
           find_locked s2 a (?b\<lparr>object_flags := of_nat j + 1\<rparr>) = Some (j, e)"
      by (rule register_fresh [of ?s1 a ?b reg_ok KOBJECT_ID_INVALID]) (use inv oa id in simp_all)
    show ?thesis
    proof (cases r)
      case (Inl e)
      then have run: "occupy_slot block_ok mem reg_ok reclaim ty i object_type s = Done (abandon_slot ty i a s2, Inl e)"
        using ens ok a reg by (simp add: occupy_slot_def cons)
      have "t_object t1 i = None" using i(3) t1(2) by simp
      from abandon_slot_effect [OF t1(1) i(1,2) this t1(6) [OF ok] s2(1) _ s2(3) id(2) oa, of ty ?g] Inl s2(2) run
      show ?thesis by (simp add: t1(2))
    next
      case (Inr u)
      from s2(4) Inr obtain j e where obj: "objs s2 = (objs s)(a := Some (?b\<lparr>object_flags := of_nat j + 1\<rparr>))"
        and fl: "find_locked s2 a (?b\<lparr>object_flags := of_nat j + 1\<rparr>) = Some (j, e)" by auto
      have t2: "tables s2 ty = taken i a ?g t1" by (simp add: s2(2) taken_def)
      from registered_slot_effect [OF s2(1) t2 wf2 obj fl, of reclaim] show ?thesis
        using ens ok a reg Inr by (auto simp: occupy_slot_def cons t1(2))
    qed
  qed
qed

section \<open>Release\<close>

lemma unregister_leaf_table:
  assumes "meta_inv s" and "objs s a = Some b" and "find_locked s a b = Some (j, e)" and "dependent_count e = 0"
  obtains s' where "unregister_object a s = Done (s', Inr ())" and "meta_inv s'" and "objs s' = objs s"
    and "tables s' = tables s" and "g_bobject_finalizer s' = g_bobject_finalizer s"
    and "retired_locked s' a b = Some (j, meta_view s' j)" and "reclaimer (meta_view s' j) = reclaimer e"
proof -
  have e: "e = meta_view s j" "object_flags b = of_nat j + 1" "j < MAX_OBJECT_METADATA" "md_object (meta_view s j) = Some a"
    using assms(3) by (auto simp: find_locked_Some)
  from unregister_object_ok [OF assms] obtain s' where s': "unregister_object a s = Done (s', Inr ())" "meta_inv s'"
    "objs s' = objs s" "g_bobject_finalizer s' = g_bobject_finalizer s" "md_object (meta_view s' j) = Some a"
    "reclaim_pending (meta_view s' j)" "reclaimer (meta_view s' j) = reclaimer e"
    using e by (metis (no_types, lifting))
  then show thesis
    using that [of s'] tables_unregister [OF s'(1)] e by (simp add: retired_locked_Some)
qed

text \<open>The last reference to a retired object: its slot goes back to the free list, its header is freed.\<close>

lemma last_put_reclaims:
  assumes inv: "meta_inv s" and b: "objs s a = Some b" "ko_ref b = 1" "ko_id b = of_nat i"
    and f: "g_bobject_finalizer s = Some f" and ret: "retired_locked s a b = Some (j, e)"
    and r: "reclaimer e = Some r" "owner_of r = ty" "cap_of ty = N"
    and wf: "table_wf N (tables s ty) fl" and i: "i < N" "i \<notin> set fl" "t_object (tables s ty) i = None"
  shows "\<exists>s'. bobject_put (table_finalize owner_of cap_of) a s = Done s' \<and> meta_inv s' \<and>
     objs s' = (objs s)(a := None) \<and> table_wf N (tables s' ty) (i # fl) \<and>
     t_object (tables s' ty) = t_object (tables s ty)"
proof -
  let ?b0 = "b\<lparr>ko_ref := 0\<rparr>"
  let ?t = "upd_obj a ?b0 s"
  have id: "unat (ko_id b) = i"
    using slot_word [OF i(1)] wf b(3) by (simp add: table_wf_def)
  have "keeps_registered (objs s) (objs ?t)"
    unfolding objs_upd_obj by (rule keeps_registered_upd [of _ _ b]) (use b(1) in simp_all)
  then have inv_t: "meta_inv ?t"
    using meta_inv_keeps [OF inv, of ?t] by simp
  have ret_t: "retired_locked ?t a ?b0 = Some (j, e)"
    using ret by (auto simp: retired_locked_Some)
  have at: "objs ?t a = Some ?b0" by simp
  from complete_reclaim_ok [OF inv_t at ret_t] obtain s1 where s1: "complete_reclaim a ?t = Done s1" "meta_inv s1"
    "objs s1 = (objs ?t)(a := Some (?b0\<lparr>object_flags := 0\<rparr>))" by metis
  have tab: "tables s1 = tables s"
    using tables_complete_reclaim [OF s1(1)] by simp
  let ?s' = "upd_table ty (push_free i) (free_object a s1)"
  have "kref_put (ko_ref b) = Done (0, True)"
    using b(2) by (simp add: kref_put_def)
  then have run: "bobject_put (table_finalize owner_of cap_of) a s = Done ?s'"
    using b(1) f ret_t r id i s1(1)
    by (simp add: bobject_put_def table_finalize_def finalize_last_put_def reclaim_retired_def not_le [symmetric])
  have "meta_inv ?s'"
    using meta_inv_free_object [OF s1(2), of a "?b0\<lparr>object_flags := 0\<rparr>"] s1(3) by simp
  moreover have "objs ?s' = (objs s)(a := None)"
    by (simp add: free_object_def s1(3))
  moreover have "tables ?s' ty = push_free i (tables s ty)"
    by (simp add: tab)
  ultimately show ?thesis
    using run table_wf_push [OF wf i] by auto
qed

definition released_header :: "bobject \<Rightarrow> bobject" where
  "released_header b = b\<lparr>ko_state := Destroyed\<rparr>"

lemma table_release_run:
  assumes inv: "meta_inv s" and slot: "t_object (tables s ty) i = Some a" and wf: "table_wf N (tables s ty) fl"
    and b: "objs s a = Some b" "ko_state b \<in> {Embryo, Active, Suspended, Dying}"
    and f: "find_locked s a b = Some (j, e)" "dependent_count e = 0"
  obtains s2 where "meta_inv s2" and "objs s2 = (objs s)(a := Some (released_header b))"
    and "tables s2 ty = (tables s ty)\<lparr>t_object := (t_object (tables s ty))(i := None), m_count := m_count (tables s ty) - 1\<rparr>"
    and "g_bobject_finalizer s2 = g_bobject_finalizer s"
    and "retired_locked s2 a (released_header b) = Some (j, meta_view s2 j)" and "reclaimer (meta_view s2 j) = reclaimer e"
    and "table_release call_fin ty N (of_nat i) s = exec_bind (bobject_put call_fin a s2) (\<lambda>s3. Done (s3, Inr ()))"
proof -
  let ?b1 = "b\<lparr>ko_state := Dying\<rparr>"
  let ?s1 = "upd_obj a ?b1 s"
  have i: "i < N" "unat (of_nat i :: u32) = i"
    using wf slot slot_word [of i N] by (auto simp: table_wf_def)
  have "keeps_registered (objs s) (objs ?s1)"
    unfolding objs_upd_obj by (rule keeps_registered_upd [of _ _ b]) (use b(1) in simp_all)
  then have inv1: "meta_inv ?s1"
    using meta_inv_keeps [OF inv, of ?s1] by simp
  have at: "objs ?s1 a = Some ?b1" by simp
  have f1: "find_locked ?s1 a ?b1 = Some (j, e)"
    using f(1) by (auto simp: find_locked_Some)
  obtain s' where s': "unregister_object a ?s1 = Done (s', Inr ())" "meta_inv s'" "objs s' = objs ?s1"
    "tables s' = tables ?s1" "g_bobject_finalizer s' = g_bobject_finalizer ?s1"
    "retired_locked s' a ?b1 = Some (j, meta_view s' j)" "reclaimer (meta_view s' j) = reclaimer e"
    by (rule unregister_leaf_table [OF inv1 at f1 f(2)])
  let ?t2 = "\<lambda>t. t\<lparr>t_object := (t_object t)(i := None), m_count := m_count t - 1\<rparr>"
  let ?s2 = "upd_table ty ?t2 (upd_obj a (released_header b) s')"
  have b1: "(if ko_state b \<in> {Embryo, Active, Suspended} then fst (transition b Dying) else b) = ?b1"
    using b(2) by (auto simp: transition_def)
  have b2: "fst (transition ?b1 Destroyed) = released_header b"
    by (simp add: transition_def released_header_def)
  have at': "objs s' a = Some ?b1" using s'(3) by simp
  have run: "table_release call_fin ty N (of_nat i) s = exec_bind (bobject_put call_fin a ?s2) (\<lambda>s3. Done (s3, Inr ()))"
    using i slot b(1) s'(1) at' by (simp add: table_release_def b1 b2 Let_def del: insert_iff)
  have "keeps_registered (objs s') (objs (upd_obj a (released_header b) s'))"
    unfolding objs_upd_obj by (rule keeps_registered_upd [of _ _ ?b1]) (use at' in \<open>simp_all add: released_header_def\<close>)
  then have "meta_inv (upd_obj a (released_header b) s')"
    using meta_inv_keeps [OF s'(2), of "upd_obj a (released_header b) s'"] by simp
  then have "meta_inv ?s2" by simp
  then show thesis
    using s' run by (intro that [of ?s2]) (simp_all add: retired_locked_Some released_header_def)
qed

section \<open>Initialisation\<close>

lemma ensure_slot_block_ok:
  assumes "ok b"
  obtains t' where "ensure_slot_block ok b t = (t', True)" and "t_link_block t' b" and "t_object t' = t_object t"
    and "t_object_block t' = t_object_block t" and "\<And>c. t_link_block t c \<Longrightarrow> t_link_block t' c"
    and "\<And>k. t_link_block t (k div BLOCK_SIZE) \<Longrightarrow> t_next t' k = t_next t k"
  by (rule that [of "fst (ensure_slot_block ok b t)"]) (use assms in \<open>auto simp: ensure_slot_block_def\<close>)

lemma link_slots_ok:
  assumes "\<forall>b. ok b" and "\<forall>k < i. t_link_block t (k div BLOCK_SIZE)"
  shows "\<exists>t'. link_slots ok N i n t = (t', True) \<and> t_object t' = t_object t \<and>
     t_object_block t' = t_object_block t \<and> (\<forall>k < i. t_next t' k = t_next t k) \<and>
     (\<forall>k. i \<le> k \<and> k < i + n \<longrightarrow> t_next t' k = (if k + 1 < N then of_nat (k + 1) else SLOT_NONE))"
  using assms(2)
proof (induction n arbitrary: i t)
  case 0
  then show ?case by auto
next
  case (Suc n)
  obtain t1 where t1: "ensure_slot_block ok (i div BLOCK_SIZE) t = (t1, True)" "t_link_block t1 (i div BLOCK_SIZE)"
    "t_object t1 = t_object t" "t_object_block t1 = t_object_block t"
    "\<And>c. t_link_block t c \<Longrightarrow> t_link_block t1 c"
    "\<And>k. t_link_block t (k div BLOCK_SIZE) \<Longrightarrow> t_next t1 k = t_next t k"
    using ensure_slot_block_ok [of ok "i div BLOCK_SIZE" t] assms(1) by metis
  let ?t = "t1\<lparr>t_next := (t_next t1)(i := if i + 1 < N then of_nat (i + 1) else SLOT_NONE)\<rparr>"
  have "\<forall>k < Suc i. t_link_block ?t (k div BLOCK_SIZE)"
    using t1(2,5) Suc.prems by (auto simp: less_Suc_eq)
  from Suc.IH [OF this] obtain t' where t': "link_slots ok N (Suc i) n ?t = (t', True)" "t_object t' = t_object ?t"
    "t_object_block t' = t_object_block ?t" "\<forall>k < Suc i. t_next t' k = t_next ?t k"
    "\<forall>k. Suc i \<le> k \<and> k < Suc i + n \<longrightarrow> t_next t' k = (if k + 1 < N then of_nat (k + 1) else SLOT_NONE)"
    by blast
  have "t_next t' k = (if k + 1 < N then of_nat (k + 1) else SLOT_NONE)" if "i \<le> k" "k < i + Suc n" for k
    using t'(4,5) that by (cases "k = i") auto
  moreover have "t_next t' k = t_next t k" if "k < i" for k
    using t'(4) t1(6) [of k] Suc.prems that by auto
  ultimately show ?case
    using t1 t'(1-3) by auto
qed

lemma free_chain_upto:
  assumes "\<forall>k < N. nx k = (if k + 1 < N then of_nat (k + 1) else SLOT_NONE)" and "k \<le> N" and "0 < N"
  shows "free_chain nx (if k < N then of_nat k else SLOT_NONE) [k..<N]"
  using assms(2)
proof (induction "N - k" arbitrary: k)
  case 0
  then show ?case by simp
next
  case (Suc d)
  then have "k < N" by simp
  then have "[k..<N] = k # [Suc k..<N]" by (rule upt_conv_Cons)
  moreover have "free_chain nx (if Suc k < N then of_nat (Suc k) else SLOT_NONE) [Suc k..<N]"
    using Suc by auto
  moreover have "nx k = (if Suc k < N then of_nat (Suc k) else SLOT_NONE)"
    using \<open>k < N\<close> assms(1) by (simp del: of_nat_Suc)
  ultimately show ?case
    using \<open>k < N\<close> by (simp del: of_nat_Suc)
qed

lemma table_init_wf:
  assumes "\<forall>b. ok b" and "0 < N" and "N < 2 ^ 32" and "\<forall>k. t_object (tables s ty) k = None"
    and "g_bobject_finalizer s = None \<or> g_bobject_finalizer s = Some fin"
  obtains s' where "table_init ok fin ty N s = Done s'" and "table_wf N (tables s' ty) [0..<N]"
    and "m_initialized (tables s' ty)" and "objs s' = objs s" and "g_metadata s' = g_metadata s"
proof -
  let ?s1 = "s\<lparr>g_bobject_finalizer := Some fin\<rparr>"
  have fin: "install_bobject_finalizer (Some fin) s = Done ?s1"
    using assms(5) by (auto simp: install_bobject_finalizer_def)
  obtain t' where t': "link_slots ok N 0 N ((tables s ty)\<lparr>m_type := ty\<rparr>) = (t', True)" "t_object t' = t_object (tables s ty)"
    "\<forall>k < N. t_next t' k = (if k + 1 < N then of_nat (k + 1) else SLOT_NONE)"
    using link_slots_ok [OF assms(1), of 0 "(tables s ty)\<lparr>m_type := ty\<rparr>" N N] by auto
  let ?t = "t'\<lparr>m_free_head := 0, m_count := 0, m_initialized := True\<rparr>"
  have "table_wf N ?t [0..<N]"
    using free_chain_upto [OF t'(3), of 0] assms(2,3,4) t'(2) by (simp add: table_wf_def)
  then show thesis
    using fin t'(1) by (intro that [of "upd_table ty (\<lambda>t. ?t) ?s1"]) (simp_all add: table_init_def upd_table_def)
qed

section \<open>Properties\<close>

text \<open>A state with one registered object in slot 10 and slot 3 free.\<close>

definition sample_slot_table :: scoms_table where
  "sample_slot_table =
     scoms_table_default\<lparr>t_object := (\<lambda>i. if i = 10 then Some 1 else None), t_object_block := (\<lambda>b. True),
       m_free_head := 3, m_count := 1, m_initialized := True, m_type := KT_domain\<rparr>"

definition sample_slots :: table_state where
  "sample_slots =
     \<lparr>objs = objs sample_single, g_bobject_finalizer = Some 5, g_metadata = g_metadata sample_single,
      s_capabilities = None, s_lookup_table = [], tables = (\<lambda>ty. sample_slot_table)\<rparr>"

lemma meta_inv_same:
  assumes "meta_inv s" and "objs s' = objs s" and "g_metadata s' = g_metadata s"
  shows "meta_inv s'"
proof -
  have "meta_view s' = meta_view s"
    by (rule ext) (simp add: meta_view_def entry_at_alt assms(3))
  then show ?thesis
    using assms by (simp add: meta_inv_def shape_ok_def)
qed

lemma sample_slots_ok: "meta_inv sample_slots" "table_wf 64 (tables sample_slots KT_domain) [3]"
  using meta_inv_same [OF meta_reach_inv [OF sample_single_reach], of sample_slots]
  by (simp_all add: sample_slots_def table_wf_def sample_slot_table_def scoms_table_default_def)

text \<open>
  Allocation from an object table takes the slot at the head of the free list and nothing
  else: it either fails with the free list, every slot and every object as they were, or leaves
  in that slot a fresh object that a lookup finds, in the embryo state, registered, with one
  reference for the table and one for the caller, and with the slot's next generation.
\<close>

theorem table_alloc_takes_head:
  assumes "meta_inv s" and wf: "table_wf N (tables s ty) fl" and "m_initialized (tables s ty)"
    and "fresh_block mem s"
  shows "\<exists>s' r. table_alloc block_ok mem reg_ok reclaim ty KT_none s = Done (s', r) \<and> meta_inv s' \<and>
     (case r of
        Inl _ \<Rightarrow> table_wf N (tables s' ty) fl \<and> t_object (tables s' ty) = t_object (tables s ty) \<and> objs s' = objs s
      | Inr p \<Rightarrow> (\<exists>i fl' a. fl = i # fl' \<and> mem = Some a \<and> p = Some a \<and> table_wf N (tables s' ty) fl' \<and>
          t_object (tables s' ty) = (t_object (tables s ty))(i := Some a) \<and>
          find_raw ty N (of_nat i) s' = Done (Some a) \<and> (\<forall>x. x \<noteq> a \<longrightarrow> objs s' x = objs s x) \<and>
          new_object (m_type (tables s ty)) i (t_generation (tables s ty) i + 1) a s'))"
proof (cases fl)
  case Nil
  then show ?thesis
    using assms table_wf_head(1) [OF wf] by (auto simp: table_alloc_def)
next
  case (Cons i fl')
  note head = table_wf_head(2) [OF wf Cons] and pop = table_wf_pop [OF wf [unfolded Cons]]
  let ?s0 = "upd_table ty pop_free s"
  have i: "i \<notin> set fl'" "i < N" "m_free_head (tables s ty) \<noteq> SLOT_NONE"
    using wf Cons head table_wf_head(1) [OF wf] by (auto simp: table_wf_def)
  have run: "table_alloc block_ok mem reg_ok reclaim ty KT_none s =
      occupy_slot block_ok mem reg_ok reclaim ty i (m_type (tables s ty)) ?s0"
    using assms(3) i(3) head by (simp add: table_alloc_def)
  have s0: "table_wf N (tables ?s0 ty) fl'" "t_object (tables ?s0 ty) = t_object (tables s ty)"
      "t_generation (tables ?s0 ty) = t_generation (tables s ty)" "objs ?s0 = objs s" "meta_inv ?s0"
    using pop assms(1) by simp_all
  have "fresh_block mem ?s0"
    using assms(4) by (simp add: fresh_block_def split: option.splits)
  from occupy_slot_effect [OF s0(1) i(2,1) _ s0(5) this, unfolded s0(2-4)] head
  obtain s' r where r: "occupy_slot block_ok mem reg_ok reclaim ty i (m_type (tables s ty)) ?s0 = Done (s', r)"
    and inv: "meta_inv s'" and other: "\<forall>x. mem \<noteq> Some x \<longrightarrow> objs s' x = objs s x"
    and post: "case r of
        Inl _ \<Rightarrow> table_wf N (tables s' ty) (i # fl') \<and> t_object (tables s' ty) = t_object (tables s ty) \<and> objs s' = objs s
      | Inr p \<Rightarrow> p = mem \<and> mem \<noteq> None \<and> table_wf N (tables s' ty) fl' \<and>
          t_object (tables s' ty) = (t_object (tables s ty))(i := mem) \<and>
          new_object (m_type (tables s ty)) i (t_generation (tables s ty) i + 1) (the mem) s'"
    by meson
  have w: "N < 2 ^ 32"
    using wf by (simp add: table_wf_def)
  have "find_raw ty N (of_nat i) s' = Done (Some a)" if "r = Inr p" "mem = Some a" for p a
    using post that i(2) slot_word [OF i(2) w] slot_not_none [OF i(2) w]
    by (auto simp: find_raw_def new_object_def SLOT_NONE_def KOBJECT_ID_INVALID_def)
  then show ?thesis
    using run r inv post other Cons by (cases r) auto
qed

theorem table_alloc_takes_head_witness:
  "\<exists>s' r. table_alloc True (Some 77) (\<lambda>_. True) 9 KT_domain KT_none sample_slots = Done (s', r) \<and>
     (case r of Inl _ \<Rightarrow> objs s' = objs sample_slots
      | Inr p \<Rightarrow> p = Some 77 \<and> find_raw KT_domain 64 3 s' = Done (Some 77))"
proof -
  have init: "m_initialized (tables sample_slots KT_domain)" and fresh: "fresh_block (Some 77) sample_slots"
    by (simp_all add: sample_slots_def sample_slot_table_def fresh_block_def sample_single_def sample_defs)
  note eff = table_alloc_takes_head [OF sample_slots_ok init fresh, of True "\<lambda>_. True" 9]
  show ?thesis
  proof (rule exE [OF eff], erule exE)
    fix s' r
    assume post: "table_alloc True (Some 77) (\<lambda>_. True) 9 KT_domain KT_none sample_slots = Done (s', r) \<and> meta_inv s' \<and>
      (case r of
         Inl _ \<Rightarrow> table_wf 64 (tables s' KT_domain) [3] \<and>
           t_object (tables s' KT_domain) = t_object (tables sample_slots KT_domain) \<and> objs s' = objs sample_slots
       | Inr p \<Rightarrow> (\<exists>i fl' a. [3] = i # fl' \<and> Some 77 = Some a \<and> p = Some a \<and> table_wf 64 (tables s' KT_domain) fl' \<and>
           t_object (tables s' KT_domain) = (t_object (tables sample_slots KT_domain))(i := Some a) \<and>
           find_raw KT_domain 64 (of_nat i) s' = Done (Some a) \<and> (\<forall>x. x \<noteq> a \<longrightarrow> objs s' x = objs sample_slots x) \<and>
           new_object (m_type (tables sample_slots KT_domain)) i (t_generation (tables sample_slots KT_domain) i + 1) a s'))"
    then show ?thesis
      by (intro exI [of _ s'] exI [of _ r]) (cases r; simp)
  qed
qed

text \<open>
  C15. A released slot stays reserved until the last reference to its object is gone: releasing
  a registered object without dependents makes lookups of its slot fail at once; while other
  references remain, the free list is unchanged, so no allocation can take the slot, and the
  header stays readable in its final state; the last reference puts the slot at the head of
  the free list and frees the header.
\<close>

theorem slot_reserved_until_last_reference:
  assumes "meta_inv s" and wf: "table_wf N (tables s ty) fl" and slot: "t_object (tables s ty) i = Some a"
    and b: "objs s a = Some b" "ko_id b = of_nat i" "ko_state b \<in> {Embryo, Active, Suspended, Dying}" "ko_ref b \<noteq> 0"
    and f: "find_locked s a b = Some (j, e)" "dependent_count e = 0" "reclaimer e = Some r" "owner_of r = ty" "cap_of ty = N"
    and fin: "g_bobject_finalizer s = Some g"
  shows "\<exists>s'. table_release (table_finalize owner_of cap_of) ty N (of_nat i) s = Done (s', Inr ()) \<and>
     find_raw ty N (of_nat i) s' = Done None \<and>
     (if ko_ref b = 1 then objs s' a = None \<and> table_wf N (tables s' ty) (i # fl)
      else i \<notin> set fl \<and> table_wf N (tables s' ty) fl \<and>
        objs s' a = Some ((released_header b)\<lparr>ko_ref := ko_ref b - 1\<rparr>) \<and>
        (ko_ref b = 2 \<longrightarrow> (\<exists>s''. bobject_put (table_finalize owner_of cap_of) a s' = Done s'' \<and>
           objs s'' a = None \<and> table_wf N (tables s'' ty) (i # fl))))"
proof -
  let ?fin = "table_finalize owner_of cap_of" and ?b = "released_header b"
  obtain s2 where s2: "meta_inv s2" "objs s2 = (objs s)(a := Some ?b)"
    "tables s2 ty = (tables s ty)\<lparr>t_object := (t_object (tables s ty))(i := None), m_count := m_count (tables s ty) - 1\<rparr>"
    "g_bobject_finalizer s2 = g_bobject_finalizer s" "retired_locked s2 a ?b = Some (j, meta_view s2 j)"
    "reclaimer (meta_view s2 j) = reclaimer e"
    "table_release ?fin ty N (of_nat i) s = exec_bind (bobject_put ?fin a s2) (\<lambda>s3. Done (s3, Inr ()))"
    by (rule table_release_run [OF assms(1) slot wf b(1,3) f(1,2)])
  have i: "i < N" "i \<notin> set fl" "unat (of_nat i :: u32) = i"
    using wf slot slot_word [of i N] by (auto simp: table_wf_def)
  have wf2: "table_wf N (tables s2 ty) fl" and none: "t_object (tables s2 ty) i = None"
    using table_wf_vacate [OF wf, of i] s2(3) by (simp_all add: table_wf_def)
  have r2: "reclaimer (meta_view s2 j) = Some r" using s2(6) f(3) by simp
  have g2: "g_bobject_finalizer s2 = Some g" using s2(4) fin by simp
  have lookup: "t_object (tables s' ty) i = None \<Longrightarrow> find_raw ty N (of_nat i) s' = Done None" for s' :: "'a table_state_scheme"
    using i by (simp add: find_raw_def)
  have b2: "objs s2 a = Some ?b" "ko_id ?b = of_nat i" "ko_ref ?b = ko_ref b"
    using s2(2) b(2) by (simp_all add: released_header_def)
  show ?thesis
  proof (cases "ko_ref b = 1")
    case True
    from last_put_reclaims [where owner_of = owner_of and cap_of = cap_of, OF s2(1) b2(1) _ b2(2) g2 s2(5) r2 f(4,5) wf2 i(1,2) none]
      True b2(3)
    obtain s' where "bobject_put ?fin a s2 = Done s'" "objs s' = (objs s2)(a := None)"
      "table_wf N (tables s' ty) (i # fl)" "t_object (tables s' ty) = t_object (tables s2 ty)" by auto
    then show ?thesis
      using True s2(7) lookup none by auto
  next
    case False
    let ?b1 = "?b\<lparr>ko_ref := ko_ref b - 1\<rparr>"
    let ?s' = "upd_obj a ?b1 s2"
    have "1 < unat (ko_ref ?b)"
      using False b(4) b2(3) by (simp add: word_unat_eq_iff)
    from bobject_put_shared [OF b2(1) this, of ?fin] have put: "bobject_put ?fin a s2 = Done ?s'"
      using b2(3) by simp
    have "keeps_registered (objs s2) (objs ?s')"
      unfolding objs_upd_obj by (rule keeps_registered_upd [of _ _ ?b]) (use b2(1) in simp_all)
    then have inv': "meta_inv ?s'"
      using meta_inv_keeps [OF s2(1), of ?s'] by simp
    have last: "\<exists>s''. bobject_put ?fin a ?s' = Done s'' \<and> objs s'' a = None \<and> table_wf N (tables s'' ty) (i # fl)"
      if "ko_ref b = 2"
    proof -
      have ret': "retired_locked ?s' a ?b1 = Some (j, meta_view s2 j)"
        using s2(5) by (simp add: retired_locked_Some)
      have "objs ?s' a = Some ?b1" "ko_ref ?b1 = 1" "ko_id ?b1 = of_nat i" "g_bobject_finalizer ?s' = Some g"
        "table_wf N (tables ?s' ty) fl" "t_object (tables ?s' ty) i = None"
        using that b2(2) g2 wf2 none by simp_all
      from last_put_reclaims [where owner_of = owner_of and cap_of = cap_of, OF inv' this(1-4) ret' r2 f(4,5) this(5) i(1,2) this(6)]
      show ?thesis by auto
    qed
    show ?thesis
      using False s2(7) put lookup none wf2 i(2) last by (intro exI [of _ ?s']) simp
  qed
qed

theorem slot_reserved_until_last_reference_witness:
  "\<exists>s'. table_release (table_finalize (\<lambda>_. KT_domain) (\<lambda>_. 64)) KT_domain 64 10 sample_slots = Done (s', Inr ()) \<and>
     find_raw KT_domain 64 10 s' = Done None \<and> objs s' 1 = None \<and> table_wf 64 (tables s' KT_domain) [10, 3]"
proof -
  let ?b = "(initialize bobject_default 10 KT_domain)\<lparr>object_flags := 1\<rparr>"
  let ?e = "(sample_entry1 0)\<lparr>reclaimer := Some 9\<rparr>"
  have slot: "t_object (tables sample_slots KT_domain) 10 = Some 1" and fin: "g_bobject_finalizer sample_slots = Some 5"
    by (simp_all add: sample_slots_def sample_slot_table_def)
  have b: "objs sample_slots 1 = Some ?b" "ko_id ?b = of_nat 10" "ko_state ?b \<in> {Embryo, Active, Suspended, Dying}"
      "ko_ref ?b \<noteq> 0" "ko_ref ?b = 1"
    by (simp_all add: sample_slots_def sample_single_def sample_defs)
  have "find_locked sample_slots 1 ?b = Some (0, ?e)"
    by (simp add: sample_slots_def sample_single_def sample_defs metadata_consts)
  moreover have "dependent_count ?e = 0" "reclaimer ?e = Some 9"
    by (simp_all add: sample_entry1_def)
  ultimately show ?thesis
    using slot_reserved_until_last_reference [where owner_of = "\<lambda>_. KT_domain" and cap_of = "\<lambda>_. 64",
        OF sample_slots_ok slot b(1-4) _ _ _ _ _ fin, of 0 ?e 9] b(5) by auto
qed

end
