(* ===== verification/ZX_Gate.thy ===== *)
theory ZX_Gate
  imports ZX_Table ZX_Authorize
begin

text \<open>
  Gates (\<open>zxfoundation/dgp/gate.zcomponent/core.cxx\<close>): the descriptors of cross-domain entry
  points in their object table, and the lookups of domains the calls start from
  (\<open>domain.zcomponent/core.cxx\<close>).

  The header of a domain or a gate is in the object store, where the metadata and the
  capabilities see it; the rest of the object is in \<open>domains\<close> or \<open>gates\<close> at the same address.
\<close>

section \<open>State\<close>

definition MAX_GATES :: nat where "MAX_GATES = 512"

datatype gate_type = gate_nucleus | gate_domain
datatype gate_auth = auth_any | auth_keyed | auth_owner

record gate_desc =
  gd_type :: gate_type
  gd_auth :: gate_auth
  gd_target_key :: u8
  gd_target_domain :: u32
  gd_entry_va :: u64

definition gate_desc_default :: gate_desc where
  "gate_desc_default =
     \<lparr>gd_type = gate_nucleus, gd_auth = auth_any, gd_target_key = 0, gd_target_domain = 0, gd_entry_va = 0\<rparr>"

record gate_state = table_state +
  domains :: "addr \<Rightarrow> domain option"
  gates :: "addr \<Rightarrow> gate_desc option"
  g_nucleus :: "addr option"
  lc_current_domain :: "addr option"

type_synonym 'a gfinalize = "fnptr \<Rightarrow> addr \<Rightarrow> 'a gate_state_scheme \<Rightarrow> 'a gate_state_scheme exec"

section \<open>Domain lookup\<close>

definition domain_at :: "addr \<Rightarrow> 'a gate_state_scheme \<Rightarrow> domain exec" where
  "domain_at a s =
     (case (domains s a, objs s a) of
        (Some d, Some b) \<Rightarrow> Done (d\<lparr>dom_ko := b\<rparr>)
      | _ \<Rightarrow> Trap)"

definition domain_find :: "u32 \<Rightarrow> 'a gate_state_scheme \<Rightarrow> addr option exec" where
  "domain_find ident s = find_raw KT_domain (unat MAX_DOMAINS) ident s"

definition domain_nucleus :: "'a gate_state_scheme \<Rightarrow> addr option" where
  "domain_nucleus s = g_nucleus s"

definition current_domain_or_nucleus :: "'a gate_state_scheme \<Rightarrow> addr option" where
  "current_domain_or_nucleus s =
     (case lc_current_domain s of Some a \<Rightarrow> Some a | None \<Rightarrow> domain_nucleus s)"

section \<open>Gates\<close>

definition upd_gate :: "addr \<Rightarrow> gate_desc \<Rightarrow> 'a gate_state_scheme \<Rightarrow> 'a gate_state_scheme" where
  "upd_gate a g s = s\<lparr>gates := (gates s)(a := Some g)\<rparr>"

text \<open>The arguments that stand for allocation results are those of \<^const>\<open>table_alloc\<close>.\<close>

definition gate_create ::
  "percpu_sync \<Rightarrow> bool \<Rightarrow> 'a gfinalize \<Rightarrow> bool \<Rightarrow> addr option \<Rightarrow> (nat \<Rightarrow> bool) \<Rightarrow> fnptr \<Rightarrow>
   gate_type \<Rightarrow> gate_auth \<Rightarrow> u32 \<Rightarrow> u64 \<Rightarrow> u8 \<Rightarrow>
   'a gate_state_scheme \<Rightarrow> ('a gate_state_scheme \<times> u32 expected) exec" where
  "gate_create pcp irqs call_fin block_ok mem reg_ok reclaim ty auth target_domain_id entry_va target_key s =
     exec_bind (domain_find target_domain_id s) (\<lambda>target.
       case (lc_current_domain s, target) of
         (Some ca, Some ta) \<Rightarrow>
           exec_bind (domain_at ca s) (\<lambda>caller. exec_bind (domain_at ta s) (\<lambda>tgt.
             case authorize pcp irqs ca caller ta tgt operation_kind.gate_create
                    \<lparr>requested_rights = rights_lifecycle, target_va_start = 0, target_va_end = 0, gate_id = 0\<rparr> of
               Inl e \<Rightarrow> Done (s, Inl e)
             | Inr _ \<Rightarrow>
                 if dom_storage_key tgt \<noteq> target_key then Done (s, Inl (from_memory capability_invalid))
                 else exec_bind (table_alloc block_ok mem reg_ok reclaim KT_gate KT_none s) (\<lambda>(s1, r).
                   case r of
                     Inl e \<Rightarrow> Done (s1, Inl e)
                   | Inr None \<Rightarrow> Trap
                   | Inr (Some a) \<Rightarrow>
                       exec_bind (set_owner a (ko_id (dom_ko tgt)) (upd_gate a gate_desc_default s1)) (\<lambda>(s2, owned).
                       exec_bind (attach a ta s2) (\<lambda>(s3, attached).
                       case objs s3 a of
                         None \<Rightarrow> Trap
                       | Some b \<Rightarrow>
                           if isl owned \<or> isl attached then
                             exec_bind (table_release call_fin KT_gate MAX_GATES (ko_id b) s3) (\<lambda>(s4, _).
                             exec_bind (ref_drop call_fin (Some a) s4) (\<lambda>s5.
                             Done (s5, Inl (from_generic invalid_arg))))
                           else
                             exec_bind
                               (ref_drop call_fin (Some a)
                                  (upd_obj a (fst (transition b Active))
                                     (upd_gate a \<lparr>gd_type = ty, gd_auth = auth, gd_target_key = target_key,
                                                  gd_target_domain = target_domain_id, gd_entry_va = entry_va\<rparr> s3)))
                               (\<lambda>s4. Done (s4, Inr (ko_id b))))))))
       | _ \<Rightarrow> Done (s, Inl (from_generic invalid_arg)))"

definition gate_find :: "u32 \<Rightarrow> 'a gate_state_scheme \<Rightarrow> addr option exec" where
  "gate_find ident s = find_raw KT_gate MAX_GATES ident s"

definition gate_destroy ::
  "'a gfinalize \<Rightarrow> u32 \<Rightarrow> 'a gate_state_scheme \<Rightarrow> ('a gate_state_scheme \<times> unit expected) exec" where
  "gate_destroy call_fin ident s =
     exec_bind (gate_find ident s) (\<lambda>gate. case gate of
        None \<Rightarrow> Done (s, Inl (from_generic not_found))
      | Some a \<Rightarrow>
          exec_bind (cap_revoke_target call_fin a s) (\<lambda>(s1, _).
          table_release call_fin KT_gate MAX_GATES ident s1))"

definition gate_targets :: "u32 \<Rightarrow> addr \<Rightarrow> 'a gate_state_scheme \<Rightarrow> bool" where
  "gate_targets domain_id a s \<longleftrightarrow>
     (case gates s a of None \<Rightarrow> False | Some g \<Rightarrow> gd_target_domain g = domain_id)"

definition gate_destroy_for_domain ::
  "'a gfinalize \<Rightarrow> u32 \<Rightarrow> 'a gate_state_scheme \<Rightarrow> 'a gate_state_scheme exec" where
  "gate_destroy_for_domain call_fin domain_id s =
     exec_bind (destroy_if call_fin KT_gate MAX_GATES (gate_targets domain_id) (\<lambda>a. Done) s)
       (\<lambda>(s', _). Done s')"

text \<open>The lookup callback the capabilities call for gates, and the start of the subsystem.\<close>

definition gate_cap_lookup :: "u16 \<Rightarrow> 'a gate_state_scheme \<Rightarrow> addr option exec" where
  "gate_cap_lookup obj_id s = gate_find (ucast obj_id) s"

definition gate_init ::
  "(nat \<Rightarrow> bool) \<Rightarrow> fnptr \<Rightarrow> fnptr \<Rightarrow> 'a gate_state_scheme \<Rightarrow> 'a gate_state_scheme exec" where
  "gate_init ok fin lookup_fn s =
     exec_bind (table_init ok fin KT_gate MAX_GATES s)
       (\<lambda>s1. Done (fst (register_lookup cap_gate (Some lookup_fn) s1)))"

definition gate_count :: "'a gate_state_scheme \<Rightarrow> u32" where
  "gate_count s = m_count (tables s KT_gate)"

end
