(* ===== verification/ZX_Dispatch.thy ===== *)
theory ZX_Dispatch
  imports ZX_Gate
begin

text \<open>
  The nucleus-call table (\<open>zxfoundation/dgp/gate.zcomponent/dispatch.cxx\<close> and
  \<open>registration.cxx\<close>): registration of handlers, the checks a call passes before its handler
  runs, and the table the kernel builds at boot.

  What the function behind a handler pointer does is the parameter \<open>call\<close>. A failed call
  returns \<open>~0\<close>; the messages it prints are left out.
\<close>

section \<open>State\<close>

datatype call_namespace = ns_dom | ns_mem | ns_gate | ns_portal | ns_io | ns_sgn | ns_cap | ns_sys

primrec ns_code :: "call_namespace \<Rightarrow> u32" where
  "ns_code ns_dom = 0"
| "ns_code ns_mem = 1"
| "ns_code ns_gate = 2"
| "ns_code ns_portal = 3"
| "ns_code ns_io = 4"
| "ns_code ns_sgn = 5"
| "ns_code ns_cap = 6"
| "ns_code ns_sys = 7"

datatype gate_auth_level =
  lvl_none | lvl_capability | lvl_admin | lvl_domain_map | lvl_storage_key | lvl_io | lvl_signal

record entry_meta =
  em_namespace_id :: u8
  em_operation_id :: u8
  em_auth :: gate_auth_level
  em_requires_admin :: bool
  em_op_kind :: operation_kind

definition entry_meta_default :: entry_meta where
  "entry_meta_default =
     \<lparr>em_namespace_id = 0, em_operation_id = 0, em_auth = lvl_none, em_requires_admin = False,
      em_op_kind = op_none\<rparr>"

record dispatch_entry =
  de_handler :: "fnptr option"
  de_meta :: entry_meta

definition dispatch_entry_default :: dispatch_entry where
  "dispatch_entry_default = \<lparr>de_handler = None, de_meta = entry_meta_default\<rparr>"

definition DISPATCH_TABLE_SIZE :: nat where "DISPATCH_TABLE_SIZE = 256"

definition pack_index :: "call_namespace \<Rightarrow> u32 \<Rightarrow> u32" where
  "pack_index ns op = push_bit 5 (ns_code ns) OR (op AND 0x1F)"

record dispatch_state = gate_state +
  s_table :: "dispatch_entry list"

section \<open>The checks before a call\<close>

definition acquire_caller_domain :: "'a dispatch_state_scheme \<Rightarrow> addr option" where
  "acquire_caller_domain s = current_domain_or_nucleus s"

primrec dgp_rights_for :: "gate_auth_level \<Rightarrow> isolation_rights" where
  "dgp_rights_for lvl_none = rights_enter"
| "dgp_rights_for lvl_capability = rights_enter"
| "dgp_rights_for lvl_admin = rights_enter OR rights_lifecycle"
| "dgp_rights_for lvl_domain_map = rights_enter OR rights_map"
| "dgp_rights_for lvl_storage_key = rights_enter OR rights_share"
| "dgp_rights_for lvl_io = rights_enter OR rights_io"
| "dgp_rights_for lvl_signal = rights_enter OR rights_signal"

definition metadata_none :: authorization_metadata where
  "metadata_none =
     \<lparr>requested_rights = rights_none, target_va_start = 0, target_va_end = 0, gate_id = 0\<rparr>"

text \<open>The gate's own check. A success counts an entry of the target domain.\<close>

definition count_gate_entry :: "addr \<Rightarrow> 'a dispatch_state_scheme \<Rightarrow> 'a dispatch_state_scheme" where
  "count_gate_entry a s =
     s\<lparr>domains := (domains s)(a := map_option (\<lambda>d. d\<lparr>dom_gate_count := dom_gate_count d + 1\<rparr>) (domains s a))\<rparr>"

definition call_gate_entry ::
  "percpu_sync \<Rightarrow> bool \<Rightarrow> u32 \<Rightarrow> addr \<Rightarrow> isolation_rights \<Rightarrow> 'a dispatch_state_scheme \<Rightarrow>
   ('a dispatch_state_scheme \<times> bool) exec" where
  "call_gate_entry pcp irqs caller_domain_id gate requested s =
     (case (objs s gate, gates s gate) of
        (Some gb, Some gd) \<Rightarrow>
          if ko_state gb \<noteq> Active then Done (s, False)
          else
            exec_bind (domain_find caller_domain_id s) (\<lambda>caller.
            exec_bind (domain_find (gd_target_domain gd) s) (\<lambda>target.
            case (caller, target) of
              (Some ca, Some ta) \<Rightarrow>
                exec_bind (domain_at ca s) (\<lambda>cd. exec_bind (domain_at ta s) (\<lambda>td.
                case authorize pcp irqs ca cd ta td gate_entry
                       (metadata_none\<lparr>requested_rights := requested, gate_id := ko_id gb\<rparr>) of
                  Inl _ \<Rightarrow> Done (s, False)
                | Inr _ \<Rightarrow> Done (count_gate_entry ta s, True)))
            | _ \<Rightarrow> Done (s, False)))
      | _ \<Rightarrow> Trap)"

text \<open>The domain a call acts on; identifiers are the low 32 bits of an argument.\<close>

definition target_domain_for_op ::
  "operation_kind \<Rightarrow> addr \<Rightarrow> u32 \<Rightarrow> u64 \<Rightarrow> u64 \<Rightarrow> 'a dispatch_state_scheme \<Rightarrow> addr option exec" where
  "target_domain_for_op op caller caller_id a0 a1 s =
     (if op \<in> {mem_share, portal_create, portal_destroy, domain_destroy} then
        (let tid = ucast a1 in if tid = 0 then Done (domain_nucleus s) else domain_find tid s)
      else if op = signal_send then
        (let tid = ucast a0 in if tid = 0 then Done (domain_nucleus s) else domain_find tid s)
      else if op = domain_query then
        (let tid = ucast a0 in if tid = 0 \<or> tid = caller_id then Done (Some caller) else domain_find tid s)
      else if op = strand_create then
        (let owner = ucast (a1 AND 0xFFFF)
         in if owner = 0 \<or> owner = caller_id then Done (Some caller) else domain_find owner s)
      else Done (Some caller))"

definition metadata_for_op ::
  "operation_kind \<Rightarrow> u64 \<Rightarrow> u64 \<Rightarrow> u64 \<Rightarrow> u64 \<Rightarrow> authorization_metadata" where
  "metadata_for_op op a0 a1 a2 a3 =
     (if op = mem_map then metadata_none\<lparr>target_va_start := a1, target_va_end := a1 + a3\<rparr>
      else if op \<in> {mem_unmap, mem_protect, mem_free}
      then metadata_none\<lparr>target_va_start := a0, target_va_end := a0 + a1\<rparr>
      else if op \<in> {mem_share, portal_create}
      then metadata_none\<lparr>target_va_start := a2, target_va_end := a3\<rparr>
      else if op = shm_export then metadata_none\<lparr>target_va_start := a0, target_va_end := a0 + a1\<rparr>
      else if op = gate_entry then metadata_none\<lparr>gate_id := ucast a0\<rparr>
      else if op = io_irq_bind then metadata_none\<lparr>gate_id := ucast a1\<rparr>
      else metadata_none)"

text \<open>The capability a level asks for in the first argument, if any.\<close>

primrec needed_cap :: "gate_auth_level \<Rightarrow> cap_rights option" where
  "needed_cap lvl_none = None"
| "needed_cap lvl_storage_key = None"
| "needed_cap lvl_capability = Some cr_none"
| "needed_cap lvl_admin = Some cr_admin"
| "needed_cap lvl_domain_map = Some cr_map"
| "needed_cap lvl_io = None"
| "needed_cap lvl_signal = None"

definition check_operation ::
  "percpu_sync \<Rightarrow> bool \<Rightarrow> u64 \<Rightarrow> u64 \<Rightarrow> u64 \<Rightarrow> u64 \<Rightarrow> entry_meta \<Rightarrow> addr \<Rightarrow> domain \<Rightarrow>
   'a dispatch_state_scheme \<Rightarrow> bool exec" where
  "check_operation pcp irqs a0 a1 a2 a3 meta ca caller s =
     (if em_op_kind meta = op_none then Done True
      else
        exec_bind (target_domain_for_op (em_op_kind meta) ca (ko_id (dom_ko caller)) a0 a1 s) (\<lambda>target.
        case target of
          None \<Rightarrow> Done False
        | Some ta \<Rightarrow>
            exec_bind (domain_at ta s) (\<lambda>tgt.
            case authorize pcp irqs ca caller ta tgt (em_op_kind meta)
                   (metadata_for_op (em_op_kind meta) a0 a1 a2 a3) of
              Inl _ \<Rightarrow> Done False
            | Inr _ \<Rightarrow> Done True)))"

definition check_gate ::
  "percpu_sync \<Rightarrow> bool \<Rightarrow> u32 \<Rightarrow> entry_meta \<Rightarrow> domain \<Rightarrow>
   'a dispatch_state_scheme \<Rightarrow> ('a dispatch_state_scheme \<times> bool) exec" where
  "check_gate pcp irqs packed_nr meta caller s =
     (if em_auth meta = lvl_none then Done (s, True)
      else
        exec_bind (gate_find packed_nr s) (\<lambda>gate.
        case gate of
          None \<Rightarrow> Done (s, True)
        | Some g \<Rightarrow> call_gate_entry pcp irqs (ko_id (dom_ko caller)) g (dgp_rights_for (em_auth meta)) s))"

definition check_capability ::
  "u64 \<Rightarrow> entry_meta \<Rightarrow> domain \<Rightarrow> 'a dispatch_state_scheme \<Rightarrow> bool exec" where
  "check_capability a0 meta caller s =
     (case needed_cap (em_auth meta) of
        None \<Rightarrow> Done True
      | Some rights \<Rightarrow>
          exec_bind (cap_validate_generic_for a0 rights (ko_id (dom_ko caller)) s) (\<lambda>r. Done (\<not> isl r)))"

definition validate_call ::
  "percpu_sync \<Rightarrow> bool \<Rightarrow> u32 \<Rightarrow> u64 \<Rightarrow> u64 \<Rightarrow> u64 \<Rightarrow> u64 \<Rightarrow> dispatch_entry \<Rightarrow> addr option \<Rightarrow>
   'a dispatch_state_scheme \<Rightarrow> ('a dispatch_state_scheme \<times> bool) exec" where
  "validate_call pcp irqs packed_nr a0 a1 a2 a3 ent caller s =
     (case caller of
        None \<Rightarrow> Done (s, False)
      | Some ca \<Rightarrow>
          exec_bind (domain_at ca s) (\<lambda>cd.
          case validate_authority_lookup
                 (contract_snapshot pcp irqs lc_thread tp_none (ko_id (dom_ko cd))) of
            Inl _ \<Rightarrow> Done (s, False)
          | Inr _ \<Rightarrow>
              exec_bind (check_operation pcp irqs a0 a1 a2 a3 (de_meta ent) ca cd s) (\<lambda>op_ok.
              if \<not> op_ok then Done (s, False)
              else
                exec_bind (check_gate pcp irqs packed_nr (de_meta ent) cd s) (\<lambda>(s1, gate_ok).
                if \<not> gate_ok then Done (s1, False)
                else exec_bind (check_capability a0 (de_meta ent) cd s1) (\<lambda>cap_ok. Done (s1, cap_ok))))))"

section \<open>Registration and dispatch\<close>

definition register_handler ::
  "u32 \<Rightarrow> fnptr option \<Rightarrow> entry_meta \<Rightarrow> 'a dispatch_state_scheme \<Rightarrow> 'a dispatch_state_scheme \<times> unit expected" where
  "register_handler packed_nr handler meta s =
     (if unat packed_nr \<ge> DISPATCH_TABLE_SIZE then (s, Inl (from_generic out_of_range))
      else if handler = None then (s, Inl (from_generic invalid_arg))
      else if de_handler (s_table s ! unat packed_nr) \<noteq> None then (s, Inl (from_generic internal_error))
      else (s\<lparr>s_table := (s_table s)[unat packed_nr := \<lparr>de_handler = handler, de_meta = meta\<rparr>]\<rparr>, Inr ()))"

record registration_op =
  ro_operation_id :: u8
  ro_handler :: "fnptr option"
  ro_meta :: entry_meta

fun register_namespace_handlers ::
  "call_namespace \<Rightarrow> registration_op list \<Rightarrow> 'a dispatch_state_scheme \<Rightarrow> 'a dispatch_state_scheme \<times> unit expected" where
  "register_namespace_handlers ns [] s = (s, Inr ())"
| "register_namespace_handlers ns (r # ops) s =
     (case register_handler (pack_index ns (ucast (ro_operation_id r))) (ro_handler r) (ro_meta r) s of
        (s', Inl e) \<Rightarrow> (s', Inl e)
      | (s', Inr _) \<Rightarrow> register_namespace_handlers ns ops s')"

definition dispatch ::
  "(fnptr \<Rightarrow> u64 \<Rightarrow> u64 \<Rightarrow> u64 \<Rightarrow> u64 \<Rightarrow> u64 \<Rightarrow> 'a dispatch_state_scheme \<Rightarrow> ('a dispatch_state_scheme \<times> u64) exec) \<Rightarrow>
   percpu_sync \<Rightarrow> bool \<Rightarrow> u32 \<Rightarrow> u64 \<Rightarrow> u64 \<Rightarrow> u64 \<Rightarrow> u64 \<Rightarrow> u64 \<Rightarrow>
   'a dispatch_state_scheme \<Rightarrow> ('a dispatch_state_scheme \<times> u64) exec" where
  "dispatch call pcp irqs packed_nr a0 a1 a2 a3 a4 s =
     (if unat packed_nr \<ge> DISPATCH_TABLE_SIZE then Done (s, - 1)
      else
        let ent = s_table s ! unat packed_nr
        in case de_handler ent of
             None \<Rightarrow> Done (s, - 1)
           | Some h \<Rightarrow>
               exec_bind (validate_call pcp irqs packed_nr a0 a1 a2 a3 ent (acquire_caller_domain s) s)
                 (\<lambda>(s1, ok). if \<not> ok then Done (s1, - 1) else call h a0 a1 a2 a3 a4 s1))"

definition is_registered :: "u32 \<Rightarrow> 'a dispatch_state_scheme \<Rightarrow> bool" where
  "is_registered packed_nr s \<longleftrightarrow>
     unat packed_nr < DISPATCH_TABLE_SIZE \<and> de_handler (s_table s ! unat packed_nr) \<noteq> None"

section \<open>The boot table\<close>

definition make_op :: "u8 \<Rightarrow> fnptr \<Rightarrow> gate_auth_level \<Rightarrow> operation_kind \<Rightarrow> registration_op" where
  "make_op op_id handler auth op_kind =
     \<lparr>ro_operation_id = op_id, ro_handler = Some handler,
      ro_meta = entry_meta_default\<lparr>em_operation_id := op_id, em_auth := auth, em_op_kind := op_kind\<rparr>\<rparr>"

text \<open>The handler of operation \<open>op\<close> in namespace \<open>ns\<close> is \<open>wrap ns op\<close> (\<open>nc_*::dispatch_wrap\<close>).\<close>

definition ops_of ::
  "(call_namespace \<Rightarrow> u8 \<Rightarrow> fnptr) \<Rightarrow> call_namespace \<Rightarrow> (u8 \<times> gate_auth_level \<times> operation_kind) list \<Rightarrow> registration_op list" where
  "ops_of wrap ns rows = map (\<lambda>(op, auth, kind). make_op op (wrap ns op) auth kind) rows"

definition dom_rows :: "(u8 \<times> gate_auth_level \<times> operation_kind) list" where
  "dom_rows =
     [(0, lvl_admin, domain_create), (1, lvl_admin, domain_destroy), (2, lvl_none, domain_exit),
      (3, lvl_none, domain_info), (4, lvl_none, domain_query), (5, lvl_admin, strand_create),
      (6, lvl_admin, strand_set_policy), (7, lvl_admin, strand_set_affinity),
      (8, lvl_admin, strand_query_state)]"

definition mem_rows :: "(u8 \<times> gate_auth_level \<times> operation_kind) list" where
  "mem_rows =
     [(0, lvl_none, mem_alloc), (1, lvl_none, mem_free), (2, lvl_none, mem_map),
      (3, lvl_none, mem_unmap), (4, lvl_none, mem_protect), (5, lvl_none, mem_share)]"

definition gate_rows :: "(u8 \<times> gate_auth_level \<times> operation_kind) list" where
  "gate_rows = [(0, lvl_admin, operation_kind.gate_create), (1, lvl_admin, operation_kind.gate_destroy)]"

definition portal_rows :: "(u8 \<times> gate_auth_level \<times> operation_kind) list" where
  "portal_rows = [(0, lvl_admin, portal_create), (1, lvl_admin, portal_destroy)]"

definition io_rows :: "(u8 \<times> gate_auth_level \<times> operation_kind) list" where
  "io_rows =
     [(0, lvl_io, io_bind), (1, lvl_io, io_unbind), (2, lvl_io, io_submit), (3, lvl_io, io_irq_bind),
      (4, lvl_io, io_dma_extent), (5, lvl_io, io_completion_dequeue)]"

definition sgn_rows :: "(u8 \<times> gate_auth_level \<times> operation_kind) list" where
  "sgn_rows =
     [(0, lvl_none, op_signal_register), (1, lvl_none, signal_poll), (2, lvl_none, signal_ack),
      (3, lvl_signal, signal_send), (4, lvl_none, signal_mask_set), (5, lvl_none, signal_mask_get),
      (6, lvl_none, signal_wait)]"

definition cap_rows :: "(u8 \<times> gate_auth_level \<times> operation_kind) list" where
  "cap_rows =
     [(0, lvl_none, op_cap_acquire), (1, lvl_none, op_cap_release), (2, lvl_none, op_cap_validate),
      (3, lvl_admin, op_cap_revoke)]"

definition sys_rows :: "(u8 \<times> gate_auth_level \<times> operation_kind) list" where
  "sys_rows =
     [(0, lvl_none, time_yield), (1, lvl_none, time_deadline), (2, lvl_none, time_now),
      (3, lvl_none, console_write), (4, lvl_capability, register_service), (5, lvl_none, lookup_service),
      (6, lvl_none, unregister_service), (7, lvl_none, ipc_endpoint_create),
      (8, lvl_none, ipc_endpoint_destroy), (9, lvl_none, ipc_send), (10, lvl_none, ipc_receive),
      (11, lvl_none, shm_export), (12, lvl_none, shm_import), (13, lvl_none, shm_map),
      (14, lvl_none, policy_server_register), (15, lvl_none, policy_server_unregister)]"

definition boot_rows :: "(call_namespace \<times> (u8 \<times> gate_auth_level \<times> operation_kind) list) list" where
  "boot_rows =
     [(ns_dom, dom_rows), (ns_mem, mem_rows), (ns_gate, gate_rows), (ns_portal, portal_rows),
      (ns_io, io_rows), (ns_sgn, sgn_rows), (ns_cap, cap_rows), (ns_sys, sys_rows)]"

text \<open>A failed namespace is only reported; the next one is registered all the same.\<close>

definition register_all_handlers ::
  "(call_namespace \<Rightarrow> u8 \<Rightarrow> fnptr) \<Rightarrow> 'a dispatch_state_scheme \<Rightarrow> 'a dispatch_state_scheme" where
  "register_all_handlers wrap s =
     fold (\<lambda>(ns, rows) s. fst (register_namespace_handlers ns (ops_of wrap ns rows) s)) boot_rows s"

section \<open>What a call needs\<close>

text \<open>
  The states in which pointers lead somewhere: every occupied slot of the domain and gate
  tables holds an object with its own number, the current domain and the nucleus exist, and
  the capability table is sound.
\<close>

definition table_sound :: "kobject_type \<Rightarrow> (addr \<Rightarrow> 'p option) \<Rightarrow> 'a table_state_scheme \<Rightarrow> bool" where
  "table_sound ty payload s \<longleftrightarrow>
     (\<forall>i a. t_object (tables s ty) i = Some a \<longrightarrow>
        payload a \<noteq> None \<and> (\<exists>b. objs s a = Some b \<and> ko_id b = of_nat i))"

definition dispatch_ok :: "'a dispatch_state_scheme \<Rightarrow> bool" where
  "dispatch_ok s \<longleftrightarrow>
     length (s_table s) = DISPATCH_TABLE_SIZE \<and> cap_inv s \<and>
     table_sound KT_domain (domains s) s \<and> table_sound KT_gate (gates s) s \<and>
     (\<forall>a. lc_current_domain s = Some a \<or> g_nucleus s = Some a \<longrightarrow> objs s a \<noteq> None \<and> domains s a \<noteq> None)"

definition slot_object :: "kobject_type \<Rightarrow> nat \<Rightarrow> u32 \<Rightarrow> 'a table_state_scheme \<Rightarrow> addr option" where
  "slot_object ty N ident s = (if unat ident < N then t_object (tables s ty) (unat ident) else None)"

text \<open>The domain at an address, in a state where it exists.\<close>

definition the_domain :: "addr \<Rightarrow> 'a gate_state_scheme \<Rightarrow> domain" where
  "the_domain a s = (the (domains s a))\<lparr>dom_ko := the (objs s a)\<rparr>"

abbreviation domain_slot :: "u32 \<Rightarrow> 'a gate_state_scheme \<Rightarrow> addr option" where
  "domain_slot ident s \<equiv> slot_object KT_domain (unat MAX_DOMAINS) ident s"

text \<open>The domain an operation names in its arguments.\<close>

definition named_domain :: "operation_kind \<Rightarrow> addr \<Rightarrow> u64 \<Rightarrow> u64 \<Rightarrow> 'a dispatch_state_scheme \<Rightarrow> addr option" where
  "named_domain op caller a0 a1 s =
     (let self = ko_id (dom_ko (the_domain caller s));
          explicit = (\<lambda>tid. if tid = 0 then g_nucleus s else domain_slot tid s);
          implicit = (\<lambda>tid. if tid = 0 \<or> tid = self then Some caller else domain_slot tid s)
      in if op \<in> {mem_share, portal_create, portal_destroy, domain_destroy} then explicit (ucast a1)
         else if op = signal_send then explicit (ucast a0)
         else if op = domain_query then implicit (ucast a0)
         else if op = strand_create then implicit (ucast (a1 AND 0xFFFF))
         else Some caller)"

definition may_operate ::
  "operation_kind \<Rightarrow> authorization_metadata \<Rightarrow> domain \<Rightarrow> domain \<Rightarrow> bool" where
  "may_operate op meta caller target \<longleftrightarrow>
     is_active_domain caller \<and> is_active_domain target \<and>
     (op \<in> {portal_create, mem_map, mem_share, mem_unmap, mem_protect, mem_free, shm_export} \<longrightarrow>
        target_va_start meta < target_va_end meta) \<and>
     (op \<in> {gate_entry, io_irq_bind} \<longrightarrow> gate_id meta \<noteq> 0) \<and>
     (op \<in> unprivileged_ops \<or>
      mask_has (dom_granted_rights caller) (requested_rights meta OR required_rights_for_op op))"

definition holds_capability :: "cap_token \<Rightarrow> cap_rights \<Rightarrow> u32 \<Rightarrow> 'a cap_state_scheme \<Rightarrow> bool" where
  "holds_capability token rights owner s \<longleftrightarrow>
     (\<exists>i slot a b. slot_for token s = Some (i, slot) \<and> slot_target slot = Some a \<and> objs s a = Some b \<and>
        ko_generation b = slot_target_generation slot \<and> ko_state b \<notin> {Dying, Destroyed} \<and>
        slot_owner_domain slot = owner \<and> mask_has (token_rights token) rights)"

text \<open>The gate in the slot with the call's own number, where a level above none asks for it.\<close>

definition gate_admits :: "u32 \<Rightarrow> gate_auth_level \<Rightarrow> addr \<Rightarrow> 'a dispatch_state_scheme \<Rightarrow> bool" where
  "gate_admits packed_nr level caller s \<longleftrightarrow>
     (case slot_object KT_gate MAX_GATES packed_nr s of
        None \<Rightarrow> True
      | Some g \<Rightarrow>
          packed_nr \<noteq> 0 \<and> ko_state (the (objs s g)) = Active \<and>
          (\<exists>ca ta. domain_slot (ko_id (dom_ko (the_domain caller s))) s = Some ca \<and>
             domain_slot (gd_target_domain (the (gates s g))) s = Some ta \<and>
             is_active_domain (the_domain ca s) \<and> is_active_domain (the_domain ta s) \<and>
             mask_has (dom_granted_rights (the_domain ca s)) (rights_enter OR dgp_rights_for level)))"

definition call_permitted ::
  "u32 \<Rightarrow> u64 \<Rightarrow> u64 \<Rightarrow> u64 \<Rightarrow> u64 \<Rightarrow> entry_meta \<Rightarrow> addr \<Rightarrow> 'a dispatch_state_scheme \<Rightarrow> bool" where
  "call_permitted packed_nr a0 a1 a2 a3 meta caller s \<longleftrightarrow>
     (em_op_kind meta \<noteq> op_none \<longrightarrow>
        (\<exists>target. named_domain (em_op_kind meta) caller a0 a1 s = Some target \<and>
           may_operate (em_op_kind meta) (metadata_for_op (em_op_kind meta) a0 a1 a2 a3)
             (the_domain caller s) (the_domain target s))) \<and>
     (em_auth meta \<noteq> lvl_none \<longrightarrow> gate_admits packed_nr (em_auth meta) caller s) \<and>
     (\<forall>rights. needed_cap (em_auth meta) = Some rights \<longrightarrow>
        holds_capability a0 rights (ko_id (dom_ko (the_domain caller s))) s)"

section \<open>The checks decide exactly that\<close>

lemma find_raw_sound:
  assumes "table_sound ty payload s" and "N \<le> 512"
  shows "find_raw ty N ident s = Done (slot_object ty N ident s)"
proof (cases "unat ident < N")
  case True
  then have "ident \<noteq> KOBJECT_ID_INVALID"
    using assms(2) by (auto simp: KOBJECT_ID_INVALID_def unsigned_minus_1_eq_mask mask_eq_exp_minus_1)
  moreover have "of_nat (unat ident) = ident"
    by simp
  ultimately show ?thesis
    using True assms(1)
    by (fastforce simp: find_raw_def slot_object_def table_sound_def split: option.split)
next
  case False
  then show ?thesis by (simp add: find_raw_def slot_object_def)
qed

lemma domain_find_ok: "dispatch_ok s \<Longrightarrow> domain_find ident s = Done (domain_slot ident s)"
  unfolding domain_find_def
  by (rule find_raw_sound [of _ "domains s"]) (simp_all add: dispatch_ok_def MAX_DOMAINS_def)

lemma gate_find_ok: "dispatch_ok s \<Longrightarrow> gate_find ident s = Done (slot_object KT_gate MAX_GATES ident s)"
  unfolding gate_find_def
  by (rule find_raw_sound [of _ "gates s"]) (simp_all add: dispatch_ok_def MAX_GATES_def)

lemma slot_object_exists:
  assumes "table_sound ty payload s" and "slot_object ty N ident s = Some a"
  shows "payload a \<noteq> None" and "\<exists>b. objs s a = Some b \<and> ko_id b = ident"
proof -
  have "t_object (tables s ty) (unat ident) = Some a"
    using assms(2) by (simp add: slot_object_def split: if_splits)
  with assms(1) show "payload a \<noteq> None" and "\<exists>b. objs s a = Some b \<and> ko_id b = ident"
    unfolding table_sound_def by (auto dest!: spec)
qed

lemma domain_at_ok:
  "objs s a \<noteq> None \<Longrightarrow> domains s a \<noteq> None \<Longrightarrow> domain_at a s = Done (the_domain a s)"
  by (auto simp: domain_at_def the_domain_def)

lemma domain_slot_ok:
  assumes "dispatch_ok s" and "domain_slot ident s = Some a"
  shows "domain_at a s = Done (the_domain a s)"
proof (rule domain_at_ok)
  have "table_sound KT_domain (domains s) s"
    using assms(1) by (simp add: dispatch_ok_def)
  from slot_object_exists [OF this assms(2)] show "objs s a \<noteq> None" and "domains s a \<noteq> None"
    by auto
qed

lemma isl_authorize:
  "\<not> isl (authorize pcp irqs ca caller ta target op meta) \<longleftrightarrow> may_operate op meta caller target"
proof -
  have "\<not> isl r \<longleftrightarrow> (\<exists>l. r = Inr l)" for r :: "authorization_lease expected"
    by (cases r) auto
  then show ?thesis
    by (auto simp: authorize_Inr may_operate_def validate_op_metadata_def is_active_domain_def
        has_all_rights_def mask_has_or split: if_splits)
qed

lemma case_authorize:
  "(case authorize pcp irqs ca caller ta target op meta of Inl _ \<Rightarrow> x | Inr _ \<Rightarrow> y) =
     (if may_operate op meta caller target then y else x)"
  unfolding isl_authorize [of pcp irqs ca caller ta target op meta, symmetric]
  by (cases "authorize pcp irqs ca caller ta target op meta") auto

lemma validate_authority_thread:
  "validate_authority_lookup (contract_snapshot pcp irqs lc_thread ph d) = Inr ()"
  by (simp add: validate_authority_lookup_def contract_snapshot_def)

lemma target_domain_ok:
  assumes "dispatch_ok s"
  shows "target_domain_for_op op caller (ko_id (dom_ko (the_domain caller s))) a0 a1 s =
           Done (named_domain op caller a0 a1 s)"
  by (simp add: target_domain_for_op_def named_domain_def domain_find_ok [OF assms] domain_nucleus_def Let_def)

lemma named_domain_ok:
  assumes ok: "dispatch_ok s" and caller: "objs s caller \<noteq> None" "domains s caller \<noteq> None"
    and named: "named_domain op caller a0 a1 s = Some target"
  shows "domain_at target s = Done (the_domain target s)"
proof -
  have "target = caller \<or> g_nucleus s = Some target \<or> (\<exists>ident. domain_slot ident s = Some target)"
    using named by (auto simp: named_domain_def Let_def split: if_splits)
  moreover have "objs s a \<noteq> None \<and> domains s a \<noteq> None" if "g_nucleus s = Some a" for a
    using ok that by (simp add: dispatch_ok_def)
  ultimately show ?thesis
    using caller domain_slot_ok [OF ok] domain_at_ok by blast
qed

lemma check_operation_ok:
  assumes "dispatch_ok s" and "objs s caller \<noteq> None" "domains s caller \<noteq> None"
  shows "check_operation pcp irqs a0 a1 a2 a3 meta caller (the_domain caller s) s =
           Done (em_op_kind meta \<noteq> op_none \<longrightarrow>
             (\<exists>target. named_domain (em_op_kind meta) caller a0 a1 s = Some target \<and>
                may_operate (em_op_kind meta) (metadata_for_op (em_op_kind meta) a0 a1 a2 a3)
                  (the_domain caller s) (the_domain target s)))"
  using named_domain_ok [OF assms]
  by (simp add: check_operation_def target_domain_ok [OF assms(1)] case_authorize split: option.split)

lemma validate_slot_total:
  assumes "cap_inv s"
  shows "validate_slot token needed owner check s \<noteq> Trap"
proof
  assume trap: "validate_slot token needed owner check s = Trap"
  then obtain i slot a where sl: "slot_for token s = Some (i, slot)" "slot_target slot = Some a" "objs s a = None"
    by (auto simp: validate_slot_def split: option.splits if_splits sum.splits)
  then obtain caps where "s_capabilities s = Some caps" "i < MAX_CAPABILITIES" "slot = caps ! i" "slot_active slot"
    by (auto simp: slot_for_Some)
  with assms sl show False
    unfolding cap_inv_def slots_ok_def by fastforce
qed

lemma check_capability_ok:
  assumes "cap_inv s"
  shows "check_capability a0 meta caller s =
           Done (\<forall>rights. needed_cap (em_auth meta) = Some rights \<longrightarrow>
                   holds_capability a0 rights (ko_id (dom_ko caller)) s)"
proof (cases "needed_cap (em_auth meta)")
  case None
  then show ?thesis by (simp add: check_capability_def)
next
  case (Some rights)
  let ?v = "validate_slot a0 rights (ko_id (dom_ko caller)) True s"
  obtain r where r: "?v = Done r"
    using validate_slot_total [OF assms] by (cases ?v) auto
  have "holds_capability a0 rights (ko_id (dom_ko caller)) s \<longleftrightarrow> (\<exists>a. ?v = Done (Inr a))"
    by (auto simp: validate_slot_Inr holds_capability_def)
  then have "holds_capability a0 rights (ko_id (dom_ko caller)) s \<longleftrightarrow> \<not> isl r"
    using r by (cases r) auto
  then show ?thesis
    using Some r by (cases r) (auto simp: check_capability_def cap_validate_generic_for_def)
qed

text \<open>A passed gate leaves a count in its target domain; nothing else changes.\<close>

definition gate_passed :: "u32 \<Rightarrow> gate_auth_level \<Rightarrow> addr \<Rightarrow> 'a dispatch_state_scheme \<Rightarrow> 'a dispatch_state_scheme" where
  "gate_passed packed_nr level caller s =
     (if level = lvl_none then s
      else case slot_object KT_gate MAX_GATES packed_nr s of
        None \<Rightarrow> s
      | Some g \<Rightarrow>
          if gate_admits packed_nr level caller s
          then case domain_slot (gd_target_domain (the (gates s g))) s of
                 None \<Rightarrow> s | Some ta \<Rightarrow> count_gate_entry ta s
          else s)"

lemma gate_metadata:
  "may_operate gate_entry (metadata_none\<lparr>requested_rights := r, gate_id := g\<rparr>) caller target \<longleftrightarrow>
     is_active_domain caller \<and> is_active_domain target \<and> g \<noteq> 0 \<and>
     mask_has (dom_granted_rights caller) (rights_enter OR r)"
  by (auto simp: may_operate_def unprivileged_ops_def mask_has_or metadata_none_def)

lemma check_gate_ok:
  assumes ok: "dispatch_ok s"
  shows "check_gate pcp irqs packed_nr meta (the_domain caller s) s =
           Done (gate_passed packed_nr (em_auth meta) caller s,
                 em_auth meta \<noteq> lvl_none \<longrightarrow> gate_admits packed_nr (em_auth meta) caller s)"
proof (cases "em_auth meta = lvl_none \<or> slot_object KT_gate MAX_GATES packed_nr s = None")
  case True
  then show ?thesis
    by (auto simp: check_gate_def gate_passed_def gate_admits_def gate_find_ok [OF ok])
next
  case False
  then obtain g where g: "slot_object KT_gate MAX_GATES packed_nr s = Some g" and lvl: "em_auth meta \<noteq> lvl_none"
    by auto
  have "table_sound KT_gate (gates s) s"
    using ok by (simp add: dispatch_ok_def)
  from slot_object_exists [OF this g] obtain gb gd where
    gd: "gates s g = Some gd" and gb: "objs s g = Some gb" "ko_id gb = packed_nr"
    by auto
  show ?thesis
    using g lvl gd gb domain_slot_ok [OF ok]
    by (auto simp: check_gate_def gate_passed_def gate_admits_def gate_find_ok [OF ok] call_gate_entry_def
        domain_find_ok [OF ok] case_authorize gate_metadata split: option.split)
qed

lemma gate_passed_frame:
  "s_capabilities (gate_passed nr lvl caller s) = s_capabilities s"
  "s_lookup_table (gate_passed nr lvl caller s) = s_lookup_table s"
  "objs (gate_passed nr lvl caller s) = objs s"
  by (simp_all add: gate_passed_def count_gate_entry_def split: option.split)

lemma holds_capability_frame:
  "s_capabilities s' = s_capabilities s \<Longrightarrow> objs s' = objs s \<Longrightarrow>
     holds_capability t r owner s' = holds_capability t r owner s"
  by (simp add: holds_capability_def slot_for_def)

lemma validate_call_ok:
  assumes ok: "dispatch_ok s" and caller: "objs s caller \<noteq> None" "domains s caller \<noteq> None"
  shows "\<exists>s1. validate_call pcp irqs packed_nr a0 a1 a2 a3 ent (Some caller) s =
               Done (s1, call_permitted packed_nr a0 a1 a2 a3 (de_meta ent) caller s) \<and>
             (s1 = s \<or> s1 = gate_passed packed_nr (em_auth (de_meta ent)) caller s)"
proof -
  let ?s1 = "gate_passed packed_nr (em_auth (de_meta ent)) caller s"
  have "cap_inv ?s1"
    using ok by (simp add: dispatch_ok_def cap_inv_def gate_passed_frame)
  from check_capability_ok [OF this] show ?thesis
    by (auto simp: validate_call_def domain_at_ok [OF caller] validate_authority_thread
        check_operation_ok [OF assms] check_gate_ok [OF ok] call_permitted_def
        holds_capability_frame [OF gate_passed_frame(1,3)])
qed

section \<open>The table after boot\<close>

text \<open>A row of the boot table with its packed number and the entry it becomes.\<close>

definition row_entry ::
  "(call_namespace \<Rightarrow> u8 \<Rightarrow> fnptr) \<Rightarrow> call_namespace \<Rightarrow> u8 \<times> gate_auth_level \<times> operation_kind \<Rightarrow> nat \<times> dispatch_entry" where
  "row_entry wrap ns = (\<lambda>(op, auth, kind).
     (unat (pack_index ns (ucast op)),
      \<lparr>de_handler = Some (wrap ns op), de_meta = ro_meta (make_op op (wrap ns op) auth kind)\<rparr>))"

definition table_has :: "dispatch_entry list \<Rightarrow> (nat \<times> dispatch_entry) list \<Rightarrow> bool" where
  "table_has t rows \<longleftrightarrow>
     length t = DISPATCH_TABLE_SIZE \<and> (\<forall>i e. (i, e) \<in> set rows \<longrightarrow> i < DISPATCH_TABLE_SIZE \<and> t ! i = e) \<and>
     (\<forall>i < DISPATCH_TABLE_SIZE. i \<notin> fst ` set rows \<longrightarrow> t ! i = dispatch_entry_default)"

lemma register_rows:
  assumes "table_has (s_table s) old" and "distinct (map fst (old @ map (row_entry wrap ns) rows))"
    and "\<forall>r \<in> set rows. fst (row_entry wrap ns r) < DISPATCH_TABLE_SIZE"
  shows "table_has (s_table (fst (register_namespace_handlers ns (ops_of wrap ns rows) s)))
           (old @ map (row_entry wrap ns) rows)"
  using assms
proof (induction rows arbitrary: s old)
  case Nil
  then show ?case by (simp add: ops_of_def)
next
  case (Cons r rows)
  obtain op auth kind where r: "r = (op, auth, kind)" by (cases r)
  let ?i = "unat (pack_index ns (ucast op))"
  let ?e = "snd (row_entry wrap ns r)"
  have i: "?i < DISPATCH_TABLE_SIZE" "?i \<notin> fst ` set old"
    using Cons.prems(2,3) by (auto simp: r row_entry_def)
  have empty: "s_table s ! ?i = dispatch_entry_default"
    using Cons.prems(1) i by (simp add: table_has_def)
  let ?s = "s\<lparr>s_table := (s_table s)[?i := ?e]\<rparr>"
  have reg: "register_handler (pack_index ns (ucast op)) (Some (wrap ns op)) (ro_meta (make_op op (wrap ns op) auth kind)) s
      = (?s, Inr ())"
    using i empty by (simp add: register_handler_def dispatch_entry_default_def r row_entry_def)
  have "table_has (s_table ?s) (old @ [row_entry wrap ns r])"
    using Cons.prems(1) i
    by (auto simp: table_has_def r row_entry_def nth_list_update image_iff)
  from Cons.IH [OF this] Cons.prems(2,3) show ?case
    by (simp add: ops_of_def r make_op_def reg [unfolded make_op_def, simplified])
qed

definition all_rows :: "(call_namespace \<Rightarrow> u8 \<Rightarrow> fnptr) \<Rightarrow> (nat \<times> dispatch_entry) list" where
  "all_rows wrap = concat (map (\<lambda>(ns, rows). map (row_entry wrap ns) rows) boot_rows)"

lemma register_all_rows:
  assumes "table_has (s_table s) old"
    and "distinct (map fst (old @ concat (map (\<lambda>(ns, rows). map (row_entry wrap ns) rows) nss)))"
    and "\<forall>(ns, rows) \<in> set nss. \<forall>r \<in> set rows. fst (row_entry wrap ns r) < DISPATCH_TABLE_SIZE"
  shows "table_has (s_table (fold (\<lambda>(ns, rows) s. fst (register_namespace_handlers ns (ops_of wrap ns rows) s)) nss s))
           (old @ concat (map (\<lambda>(ns, rows). map (row_entry wrap ns) rows) nss))"
  using assms
proof (induction nss arbitrary: s old)
  case Nil
  then show ?case by simp
next
  case (Cons p nss)
  obtain ns rows where p: "p = (ns, rows)" by (cases p)
  have "table_has (s_table (fst (register_namespace_handlers ns (ops_of wrap ns rows) s))) (old @ map (row_entry wrap ns) rows)"
    by (rule register_rows) (use Cons.prems p in auto)
  from Cons.IH [OF this] Cons.prems show ?case
    by (simp add: p)
qed

lemmas row_defs =
  dom_rows_def mem_rows_def gate_rows_def portal_rows_def io_rows_def sgn_rows_def cap_rows_def sys_rows_def

lemma all_rows_numbers:
  "map (\<lambda>(i, e). (i, em_op_kind (de_meta e))) (all_rows wrap) =
     [(0, domain_create), (1, domain_destroy), (2, domain_exit), (3, domain_info), (4, domain_query),
      (5, strand_create), (6, strand_set_policy), (7, strand_set_affinity), (8, strand_query_state),
      (32, mem_alloc), (33, mem_free), (34, mem_map), (35, mem_unmap), (36, mem_protect), (37, mem_share),
      (64, operation_kind.gate_create), (65, operation_kind.gate_destroy),
      (96, portal_create), (97, portal_destroy),
      (128, io_bind), (129, io_unbind), (130, io_submit), (131, io_irq_bind), (132, io_dma_extent),
      (133, io_completion_dequeue),
      (160, op_signal_register), (161, signal_poll), (162, signal_ack), (163, signal_send),
      (164, signal_mask_set), (165, signal_mask_get), (166, signal_wait),
      (192, op_cap_acquire), (193, op_cap_release), (194, op_cap_validate), (195, op_cap_revoke),
      (224, time_yield), (225, time_deadline), (226, time_now), (227, console_write),
      (228, register_service), (229, lookup_service), (230, unregister_service),
      (231, ipc_endpoint_create), (232, ipc_endpoint_destroy), (233, ipc_send), (234, ipc_receive),
      (235, shm_export), (236, shm_import), (237, shm_map), (238, policy_server_register),
      (239, policy_server_unregister)]"
  by (simp add: all_rows_def boot_rows_def row_defs row_entry_def make_op_def pack_index_def)

lemma all_rows_fst: "map fst (all_rows wrap) = map fst (map (\<lambda>(i, e). (i, em_op_kind (de_meta e))) (all_rows wrap))"
  by (simp add: comp_def case_prod_beta)

lemma all_rows_distinct:
  "distinct (map fst (all_rows wrap))" "\<forall>i \<in> fst ` set (all_rows wrap). i < DISPATCH_TABLE_SIZE"
proof -
  show "distinct (map fst (all_rows wrap))"
    unfolding all_rows_fst all_rows_numbers by simp
  have "\<forall>i \<in> set (map fst (all_rows wrap)). i < DISPATCH_TABLE_SIZE"
    unfolding all_rows_fst all_rows_numbers by (simp add: DISPATCH_TABLE_SIZE_def)
  then show "\<forall>i \<in> fst ` set (all_rows wrap). i < DISPATCH_TABLE_SIZE"
    by simp
qed

definition call_kind :: "u32 \<Rightarrow> 'a dispatch_state_scheme \<Rightarrow> operation_kind" where
  "call_kind nr s = em_op_kind (de_meta (s_table s ! unat nr))"

definition empty_table :: "dispatch_entry list" where
  "empty_table = replicate DISPATCH_TABLE_SIZE dispatch_entry_default"

lemma boot_table_has: "table_has (s_table (register_all_handlers wrap (s\<lparr>s_table := empty_table\<rparr>))) (all_rows wrap)"
proof -
  have "table_has (s_table (s\<lparr>s_table := empty_table\<rparr>)) []"
    by (simp add: table_has_def empty_table_def)
  moreover have "\<forall>(ns, rows) \<in> set boot_rows. \<forall>r \<in> set rows. fst (row_entry wrap ns r) < DISPATCH_TABLE_SIZE"
  proof (clarify)
    fix ns rows r
    assume "(ns, rows) \<in> set boot_rows" and "r \<in> set rows"
    then have "row_entry wrap ns r \<in> set (all_rows wrap)"
      unfolding all_rows_def by force
    then show "fst (row_entry wrap ns r) < DISPATCH_TABLE_SIZE"
      using all_rows_distinct(2) [of wrap] by blast
  qed
  ultimately show ?thesis
    using register_all_rows [of "s\<lparr>s_table := empty_table\<rparr>" "[]" wrap boot_rows] all_rows_distinct(1) [of wrap]
    by (simp add: register_all_handlers_def all_rows_def)
qed

lemma mem_map_snd: "(i, k) \<in> set (map (\<lambda>(i, e). (i, f e)) xs) \<longleftrightarrow> (\<exists>e. (i, e) \<in> set xs \<and> f e = k)"
  by force

lemma boot_slot:
  assumes "s' = register_all_handlers wrap (s\<lparr>s_table := empty_table\<rparr>)"
  shows "is_registered nr s' \<and> call_kind nr s' = k \<longleftrightarrow>
           (unat nr, k) \<in> set (map (\<lambda>(i, e). (i, em_op_kind (de_meta e))) (all_rows wrap))"
proof -
  note t = boot_table_has [of wrap s, folded assms, unfolded table_has_def]
  have handler: "de_handler e \<noteq> None" if "(i, e) \<in> set (all_rows wrap)" for i e
    using that by (auto simp: all_rows_def row_entry_def)
  show ?thesis
  proof (cases "\<exists>e. (unat nr, e) \<in> set (all_rows wrap)")
    case True
    then obtain e where e: "(unat nr, e) \<in> set (all_rows wrap)" by blast
    then have at: "unat nr < DISPATCH_TABLE_SIZE" "s_table s' ! unat nr = e"
      using t by auto
    have "x = e" if "(unat nr, x) \<in> set (all_rows wrap)" for x
      by (rule eq_key_imp_eq_value [OF all_rows_distinct(1) that e])
    then have "(\<exists>x. (unat nr, x) \<in> set (all_rows wrap) \<and> em_op_kind (de_meta x) = k) \<longleftrightarrow> em_op_kind (de_meta e) = k"
      using e by blast
    moreover have "is_registered nr s'" "call_kind nr s' = em_op_kind (de_meta e)"
      using at handler [OF e] by (simp_all add: is_registered_def call_kind_def)
    ultimately show ?thesis
      unfolding mem_map_snd by simp
  next
    case False
    then have "unat nr \<notin> fst ` set (all_rows wrap)"
      by force
    then have "de_handler (s_table s' ! unat nr) = None \<or> \<not> unat nr < DISPATCH_TABLE_SIZE"
      using t by (auto simp: dispatch_entry_default_def)
    then have "\<not> is_registered nr s'"
      by (auto simp: is_registered_def)
    then show ?thesis
      unfolding mem_map_snd using False by blast
  qed
qed

text \<open>A predicate on packed numbers that holds for one number below 256 only.\<close>

definition single_number :: "(u32 \<Rightarrow> bool) \<Rightarrow> bool" where
  "single_number P \<longleftrightarrow> (\<exists>n < 256. \<forall>nr. P nr \<longleftrightarrow> unat nr = n)"

lemma single_numberI: "n < 256 \<Longrightarrow> single_number (\<lambda>nr. unat nr = n)"
  by (auto simp: single_number_def)

lemma single_number_unique:
  assumes "single_number P"
  shows "\<exists>!nr. P nr"
proof -
  from assms obtain n where n: "n < 256" "\<And>nr. P nr \<longleftrightarrow> unat nr = n"
    by (auto simp: single_number_def)
  then show ?thesis
    by (intro ex1I [of _ "of_nat n"]) (auto simp: unat_of_nat take_bit_eq_mod)
qed

section \<open>Properties\<close>


definition sample_entry :: dispatch_entry where
  "sample_entry =
     \<lparr>de_handler = Some 77, de_meta = entry_meta_default\<lparr>em_operation_id := 2, em_op_kind := mem_map\<rparr>\<rparr>"

definition sample_calls :: dispatch_state where
  "sample_calls =
     \<lparr>objs = Map.empty(8 := Some (dom_ko sample_caller)), g_bobject_finalizer = None, g_metadata = [],
      s_capabilities = None, s_lookup_table = replicate LOOKUP_TABLE_SIZE None,
      tables = (\<lambda>ty. scoms_table_default)
        (KT_domain := scoms_table_default\<lparr>t_object := (\<lambda>i. if i = 3 then Some 8 else None)\<rparr>),
      domains = Map.empty(8 := Some sample_caller), gates = Map.empty, g_nucleus = None,
      lc_current_domain = Some 8, s_table = empty_table[34 := sample_entry]\<rparr>"


text \<open>
  C34. The table the kernel builds at boot has one call for every operation kind except the
  three that are never called through it (none, address-space creation and gate entry), and
  exactly one: registration loses no row to a collision, and no registered call lacks an
  operation kind, so every call of the table is subject to authorization.
\<close>

theorem boot_table_complete:
  "(\<exists>nr. is_registered nr (register_all_handlers wrap (s\<lparr>s_table := empty_table\<rparr>)) \<and>
         call_kind nr (register_all_handlers wrap (s\<lparr>s_table := empty_table\<rparr>)) = k) =
     (k \<notin> {op_none, address_space_create, gate_entry}) \<and>
   (\<exists>!nr. is_registered nr (register_all_handlers wrap (s\<lparr>s_table := empty_table\<rparr>)) \<and>
          call_kind nr (register_all_handlers wrap (s\<lparr>s_table := empty_table\<rparr>)) = k) =
     (k \<notin> {op_none, address_space_create, gate_entry})"
proof -
  define s' where "s' = register_all_handlers wrap (s\<lparr>s_table := empty_table\<rparr>)"
  let ?P = "\<lambda>nr. is_registered nr s' \<and> call_kind nr s' = k"
  have P: "?P nr \<longleftrightarrow> (unat nr, k) \<in> set (map (\<lambda>(i, e). (i, em_op_kind (de_meta e))) (all_rows wrap))" for nr
    by (rule boot_slot) (simp add: s'_def)
  have "(k \<in> {op_none, address_space_create, gate_entry} \<and> (\<forall>nr. \<not> ?P nr)) \<or>
        (k \<notin> {op_none, address_space_create, gate_entry} \<and> single_number ?P)"
    unfolding P all_rows_numbers by (cases k) (simp_all add: single_numberI)
  then show ?thesis
    unfolding s'_def [symmetric] using single_number_unique [of ?P] by blast
qed

end
