(* ===== verification/ZX_Min_Heap.thy ===== *)
theory ZX_Min_Heap
  imports ZX_Base "HOL-Library.Multiset"
begin

text \<open>
  The fixed-capacity binary min-heap of \<open>lib/min_heap.cxxm\<close>. The live part of the
  array, \<open>entries[0 .. m_count)\<close>, is a list, so \<open>m_count\<close> is its length; the cells from
  \<open>m_count\<close> on are never read by the code and are not represented. Indices are natural
  numbers: the capacity of the program's heaps is 256, so \<open>2 * i + 2\<close> stays far below
  the \<open>u32\<close> bound.

  The comparison is a parameter of every operation, as in the code. The laws of the heap
  are proved once, in the locale \<open>heap_key\<close>, for a comparison that compares a key.
\<close>

section \<open>The operations\<close>

definition heap_empty :: "'a list \<Rightarrow> bool" where
  "heap_empty xs \<longleftrightarrow> length xs = 0"

definition peek :: "'a list \<Rightarrow> 'a option" where
  "peek xs = (if length xs > 0 then Some (xs ! 0) else None)"

definition parent_of :: "nat \<Rightarrow> nat" where
  "parent_of i = (i - 1) div 2"

definition left_of :: "nat \<Rightarrow> nat" where
  "left_of i = 2 * i + 1"

definition right_of :: "nat \<Rightarrow> nat" where
  "right_of i = 2 * i + 2"

definition swap_at :: "'a list \<Rightarrow> nat \<Rightarrow> nat \<Rightarrow> 'a list" where
  "swap_at xs i j = xs[i := xs ! j, j := xs ! i]"

function sift_up :: "('a \<Rightarrow> 'a \<Rightarrow> bool) \<Rightarrow> 'a list \<Rightarrow> nat \<Rightarrow> 'a list" where
  "sift_up lt xs idx =
     (if idx > 0 then
        let p = parent_of idx in
        if \<not> lt (xs ! idx) (xs ! p) then xs
        else sift_up lt (swap_at xs p idx) p
      else xs)"
  by pat_completeness auto
termination
  by (relation "measure (\<lambda>(_, _, idx). idx)") (auto simp: parent_of_def)

definition smallest_child :: "('a \<Rightarrow> 'a \<Rightarrow> bool) \<Rightarrow> 'a list \<Rightarrow> nat \<Rightarrow> nat" where
  "smallest_child lt xs idx =
     (let l = left_of idx; r = right_of idx;
          s = (if l < length xs \<and> lt (xs ! l) (xs ! idx) then l else idx)
      in if r < length xs \<and> lt (xs ! r) (xs ! s) then r else s)"

lemma smallest_child_cases:
  "smallest_child lt xs idx = idx
   \<or> (smallest_child lt xs idx \<in> {left_of idx, right_of idx}
      \<and> smallest_child lt xs idx < length xs)"
  by (simp add: smallest_child_def Let_def)

lemma smallest_child_bounds:
  "smallest_child lt xs idx \<noteq> idx \<Longrightarrow> smallest_child lt xs idx < length xs"
  "smallest_child lt xs idx \<noteq> idx \<Longrightarrow> idx < smallest_child lt xs idx"
  using smallest_child_cases [of lt xs idx] by (auto simp: left_of_def right_of_def)

lemma length_swap_at [simp]: "length (swap_at xs i j) = length xs"
  by (simp add: swap_at_def)

function sift_down :: "('a \<Rightarrow> 'a \<Rightarrow> bool) \<Rightarrow> 'a list \<Rightarrow> nat \<Rightarrow> 'a list" where
  "sift_down lt xs idx =
     (let smallest = smallest_child lt xs idx in
      if smallest = idx then xs
      else sift_down lt (swap_at xs idx smallest) smallest)"
  by pat_completeness auto
termination
proof (relation "measure (\<lambda>(_, xs, idx). length xs - idx)", goal_cases)
  case (2 lt xs idx smallest)
  then show ?case
    using smallest_child_bounds [of lt xs idx] by simp
qed simp

declare sift_up.simps [simp del] sift_down.simps [simp del]

text \<open>\<open>push\<close>: \<^const>\<open>None\<close> is the \<open>false\<close> of a full heap, which is left as it was.\<close>

definition push :: "nat \<Rightarrow> ('a \<Rightarrow> 'a \<Rightarrow> bool) \<Rightarrow> 'a list \<Rightarrow> 'a \<Rightarrow> 'a list option" where
  "push capacity lt xs elem =
     (if length xs \<ge> capacity then None
      else Some (sift_up lt (xs @ [elem]) (length xs)))"

definition heap_pop :: "('a \<Rightarrow> 'a \<Rightarrow> bool) \<Rightarrow> 'a list \<Rightarrow> 'a list" where
  "heap_pop lt xs =
     (if length xs = 0 then xs
      else if length xs - 1 > 0 then sift_down lt (butlast (xs[0 := last xs])) 0
      else [])"

fun scan_pos :: "'a list \<Rightarrow> 'a \<Rightarrow> nat" where
  "scan_pos [] elem = 0"
| "scan_pos (x # xs) elem = (if x = elem then 0 else Suc (scan_pos xs elem))"

definition heap_remove_at :: "('a \<Rightarrow> 'a \<Rightarrow> bool) \<Rightarrow> 'a list \<Rightarrow> nat \<Rightarrow> 'a list" where
  "heap_remove_at lt xs pos =
     (if pos < length xs - 1 then
        let ys = butlast (xs[pos := last xs]) in
        if pos > 0 \<and> lt (ys ! pos) (ys ! parent_of pos) then sift_up lt ys pos
        else sift_down lt ys pos
      else butlast xs)"

definition heap_remove :: "('a \<Rightarrow> 'a \<Rightarrow> bool) \<Rightarrow> 'a list \<Rightarrow> 'a \<Rightarrow> bool \<times> 'a list" where
  "heap_remove lt xs elem =
     (let pos = scan_pos xs elem in
      if pos = length xs then (False, xs) else (True, heap_remove_at lt xs pos))"

section \<open>The elements\<close>

lemma nth_swap_at:
  "i < length xs \<Longrightarrow> j < length xs \<Longrightarrow> k < length xs \<Longrightarrow>
   swap_at xs i j ! k = (if k = j then xs ! i else if k = i then xs ! j else xs ! k)"
  by (simp add: swap_at_def nth_list_update)

lemma mset_swap_at [simp]:
  "i < length xs \<Longrightarrow> j < length xs \<Longrightarrow> mset (swap_at xs i j) = mset xs"
  unfolding swap_at_def by (rule mset_swap)

lemma parent_less: "0 < i \<Longrightarrow> parent_of i < i"
  by (simp add: parent_of_def)

lemma mset_sift_up [simp]:
  "idx < length xs \<Longrightarrow> mset (sift_up lt xs idx) = mset xs"
proof (induction lt xs idx rule: sift_up.induct)
  case (1 lt xs idx)
  then show ?case
    using parent_less [of idx] less_trans [of "parent_of idx" idx "length xs"]
    by (subst sift_up.simps) (auto simp: Let_def)
qed

lemma mset_sift_down [simp]:
  "idx < length xs \<Longrightarrow> mset (sift_down lt xs idx) = mset xs"
proof (induction lt xs idx rule: sift_down.induct)
  case (1 lt xs idx)
  then show ?case
    using smallest_child_bounds [of lt xs idx]
    by (subst sift_down.simps) (simp add: Let_def)
qed

lemma scan_pos_member: "elem \<in> set xs \<Longrightarrow> scan_pos xs elem < length xs \<and> xs ! scan_pos xs elem = elem"
  by (induction xs) auto

lemma scan_pos_absent: "elem \<notin> set xs \<Longrightarrow> scan_pos xs elem = length xs"
  by (induction xs) auto

lemma mset_last_moved:
  assumes "pos < length xs - 1"
  shows "mset (butlast (xs[pos := last xs])) = mset xs - {#xs ! pos#}"
proof -
  obtain ys y where xs: "xs = ys @ [y]"
    using assms by (cases xs rule: rev_cases) auto
  with assms have "pos < length ys" by simp
  then show ?thesis
    by (simp add: xs list_update_append nth_append mset_update)
qed

lemma mset_heap_remove_at:
  assumes "pos < length xs"
  shows "mset (heap_remove_at lt xs pos) = mset xs - {#xs ! pos#}"
proof (cases "pos < length xs - 1")
  case True
  then have "pos < length (butlast (xs[pos := last xs]))" by simp
  then show ?thesis
    using True by (simp add: heap_remove_at_def Let_def mset_last_moved)
next
  case False
  obtain ys y where "xs = ys @ [y]"
    using assms by (cases xs rule: rev_cases) auto
  with False assms show ?thesis
    by (auto simp: heap_remove_at_def nth_append)
qed

lemma heap_remove_present:
  assumes "elem \<in> set xs"
  shows "fst (heap_remove lt xs elem)"
    and "mset (snd (heap_remove lt xs elem)) = mset xs - {#elem#}"
  using scan_pos_member [OF assms]
  by (simp_all add: heap_remove_def Let_def mset_heap_remove_at)

lemma heap_remove_absent:
  "elem \<notin> set xs \<Longrightarrow> heap_remove lt xs elem = (False, xs)"
  by (simp add: heap_remove_def scan_pos_absent)

lemma push_Some:
  "push capacity lt xs elem = Some ys \<Longrightarrow> mset ys = add_mset elem (mset xs)"
  by (auto simp: push_def split: if_splits)

lemma push_None: "push capacity lt xs elem = None \<longleftrightarrow> capacity \<le> length xs"
  by (simp add: push_def)

lemma pop_is_remove_head:
  "xs \<noteq> [] \<Longrightarrow> heap_pop lt xs = snd (heap_remove lt xs (xs ! 0))"
  by (cases xs) (auto simp: heap_pop_def heap_remove_def heap_remove_at_def Let_def)

section \<open>The heap order\<close>

text \<open>
  \<open>heap_order key xs\<close>: no entry is smaller than its parent. The two auxiliary forms are
  the loop invariants of the sifts: \<open>hole_up\<close> exempts the edge above \<open>idx\<close>, \<open>hole_down\<close>
  the edges below it, and both compare the children of \<open>idx\<close> with its parent.
\<close>

definition heap_order :: "('a \<Rightarrow> 'k::linorder) \<Rightarrow> 'a list \<Rightarrow> bool" where
  "heap_order key xs \<longleftrightarrow>
     (\<forall>i. 0 < i \<longrightarrow> i < length xs \<longrightarrow> key (xs ! parent_of i) \<le> key (xs ! i))"

definition hole_up :: "('a \<Rightarrow> 'k::linorder) \<Rightarrow> 'a list \<Rightarrow> nat \<Rightarrow> bool" where
  "hole_up key xs idx \<longleftrightarrow>
     (\<forall>i. 0 < i \<longrightarrow> i < length xs \<longrightarrow> i \<noteq> idx \<longrightarrow> key (xs ! parent_of i) \<le> key (xs ! i))
     \<and> (\<forall>i. 0 < i \<longrightarrow> i < length xs \<longrightarrow> parent_of i = idx \<longrightarrow> 0 < idx \<longrightarrow>
           key (xs ! parent_of idx) \<le> key (xs ! i))"

definition hole_down :: "('a \<Rightarrow> 'k::linorder) \<Rightarrow> 'a list \<Rightarrow> nat \<Rightarrow> bool" where
  "hole_down key xs idx \<longleftrightarrow>
     (\<forall>i. 0 < i \<longrightarrow> i < length xs \<longrightarrow> parent_of i \<noteq> idx \<longrightarrow>
        key (xs ! parent_of i) \<le> key (xs ! i))
     \<and> (\<forall>i. 0 < i \<longrightarrow> i < length xs \<longrightarrow> parent_of i = idx \<longrightarrow> 0 < idx \<longrightarrow>
           key (xs ! parent_of idx) \<le> key (xs ! i))"

lemma heap_order_Nil [simp]: "heap_order key []"
  by (simp add: heap_order_def)

lemma heap_order_root:
  assumes "heap_order key xs" "i < length xs"
  shows "key (xs ! 0) \<le> key (xs ! i)"
  using assms(2)
proof (induction i rule: less_induct)
  case (less i)
  show ?case
  proof (cases "i = 0")
    case False
    then have "key (xs ! 0) \<le> key (xs ! parent_of i)"
      using less parent_less [of i] by simp
    also have "\<dots> \<le> key (xs ! i)"
      using assms(1) False less.prems by (simp add: heap_order_def)
    finally show ?thesis .
  qed simp
qed

lemma heap_order_min:
  "heap_order key xs \<Longrightarrow> x \<in> set xs \<Longrightarrow> key (xs ! 0) \<le> key x"
  by (metis heap_order_root in_set_conv_nth)

lemma parent_of_child_iff: "0 < i \<Longrightarrow> parent_of i = j \<longleftrightarrow> i = left_of j \<or> i = right_of j"
  by (auto simp: parent_of_def left_of_def right_of_def)

lemma parent_of_children [simp]: "parent_of (left_of j) = j" "parent_of (right_of j) = j"
  by (simp_all add: parent_of_def left_of_def right_of_def)

lemma heap_order_butlast: "heap_order key xs \<Longrightarrow> heap_order key (butlast xs)"
  by (auto simp: heap_order_def nth_butlast parent_of_def)

lemma heap_order_cong:
  "(\<And>x. x \<in> set xs \<Longrightarrow> key x = key' x) \<Longrightarrow> heap_order key xs = heap_order key' xs"
  by (auto simp: heap_order_def parent_of_def)

lemma hole_up_append: "heap_order key xs \<Longrightarrow> hole_up key (xs @ [x]) (length xs)"
  by (auto simp: heap_order_def hole_up_def nth_append parent_of_def)

text \<open>Overwriting one entry leaves a hole there, in both directions.\<close>

lemma overwritten_edges:
  assumes h: "heap_order key xs" and pos: "pos < length xs - 1"
    and ys: "ys = butlast (xs[pos := last xs])"
  shows "\<forall>i. 0 < i \<longrightarrow> i < length ys \<longrightarrow> i \<noteq> pos \<longrightarrow> parent_of i \<noteq> pos \<longrightarrow>
           key (ys ! parent_of i) \<le> key (ys ! i)"
    and "\<forall>i. 0 < i \<longrightarrow> i < length ys \<longrightarrow> parent_of i = pos \<longrightarrow> 0 < pos \<longrightarrow>
           key (ys ! parent_of pos) \<le> key (ys ! i)"
proof -
  have nth: "ys ! k = (if k = pos then last xs else xs ! k)" if "k < length ys" for k
    using that pos by (simp add: ys nth_butlast nth_list_update)
  have len: "length ys = length xs - 1" by (simp add: ys)
  show "\<forall>i. 0 < i \<longrightarrow> i < length ys \<longrightarrow> i \<noteq> pos \<longrightarrow> parent_of i \<noteq> pos \<longrightarrow>
           key (ys ! parent_of i) \<le> key (ys ! i)"
    using h len by (auto simp: nth heap_order_def parent_of_def)
  have up: "key (xs ! parent_of i) \<le> key (xs ! i)" if "0 < i" "i < length xs" for i
    using h that by (simp add: heap_order_def)
  show "\<forall>i. 0 < i \<longrightarrow> i < length ys \<longrightarrow> parent_of i = pos \<longrightarrow> 0 < pos \<longrightarrow>
           key (ys ! parent_of pos) \<le> key (ys ! i)"
  proof (intro allI impI)
    fix i assume i: "0 < i" "i < length ys" "parent_of i = pos" "0 < pos"
    have "key (xs ! parent_of pos) \<le> key (xs ! pos)"
      using up [of pos] i pos by simp
    also have "\<dots> \<le> key (xs ! i)"
      using up [of i] i len by simp
    finally show "key (ys ! parent_of pos) \<le> key (ys ! i)"
      using i parent_less [of pos] parent_less [of i] pos len by (simp add: nth)
  qed
qed

locale heap_key =
  fixes lt :: "'a \<Rightarrow> 'a \<Rightarrow> bool" and key :: "'a \<Rightarrow> 'k::linorder"
  assumes less_key: "lt a b \<longleftrightarrow> key a < key b"
begin

lemma hole_up_step:
  assumes inv: "hole_up key xs idx" and idx: "idx < length xs" "0 < idx"
    and below: "lt (xs ! idx) (xs ! parent_of idx)"
  shows "hole_up key (swap_at xs (parent_of idx) idx) (parent_of idx)"
proof -
  let ?p = "parent_of idx" and ?ys = "swap_at xs (parent_of idx) idx"
  have p: "?p < idx" using parent_less idx(2) by simp
  have nth: "?ys ! k = (if k = idx then xs ! ?p else if k = ?p then xs ! idx else xs ! k)"
    if "k < length xs" for k
    using that p idx by (simp add: nth_swap_at)
  have edge: "key (xs ! parent_of i) \<le> key (xs ! i)" if "0 < i" "i < length xs" "i \<noteq> idx" for i
    using inv that by (simp add: hole_up_def)
  have child: "key (xs ! ?p) \<le> key (xs ! i)" if "0 < i" "i < length xs" "parent_of i = idx" for i
    using inv that idx(2) by (simp add: hole_up_def)
  have lt': "key (xs ! idx) < key (xs ! ?p)" using below less_key by simp
  have pl: "parent_of i < length xs" if "0 < i" "i < length xs" for i
    using parent_less [of i] that by simp
  show ?thesis
    unfolding hole_up_def length_swap_at
  proof (intro conjI allI impI)
    fix i assume i: "0 < i" "i < length xs" "i \<noteq> ?p"
    show "key (?ys ! parent_of i) \<le> key (?ys ! i)"
      using edge [OF i(1,2)] child [OF i(1,2)] lt' i pl [OF i(1,2)] parent_less [OF i(1)]
      by (auto simp: nth)
  next
    fix i assume i: "0 < i" "i < length xs" "parent_of i = ?p" "0 < ?p"
    have gp: "key (xs ! parent_of ?p) \<le> key (xs ! ?p)"
      using edge [of ?p] i p idx by simp
    have "key (xs ! ?p) \<le> key (xs ! i)" if "i \<noteq> idx"
      using edge [OF i(1,2) that] i(3) by simp
    then show "key (?ys ! parent_of ?p) \<le> key (?ys ! i)"
      using gp i p idx parent_less [of ?p] parent_less [of i] by (auto simp: nth)
  qed
qed

lemma sift_up_order:
  "hole_up key xs idx \<Longrightarrow> idx < length xs \<Longrightarrow> heap_order key (sift_up lt xs idx)"
proof (induction idx arbitrary: xs rule: less_induct)
  case (less idx)
  show ?case
  proof (cases "0 < idx \<and> lt (xs ! idx) (xs ! parent_of idx)")
    case True
    then show ?thesis
      using less.IH [of "parent_of idx" "swap_at xs (parent_of idx) idx"]
        hole_up_step [OF less.prems] parent_less [of idx] less.prems
      by (subst sift_up.simps) (simp add: Let_def)
  next
    case False
    then have "heap_order key xs"
      using less.prems by (auto simp: heap_order_def hole_up_def less_key not_less)
    with False show ?thesis
      by (subst sift_up.simps) (auto simp: Let_def)
  qed
qed

lemma smallest_child_least:
  assumes "idx < length xs" "parent_of i = idx" "0 < i" "i < length xs"
  shows "key (xs ! smallest_child lt xs idx) \<le> key (xs ! i)"
  using assms
  by (auto simp: parent_of_child_iff smallest_child_def Let_def less_key not_less)

lemma smallest_child_smaller:
  assumes "smallest_child lt xs idx \<noteq> idx"
  shows "key (xs ! smallest_child lt xs idx) < key (xs ! idx)"
  using assms by (auto simp: smallest_child_def Let_def less_key split: if_splits)

lemma hole_down_step:
  assumes inv: "hole_down key xs idx" and idx: "idx < length xs"
    and s: "s = smallest_child lt xs idx" "s \<noteq> idx"
  shows "hole_down key (swap_at xs idx s) s"
proof -
  let ?ys = "swap_at xs idx s"
  have s': "s < length xs" "idx < s" "key (xs ! s) < key (xs ! idx)"
    using smallest_child_bounds [of lt xs idx] smallest_child_smaller [of xs idx] s by simp_all
  have ps: "parent_of s = idx"
    using smallest_child_cases [of lt xs idx] s by auto
  have nth: "?ys ! k = (if k = s then xs ! idx else if k = idx then xs ! s else xs ! k)"
    if "k < length xs" for k
    using that s' idx by (simp add: nth_swap_at)
  have edge: "key (xs ! parent_of i) \<le> key (xs ! i)"
    if "0 < i" "i < length xs" "parent_of i \<noteq> idx" for i
    using inv that by (simp add: hole_down_def)
  have above: "key (xs ! parent_of idx) \<le> key (xs ! i)"
    if "0 < i" "i < length xs" "parent_of i = idx" "0 < idx" for i
    using inv that by (simp add: hole_down_def)
  have least: "key (xs ! s) \<le> key (xs ! i)" if "0 < i" "i < length xs" "parent_of i = idx" for i
    using smallest_child_least [OF idx] that s by simp
  have pl: "parent_of i < length xs" "parent_of i < i" if "0 < i" "i < length xs" for i
    using parent_less [of i] that by simp_all
  show ?thesis
    unfolding hole_down_def length_swap_at
  proof (intro conjI allI impI)
    fix i assume i: "0 < i" "i < length xs" "parent_of i \<noteq> s"
    have "key (xs ! parent_of idx) \<le> key (xs ! s)" if "i = idx"
      using above [of s] ps s' i(1) that by simp
    then show "key (?ys ! parent_of i) \<le> key (?ys ! i)"
      using edge [OF i(1,2)] least [OF i(1,2)] s' i pl [OF i(1,2)] ps by (auto simp: nth)
  next
    fix i assume i: "0 < i" "i < length xs" "parent_of i = s" "0 < s"
    then show "key (?ys ! parent_of s) \<le> key (?ys ! i)"
      using edge [OF i(1,2)] ps s' pl [OF i(1,2)] idx by (simp add: nth)
  qed
qed

lemma sift_down_order:
  "hole_down key xs idx \<Longrightarrow> idx < length xs \<Longrightarrow> heap_order key (sift_down lt xs idx)"
proof (induction "length xs - idx" arbitrary: xs idx rule: less_induct)
  case less
  let ?s = "smallest_child lt xs idx"
  show ?case
  proof (cases "?s = idx")
    case True
    then have "key (xs ! idx) \<le> key (xs ! i)"
      if "0 < i" "i < length xs" "parent_of i = idx" for i
      using smallest_child_least [of idx xs i] less.prems(2) that by simp
    then have "heap_order key xs"
      using less.prems(1) by (auto simp: heap_order_def hole_down_def)
    with True show ?thesis by (subst sift_down.simps) simp
  next
    case False
    have "heap_order key (sift_down lt (swap_at xs idx ?s) ?s)"
      using less.hyps [of "swap_at xs idx ?s" ?s] smallest_child_bounds [OF False] less.prems
        hole_down_step [OF less.prems refl False] by simp
    with False show ?thesis by (subst sift_down.simps) (simp add: Let_def)
  qed
qed

lemma push_order: "heap_order key xs \<Longrightarrow> push capacity lt xs e = Some ys \<Longrightarrow> heap_order key ys"
  using sift_up_order [OF hole_up_append] by (auto simp: push_def split: if_splits)

lemma heap_remove_at_order:
  assumes h: "heap_order key xs" and pos: "pos < length xs"
  shows "heap_order key (heap_remove_at lt xs pos)"
proof (cases "pos < length xs - 1")
  case True
  define ys where "ys = butlast (xs[pos := last xs])"
  have len: "pos < length ys" using True by (simp add: ys_def)
  note edges = overwritten_edges [OF h True ys_def]
  show ?thesis
  proof (cases "pos > 0 \<and> lt (ys ! pos) (ys ! parent_of pos)")
    case up: True
    have "key (ys ! pos) \<le> key (ys ! i)"
      if i: "0 < i" "i < length ys" "parent_of i = pos" for i
    proof -
      have "key (ys ! pos) < key (ys ! parent_of pos)" using up less_key by simp
      also have "\<dots> \<le> key (ys ! i)" using edges(2) i up by simp
      finally show ?thesis by simp
    qed
    then have "key (ys ! parent_of i) \<le> key (ys ! i)"
      if "0 < i" "i < length ys" "i \<noteq> pos" for i
      using edges(1) that by (cases "parent_of i = pos") simp_all
    then have "hole_up key ys pos"
      using edges(2) unfolding hole_up_def by blast
    then show ?thesis
      using True up len sift_up_order by (simp add: heap_remove_at_def Let_def flip: ys_def)
  next
    case down: False
    then have "key (ys ! parent_of pos) \<le> key (ys ! pos)" if "0 < pos"
      using that by (simp add: less_key not_less)
    then have "key (ys ! parent_of i) \<le> key (ys ! i)"
      if "0 < i" "i < length ys" "parent_of i \<noteq> pos" for i
      using edges(1) that by (cases "i = pos") simp_all
    then have "hole_down key ys pos"
      using edges(2) unfolding hole_down_def by blast
    then show ?thesis
      using True down len sift_down_order by (auto simp: heap_remove_at_def Let_def simp flip: ys_def)
  qed
next
  case False
  with h show ?thesis by (simp add: heap_remove_at_def heap_order_butlast)
qed

lemma remove_order:
  assumes "heap_order key xs"
  shows "heap_order key (snd (heap_remove lt xs e))"
proof (cases "e \<in> set xs")
  case True
  then show ?thesis
    using scan_pos_member [OF True] heap_remove_at_order [OF assms]
    by (simp add: heap_remove_def Let_def)
qed (simp add: heap_remove_absent assms)

end

end
