(* ===== verification/ZX_Timer.thy ===== *)
theory ZX_Timer
  imports ZX_Min_Heap
begin

text \<open>
  The kernel timers (\<open>zxfoundation/sys/timer.zcomponent\<close>): one min-heap of armed timers
  per CPU, ordered by deadline, and the clock comparator that is programmed to the
  earliest one. Timers are objects at addresses; the state holds the timer at every
  address, the heap and the comparator of every CPU. The time-of-day clock is read once
  per call of \<open>stck\<close>, so its readings are arguments.

  The callbacks are code of other components: \<open>timer_interrupt\<close> takes their behaviour as
  a function on the state, which may be an extension of \<open>timer_state\<close>.
\<close>

section \<open>State\<close>

datatype timer_mode = oneshot | periodic

record kernel_timer =
  deadline_tod :: u64
  interval_tod :: u64
  callback :: "fnptr option"
  cb_data :: "addr option"
  timer_mode :: timer_mode
  armed :: bool
  timer_cpu :: u16

record timer_state =
  timers :: "addr \<Rightarrow> kernel_timer"
  g_heaps :: "u16 \<Rightarrow> addr list"
  comparator :: "u16 \<Rightarrow> u64"

definition TIMER_HEAP_CAPACITY :: nat where
  "TIMER_HEAP_CAPACITY = 256"

definition TICK_INTERVAL_TOD :: u64 where
  "TICK_INTERVAL_TOD = 40960000"

definition timer_less :: "(addr \<Rightarrow> kernel_timer) \<Rightarrow> addr \<Rightarrow> addr \<Rightarrow> bool" where
  "timer_less ts a b \<longleftrightarrow> deadline_tod (ts a) < deadline_tod (ts b)"

definition set_timer :: "addr \<Rightarrow> kernel_timer \<Rightarrow> 'a timer_state_scheme \<Rightarrow> 'a timer_state_scheme" where
  "set_timer t v s = s\<lparr>timers := (timers s)(t := v)\<rparr>"

definition set_heap :: "u16 \<Rightarrow> addr list \<Rightarrow> 'a timer_state_scheme \<Rightarrow> 'a timer_state_scheme" where
  "set_heap c xs s = s\<lparr>g_heaps := (g_heaps s)(c := xs)\<rparr>"

section \<open>Operations\<close>

text \<open>\<open>sckc\<close> sets the comparator of the executing CPU.\<close>

definition sckc :: "u16 \<Rightarrow> u64 \<Rightarrow> 'a timer_state_scheme \<Rightarrow> 'a timer_state_scheme" where
  "sckc this_cpu v s = s\<lparr>comparator := (comparator s)(this_cpu := v)\<rparr>"

definition rearm_comparator ::
  "u16 \<Rightarrow> u64 \<Rightarrow> u16 \<Rightarrow> 'a timer_state_scheme \<Rightarrow> 'a timer_state_scheme" where
  "rearm_comparator this_cpu stck cpu_id s =
     (case peek (g_heaps s cpu_id) of
        Some t \<Rightarrow> sckc this_cpu (deadline_tod (timers s t)) s
      | None \<Rightarrow> sckc this_cpu (stck + 40960000000) s)"

definition irq_handler_timing_alert ::
  "u16 \<Rightarrow> u64 \<Rightarrow> 'a timer_state_scheme \<Rightarrow> 'a timer_state_scheme" where
  "irq_handler_timing_alert this_cpu stck s = sckc this_cpu (stck + 40960000000) s"

definition timer_add ::
  "u16 \<Rightarrow> u64 \<Rightarrow> addr \<Rightarrow> 'a timer_state_scheme \<Rightarrow> unit expected \<times> 'a timer_state_scheme" where
  "timer_add this_cpu stck t s =
     (if armed (timers s t) then (Inl (from_generic invalid_arg), s)
      else
        let cpu_id = this_cpu;
            s1 = set_timer t ((timers s t)\<lparr>timer_cpu := cpu_id\<rparr>) s
        in case push TIMER_HEAP_CAPACITY (timer_less (timers s1)) (g_heaps s1 cpu_id) t of
             None \<Rightarrow> (Inl (from_memory out_of_memory), s1)
           | Some h \<Rightarrow>
               let s2 = set_heap cpu_id h s1;
                   s3 = set_timer t ((timers s2 t)\<lparr>armed := True\<rparr>) s2
               in (Inr (), if peek (g_heaps s3 cpu_id) = Some t
                           then rearm_comparator this_cpu stck cpu_id s3 else s3))"

definition timer_cancel ::
  "u16 \<Rightarrow> u64 \<Rightarrow> addr \<Rightarrow> 'a timer_state_scheme \<Rightarrow> unit expected \<times> 'a timer_state_scheme" where
  "timer_cancel this_cpu stck t s =
     (if \<not> armed (timers s t) then (Inl (from_generic invalid_arg), s)
      else if timer_cpu (timers s t) \<noteq> this_cpu then (Inl (from_generic not_supported), s)
      else
        let c = timer_cpu (timers s t);
            s1 = set_heap c (snd (heap_remove (timer_less (timers s)) (g_heaps s c) t)) s;
            s2 = set_timer t ((timers s1 t)\<lparr>armed := False\<rparr>) s1
        in (Inr (), rearm_comparator this_cpu stck c s2))"

text \<open>One pass of the loop of \<open>timer_interrupt\<close> over the top timer.\<close>

definition next_deadline :: "u64 \<Rightarrow> kernel_timer \<Rightarrow> u64" where
  "next_deadline now t =
     (let next = deadline_tod t + interval_tod t in
      if next \<le> now then
        let missed = (now - deadline_tod t) div interval_tod t
        in deadline_tod t + (missed + 1) * interval_tod t
      else next)"

definition requeue :: "u16 \<Rightarrow> u64 \<Rightarrow> addr \<Rightarrow> 'a timer_state_scheme \<Rightarrow> 'a timer_state_scheme" where
  "requeue cpu_id now t s =
     (if timer_mode (timers s t) = periodic \<and> interval_tod (timers s t) > 0 then
        let s1 = set_timer t ((timers s t)\<lparr>deadline_tod := next_deadline now (timers s t),
                                           timer_cpu := cpu_id\<rparr>) s
        in case push TIMER_HEAP_CAPACITY (timer_less (timers s1)) (g_heaps s1 cpu_id) t of
             None \<Rightarrow> s1
           | Some h \<Rightarrow> set_timer t ((timers s1 t)\<lparr>armed := True\<rparr>) (set_heap cpu_id h s1)
      else s)"

definition unlink_timer :: "u16 \<Rightarrow> addr \<Rightarrow> 'a timer_state_scheme \<Rightarrow> 'a timer_state_scheme" where
  "unlink_timer cpu_id t s =
     (let s1 = set_heap cpu_id (snd (heap_remove (timer_less (timers s)) (g_heaps s cpu_id) t)) s
      in set_timer t ((timers s1 t)\<lparr>armed := False\<rparr>) s1)"

definition run_callback ::
  "(fnptr \<Rightarrow> addr option \<Rightarrow> 'a timer_state_scheme \<Rightarrow> 'a timer_state_scheme) \<Rightarrow>
   addr \<Rightarrow> 'a timer_state_scheme \<Rightarrow> 'a timer_state_scheme" where
  "run_callback fire t s =
     (case callback (timers s t) of
        None \<Rightarrow> s
      | Some f \<Rightarrow> fire f (cb_data (timers s t)) s)"

text \<open>
  The \<open>while\<close> loop ends when the heap is empty or its top lies in the future. A callback
  may arm timers, so the loop need not end; not ending is \<^const>\<open>None\<close>.
\<close>

partial_function (option) expire_loop ::
  "(fnptr \<Rightarrow> addr option \<Rightarrow> 'a timer_state_scheme \<Rightarrow> 'a timer_state_scheme) \<Rightarrow>
   u16 \<Rightarrow> u64 \<Rightarrow> 'a timer_state_scheme \<Rightarrow> 'a timer_state_scheme option" where
  "expire_loop fire cpu_id now s =
     (case peek (g_heaps s cpu_id) of
        None \<Rightarrow> Some s
      | Some t \<Rightarrow>
          if deadline_tod (timers s t) > now then Some s
          else expire_loop fire cpu_id now
                 (requeue cpu_id now t (run_callback fire t (unlink_timer cpu_id t s))))"

definition timer_interrupt ::
  "(fnptr \<Rightarrow> addr option \<Rightarrow> 'a timer_state_scheme \<Rightarrow> 'a timer_state_scheme) \<Rightarrow>
   u16 \<Rightarrow> u64 \<Rightarrow> u64 \<Rightarrow> 'a timer_state_scheme \<Rightarrow> 'a timer_state_scheme option" where
  "timer_interrupt fire cpu_id now stck s =
     map_option (rearm_comparator cpu_id stck cpu_id) (expire_loop fire cpu_id now s)"

section \<open>The invariant\<close>

text \<open>
  \<open>timers_wf\<close>: every heap is in heap order of the deadlines, has no duplicates, fits its
  array, and holds exactly the armed timers of its CPU. \<open>comparator_ok\<close>: the comparator of
  a CPU is no later than any deadline of its heap, so no pending timer is slept through.
\<close>

abbreviation deadline_of :: "'a timer_state_scheme \<Rightarrow> addr \<Rightarrow> u64" where
  "deadline_of s t \<equiv> deadline_tod (timers s t)"

definition timers_wf :: "'a timer_state_scheme \<Rightarrow> bool" where
  "timers_wf s \<longleftrightarrow>
     (\<forall>c. heap_order (deadline_of s) (g_heaps s c) \<and> distinct (g_heaps s c)
          \<and> length (g_heaps s c) \<le> TIMER_HEAP_CAPACITY)
     \<and> (\<forall>c t. t \<in> set (g_heaps s c) \<longleftrightarrow> armed (timers s t) \<and> timer_cpu (timers s t) = c)"

definition comparator_ok :: "u16 \<Rightarrow> 'a timer_state_scheme \<Rightarrow> bool" where
  "comparator_ok c s \<longleftrightarrow> (\<forall>t \<in> set (g_heaps s c). comparator s c \<le> deadline_of s t)"

interpretation th: heap_key "timer_less ts" "\<lambda>t. deadline_tod (ts t)"
  for ts :: "addr \<Rightarrow> kernel_timer"
  by unfold_locales (simp add: timer_less_def)

lemma timer_accessors [simp]:
  "timers (set_timer t v s) = (timers s)(t := v)"
  "g_heaps (set_timer t v s) = g_heaps s"
  "comparator (set_timer t v s) = comparator s"
  "timers (set_heap c xs s) = timers s"
  "g_heaps (set_heap c xs s) = (g_heaps s)(c := xs)"
  "comparator (set_heap c xs s) = comparator s"
  "timers (sckc c u s) = timers s"
  "g_heaps (sckc c u s) = g_heaps s"
  "comparator (sckc c u s) = (comparator s)(c := u)"
  by (simp_all add: set_timer_def set_heap_def sckc_def)

lemma rearm_accessors [simp]:
  "timers (rearm_comparator this stck c s) = timers s"
  "g_heaps (rearm_comparator this stck c s) = g_heaps s"
  by (simp_all add: rearm_comparator_def split: option.split)

lemma rearm_wf [simp]: "timers_wf (rearm_comparator this stck c s) = timers_wf s"
  by (simp add: timers_wf_def)

lemma peek_Some: "peek xs = Some t \<longleftrightarrow> xs \<noteq> [] \<and> t = xs ! 0"
  by (auto simp: peek_def)

lemma peek_None: "peek xs = None \<longleftrightarrow> xs = []"
  by (simp add: peek_def)

lemma timers_wf_heap:
  assumes "timers_wf s"
  shows "heap_order (deadline_of s) (g_heaps s c)" "distinct (g_heaps s c)"
    "length (g_heaps s c) \<le> TIMER_HEAP_CAPACITY"
    "t \<in> set (g_heaps s c) \<longleftrightarrow> armed (timers s t) \<and> timer_cpu (timers s t) = c"
  using assms by (simp_all add: timers_wf_def)

lemma rearm_comparator_ok:
  assumes "timers_wf s"
  shows "comparator_ok c (rearm_comparator c stck c s)"
proof (cases "peek (g_heaps s c)")
  case None
  then show ?thesis by (simp add: comparator_ok_def peek_None)
next
  case (Some t)
  then have "t = g_heaps s c ! 0" by (simp add: peek_Some)
  with Some show ?thesis
    using heap_order_min [OF timers_wf_heap(1) [OF assms]]
    by (simp add: comparator_ok_def rearm_comparator_def)
qed

text \<open>
  The heap of one CPU changes, and one timer that lies in no other heap: the form of every
  step below.
\<close>

lemma timers_wf_update:
  assumes wf: "timers_wf s"
    and heap: "heap_order (\<lambda>x. deadline_tod (((timers s)(t := v)) x)) h"
      "distinct h" "length h \<le> TIMER_HEAP_CAPACITY"
    and members: "set h - {t} = set (g_heaps s c) - {t}"
    and t: "t \<in> set h \<longleftrightarrow> armed v" "timer_cpu v = c"
    and home: "armed (timers s t) \<Longrightarrow> timer_cpu (timers s t) = c"
    and ts: "timers s' = (timers s)(t := v)" and hs: "g_heaps s' = (g_heaps s)(c := h)"
  shows "timers_wf s'"
proof -
  have mem: "x \<in> set (g_heaps s d) \<longleftrightarrow> armed (timers s x) \<and> timer_cpu (timers s x) = d" for x d
    using timers_wf_heap(4) [OF wf] .
  have fresh: "t \<notin> set (g_heaps s d)" if "d \<noteq> c" for d
    using mem [of t d] home that by auto
  have "heap_order (deadline_of s') (g_heaps s d)" if "d \<noteq> c" for d
  proof -
    have "heap_order (deadline_of s') (g_heaps s d) = heap_order (deadline_of s) (g_heaps s d)"
      using fresh [OF that] by (intro heap_order_cong) (auto simp: ts)
    then show ?thesis using timers_wf_heap(1) [OF wf] by simp
  qed
  moreover have "heap_order (deadline_of s') h" using heap(1) by (simp add: ts)
  moreover have "x \<in> set h \<longleftrightarrow> x \<in> set (g_heaps s c)" if "x \<noteq> t" for x
    using members that by blast
  ultimately show ?thesis
    using heap(2,3) t fresh mem timers_wf_heap(2,3) [OF wf]
    unfolding timers_wf_def ts hs by (auto simp: fun_upd_def)
qed

lemma push_distinct:
  assumes "push cap lt xs t = Some h" "distinct xs" "t \<notin> set xs"
  shows "distinct h" "set h = insert t (set xs)" "length h = Suc (length xs)" "length h \<le> cap"
proof -
  have m: "mset h = mset (t # xs)" using push_Some [OF assms(1)] by simp
  show "distinct h"
    using assms(2,3) by (subst mset_eq_imp_distinct_iff [OF m]) simp
  show "set h = insert t (set xs)"
    using mset_eq_setD [OF m] by simp
  show "length h = Suc (length xs)"
    using mset_eq_length [OF m] by simp
  then show "length h \<le> cap"
    using assms(1) by (simp add: push_def split: if_splits)
qed

lemma remove_distinct:
  assumes "distinct xs" "t \<in> set xs"
  shows "distinct (snd (heap_remove lt xs t))" "set (snd (heap_remove lt xs t)) = set xs - {t}"
    "length (snd (heap_remove lt xs t)) = length xs - 1"
proof -
  let ?h = "snd (heap_remove lt xs t)"
  have m: "mset ?h = mset (remove1 t xs)"
    using heap_remove_present(2) [OF assms(2)] by simp
  show "distinct ?h"
    using assms(1) by (subst mset_eq_imp_distinct_iff [OF m]) simp
  show "set ?h = set xs - {t}"
    using mset_eq_setD [OF m] assms(1) by simp
  show "length ?h = length xs - 1"
    using mset_eq_length [OF m] assms(2) by (simp add: length_remove1)
qed

section \<open>Arming and cancelling\<close>

lemma timer_add_wf:
  assumes wf: "timers_wf s" and add: "timer_add this stck t s = (Inr (), s')"
  shows "timers_wf s'" and "set (g_heaps s' this) = insert t (set (g_heaps s this))"
    and "timers s' = (timers s)(t := (timers s t)\<lparr>timer_cpu := this, armed := True\<rparr>)"
    and "comparator_ok this s \<Longrightarrow> comparator_ok this s'"
proof -
  let ?v = "(timers s t)\<lparr>timer_cpu := this\<rparr>" and ?w = "(timers s t)\<lparr>timer_cpu := this, armed := True\<rparr>"
  let ?ts = "(timers s)(t := ?v)"
  have un: "\<not> armed (timers s t)"
    using add by (auto simp: timer_add_def)
  with add obtain h where h: "push TIMER_HEAP_CAPACITY (timer_less ?ts) (g_heaps s this) t = Some h"
    by (auto simp: timer_add_def Let_def split: option.splits)
  define s3 where "s3 = set_timer t ?w (set_heap this h (set_timer t ?v s))"
  have s': "s' = (if peek h = Some t then rearm_comparator this stck this s3 else s3)"
    using add un h by (auto simp: timer_add_def Let_def s3_def)
  have acc: "timers s' = (timers s)(t := ?w)" "g_heaps s' = (g_heaps s)(this := h)"
    by (simp_all add: s' s3_def)
  have fresh: "t \<notin> set (g_heaps s this)"
    using timers_wf_heap(4) [OF wf] un by simp
  note pd = push_distinct [OF h timers_wf_heap(2) [OF wf] fresh]
  have key: "deadline_tod (?ts x) = deadline_of s x" for x by simp
  have order: "heap_order (\<lambda>x. deadline_tod (((timers s)(t := ?w)) x)) h"
  proof -
    have "heap_order (\<lambda>x. deadline_tod (?ts x)) (g_heaps s this)"
      using timers_wf_heap(1) [OF wf] unfolding key .
    from th.push_order [OF this h] show ?thesis
      by (subst heap_order_cong [where key' = "\<lambda>x. deadline_tod (?ts x)"]) simp_all
  qed
  show wf': "timers_wf s'"
    using timers_wf_update [OF wf order pd(1,4) _ _ _ _ acc] pd(2) un by simp
  show "set (g_heaps s' this) = insert t (set (g_heaps s this))"
    using acc(2) pd(2) by simp
  show "timers s' = (timers s)(t := ?w)"
    by (rule acc(1))
  show "comparator_ok this s'" if ok: "comparator_ok this s"
  proof (cases "peek h = Some t")
    case True
    have "timers_wf s3" using wf' by (simp add: s' True)
    then show ?thesis by (simp add: s' True rearm_comparator_ok)
  next
    case False
    have "h \<noteq> []" using pd(3) by auto
    with False have "h ! 0 \<noteq> t" "h ! 0 \<in> set h" by (auto simp: peek_Some)
    then have "comparator s this \<le> deadline_of s (h ! 0)"
      using ok pd(2) by (auto simp: comparator_ok_def)
    also have "deadline_of s (h ! 0) \<le> deadline_of s x" if "x \<in> set h" for x
      using heap_order_min [OF order that] by (simp split: if_splits)
    finally show ?thesis
      by (simp add: comparator_ok_def s' False s3_def)
  qed
qed

lemma timer_add_failed:
  assumes "timer_add this stck t s = (Inl e, s')"
  shows "g_heaps s' = g_heaps s \<and> comparator s' = comparator s
         \<and> (armed (timers s t) \<and> s' = s \<and> e = from_generic invalid_arg
            \<or> \<not> armed (timers s t) \<and> length (g_heaps s this) \<ge> TIMER_HEAP_CAPACITY
              \<and> timers s' = (timers s)(t := (timers s t)\<lparr>timer_cpu := this\<rparr>)
              \<and> e = from_memory out_of_memory)"
  using assms by (auto simp: timer_add_def Let_def push_None split: if_splits option.splits)

lemma unlink_timer_effect:
  assumes wf: "timers_wf s" and t: "t \<in> set (g_heaps s c)"
  shows "timers_wf (unlink_timer c t s)"
    and "set (g_heaps (unlink_timer c t s) c) = set (g_heaps s c) - {t}"
    and "length (g_heaps (unlink_timer c t s) c) < TIMER_HEAP_CAPACITY"
    and "timers (unlink_timer c t s) = (timers s)(t := (timers s t)\<lparr>armed := False\<rparr>)"
proof -
  let ?h = "snd (heap_remove (timer_less (timers s)) (g_heaps s c) t)"
    and ?v = "(timers s t)\<lparr>armed := False\<rparr>"
  note rd = remove_distinct [OF timers_wf_heap(2) [OF wf] t, of "timer_less (timers s)"]
  have acc: "timers (unlink_timer c t s) = (timers s)(t := ?v)"
    "g_heaps (unlink_timer c t s) = (g_heaps s)(c := ?h)"
    by (simp_all add: unlink_timer_def Let_def)
  have "0 < length (g_heaps s c)" using t by (rule length_pos_if_in_set)
  then have len: "length ?h < TIMER_HEAP_CAPACITY"
    using rd(3) timers_wf_heap(3) [OF wf, of c] by linarith
  have order: "heap_order (\<lambda>x. deadline_tod (((timers s)(t := ?v)) x)) ?h"
    using th.remove_order [OF timers_wf_heap(1) [OF wf, of c], of t]
    by (subst heap_order_cong [where key' = "deadline_of s"]) simp_all
  show "timers_wf (unlink_timer c t s)"
    using timers_wf_update [OF wf order rd(1) _ _ _ _ _ acc] rd(2) len t
      timers_wf_heap(4) [OF wf, of t c] by simp
  show "set (g_heaps (unlink_timer c t s) c) = set (g_heaps s c) - {t}"
    "length (g_heaps (unlink_timer c t s) c) < TIMER_HEAP_CAPACITY"
    using acc(2) rd(2) len by simp_all
  show "timers (unlink_timer c t s) = (timers s)(t := ?v)"
    by (rule acc(1))
qed

lemma timer_cancel_unlinks:
  "timer_cancel this stck t s = (Inr (), s') \<longleftrightarrow>
     armed (timers s t) \<and> timer_cpu (timers s t) = this
     \<and> s' = rearm_comparator this stck this (unlink_timer this t s)"
  by (auto simp: timer_cancel_def unlink_timer_def Let_def split: if_splits)

section \<open>Expiry\<close>

text \<open>What one expiry leaves of a timer: re-armed beyond \<open>now\<close> when periodic, else disarmed.\<close>

definition rearms :: "kernel_timer \<Rightarrow> bool" where
  "rearms v \<longleftrightarrow> timer_mode v = periodic \<and> interval_tod v > 0"

definition expired_timer :: "u64 \<Rightarrow> kernel_timer \<Rightarrow> kernel_timer" where
  "expired_timer now v =
     (if rearms v then v\<lparr>deadline_tod := next_deadline now v, armed := True\<rparr>
      else v\<lparr>armed := False\<rparr>)"

lemma next_deadline_nat:
  assumes d: "deadline_tod v \<le> now" and i: "interval_tod v > 0"
    and fits: "unat now + unat (interval_tod v) < 2 ^ 64"
  shows "unat (next_deadline now v) =
    unat (deadline_tod v)
    + ((unat now - unat (deadline_tod v)) div unat (interval_tod v) + 1) * unat (interval_tod v)"
proof -
  let ?d = "unat (deadline_tod v)" and ?i = "unat (interval_tod v)" and ?n = "unat now"
  let ?m = "(?n - ?d) div ?i"
  have dn: "?d \<le> ?n" using d by (simp add: word_le_nat_alt)
  have i0: "0 < ?i" using i by (simp add: word_less_nat_alt)
  have mi: "?m * ?i \<le> ?n - ?d" by simp
  have step: "unat (deadline_tod v + interval_tod v) = ?d + ?i"
    using dn fits by (simp add: unat_word_ariths)
  define q where "q = (now - deadline_tod v) div interval_tod v"
  have missed: "unat q = ?m"
    using d by (simp add: q_def unat_div unat_sub)
  have "?m \<le> ?n"
    using div_le_dividend [of "?n - ?d" ?i] by linarith
  then have "?m + 1 < 2 ^ 64"
    using i0 fits by linarith
  then have m1: "unat (q + 1) = ?m + 1"
    by (simp add: unat_word_ariths(1) missed)
  have "?d + ?m * ?i \<le> ?n" using mi dn by linarith
  then have le: "?d + (?m + 1) * ?i \<le> ?n + ?i" by simp
  then have "unat ((q + 1) * interval_tod v) = (?m + 1) * ?i"
    using fits by (simp add: unat_word_ariths(2) m1)
  then have big: "unat (deadline_tod v + (q + 1) * interval_tod v) = ?d + (?m + 1) * ?i"
    using le fits by (simp add: unat_word_ariths(1))
  show ?thesis
  proof (cases "deadline_tod v + interval_tod v \<le> now")
    case True
    then show ?thesis using big by (simp add: next_deadline_def Let_def q_def)
  next
    case False
    then have "?n < ?d + ?i" using step by (simp add: word_le_nat_alt)
    then have "?m = 0" using dn by simp
    then show ?thesis using False step by (simp add: next_deadline_def Let_def)
  qed
qed

lemma next_deadline_future:
  assumes "deadline_tod v \<le> now" "interval_tod v > 0"
    and "unat now + unat (interval_tod v) < 2 ^ 64"
  shows "now < next_deadline now v"
proof -
  have "0 < unat (interval_tod v)"
    using assms(2) by (simp add: word_less_nat_alt)
  from dividend_less_div_times [OF this, of "unat now - unat (deadline_tod v)"]
  have "unat now < unat (next_deadline now v)"
    unfolding next_deadline_nat [OF assms] by simp
  then show ?thesis by (simp add: word_less_nat_alt)
qed

text \<open>A callback that leaves the timer subsystem alone (it may change the extension).\<close>

definition quiet ::
  "(fnptr \<Rightarrow> addr option \<Rightarrow> 'a timer_state_scheme \<Rightarrow> 'a timer_state_scheme) \<Rightarrow> bool" where
  "quiet fire \<longleftrightarrow>
     (\<forall>f d s. timers (fire f d s) = timers s \<and> g_heaps (fire f d s) = g_heaps s
              \<and> comparator (fire f d s) = comparator s)"

lemma quiet_callback:
  assumes "quiet fire"
  shows "timers (run_callback fire t s) = timers s" "g_heaps (run_callback fire t s) = g_heaps s"
    "timers_wf (run_callback fire t s) = timers_wf s"
  using assms by (simp_all add: quiet_def run_callback_def timers_wf_def split: option.split)

lemma requeue_effect:
  assumes wf: "timers_wf s" and un: "\<not> armed (timers s t)" "timer_cpu (timers s t) = c"
    and room: "length (g_heaps s c) < TIMER_HEAP_CAPACITY" and per: "rearms (timers s t)"
  shows "timers_wf (requeue c now t s)"
    and "timers (requeue c now t s) = (timers s)(t := expired_timer now (timers s t))"
    and "set (g_heaps (requeue c now t s) c) = insert t (set (g_heaps s c))"
proof -
  let ?v = "(timers s t)\<lparr>deadline_tod := next_deadline now (timers s t), timer_cpu := c\<rparr>"
  let ?ts = "(timers s)(t := ?v)" and ?w = "expired_timer now (timers s t)"
  have w: "?w = ?v\<lparr>armed := True\<rparr>" "armed ?w" "timer_cpu ?w = c"
    using per un(2) by (simp_all add: expired_timer_def)
  obtain h where h: "push TIMER_HEAP_CAPACITY (timer_less ?ts) (g_heaps s c) t = Some h"
    using room by (simp add: push_def)
  have acc: "timers (requeue c now t s) = (timers s)(t := ?w)"
    "g_heaps (requeue c now t s) = (g_heaps s)(c := h)"
    using per h by (simp_all add: requeue_def rearms_def Let_def w(1))
  have fresh: "t \<notin> set (g_heaps s c)"
    using timers_wf_heap(4) [OF wf] un by simp
  note pd = push_distinct [OF h timers_wf_heap(2) [OF wf] fresh]
  have "heap_order (\<lambda>x. deadline_tod (?ts x)) (g_heaps s c)"
    using timers_wf_heap(1) [OF wf, of c] fresh
    by (subst heap_order_cong [where key' = "deadline_of s"]) auto
  from th.push_order [OF this h]
  have order: "heap_order (\<lambda>x. deadline_tod (((timers s)(t := ?w)) x)) h"
    by (subst heap_order_cong [where key' = "\<lambda>x. deadline_tod (?ts x)"]) (simp_all add: w(1))
  show "timers_wf (requeue c now t s)"
    using timers_wf_update [OF wf order pd(1,4) _ _ w(3) _ acc] pd(2) un w(2) by simp
  show "timers (requeue c now t s) = (timers s)(t := ?w)"
    by (rule acc(1))
  show "set (g_heaps (requeue c now t s) c) = insert t (set (g_heaps s c))"
    using acc(2) pd(2) by simp
qed

text \<open>The timers of a CPU that are due.\<close>

definition due :: "u16 \<Rightarrow> u64 \<Rightarrow> 'a timer_state_scheme \<Rightarrow> addr set" where
  "due c now s = {t \<in> set (g_heaps s c). deadline_of s t \<le> now}"

lemma finite_due [simp]: "finite (due c now s)"
  by (simp add: due_def)

lemma expire_step:
  assumes wf: "timers_wf s" and q: "quiet fire" and t: "t \<in> due c now s"
    and fits: "unat now + unat (interval_tod (timers s t)) < 2 ^ 64"
  defines "s' \<equiv> requeue c now t (run_callback fire t (unlink_timer c t s))"
  shows "timers_wf s'" "timers s' = (timers s)(t := expired_timer now (timers s t))"
    "set (g_heaps s' c) = (if rearms (timers s t) then set (g_heaps s c) else set (g_heaps s c) - {t})"
    "due c now s' = due c now s - {t}"
proof -
  let ?u = "run_callback fire t (unlink_timer c t s)"
  have tin: "t \<in> set (g_heaps s c)" "deadline_of s t \<le> now"
    using t by (simp_all add: due_def)
  note ul = unlink_timer_effect [OF wf tin(1)]
  note u = quiet_callback [OF q, of t "unlink_timer c t s"]
  have ut: "timers ?u t = (timers s t)\<lparr>armed := False\<rparr>"
    using u(1) ul(4) by simp
  have cpu: "timer_cpu (timers s t) = c"
    using timers_wf_heap(4) [OF wf, of t c] tin(1) by simp
  have same: "expired_timer now (timers ?u t) = expired_timer now (timers s t)"
    by (simp add: ut expired_timer_def rearms_def next_deadline_def Let_def)
  have eff: "timers_wf s' \<and> timers s' = (timers s)(t := expired_timer now (timers s t))
    \<and> set (g_heaps s' c) = (if rearms (timers s t) then set (g_heaps s c) else set (g_heaps s c) - {t})"
  proof (cases "rearms (timers s t)")
    case True
    then have "rearms (timers ?u t)" by (simp add: ut rearms_def)
    note rq = requeue_effect [of ?u t c now, OF _ _ _ _ this]
    show ?thesis
      using rq u ul ut cpu same True tin(1) by (auto simp: s'_def)
  next
    case False
    then have "\<not> rearms (timers ?u t)" by (simp add: ut rearms_def)
    then have "s' = ?u" unfolding s'_def requeue_def rearms_def by (rule if_not_P)
    then show ?thesis
      using u ul False by (simp add: expired_timer_def)
  qed
  then show "timers_wf s'" "timers s' = (timers s)(t := expired_timer now (timers s t))"
    "set (g_heaps s' c) = (if rearms (timers s t) then set (g_heaps s c) else set (g_heaps s c) - {t})"
    by simp_all
  have "now < deadline_tod (expired_timer now (timers s t))" if "rearms (timers s t)"
    using next_deadline_future [OF tin(2) _ fits] that
    by (simp add: expired_timer_def rearms_def)
  then show "due c now s' = due c now s - {t}"
    using eff by (auto simp: due_def leD)
qed

lemma top_not_due:
  assumes wf: "timers_wf s"
  shows "due c now s = {} \<longleftrightarrow>
    (case peek (g_heaps s c) of None \<Rightarrow> True | Some t \<Rightarrow> deadline_of s t > now)"
proof (cases "g_heaps s c = []")
  case False
  then have top: "g_heaps s c ! 0 \<in> set (g_heaps s c)" by simp
  have "deadline_of s (g_heaps s c ! 0) \<le> deadline_of s x" if "x \<in> set (g_heaps s c)" for x
    using heap_order_min [OF timers_wf_heap(1) [OF wf] that] .
  then have "due c now s = {} \<longleftrightarrow> now < deadline_of s (g_heaps s c ! 0)"
    using top unfolding due_def by (force simp: not_le)
  with False show ?thesis by (simp add: peek_def)
qed (simp add: due_def peek_def)

lemma expire_loop_drains:
  assumes q: "quiet fire"
  shows "timers_wf s \<Longrightarrow>
     (\<And>t. t \<in> due c now s \<Longrightarrow> unat now + unat (interval_tod (timers s t)) < 2 ^ 64) \<Longrightarrow>
     \<exists>s'. expire_loop fire c now s = Some s' \<and> timers_wf s' \<and> due c now s' = {}
        \<and> timers s' = (\<lambda>x. if x \<in> due c now s then expired_timer now (timers s x) else timers s x)"
proof (induction "card (due c now s)" arbitrary: s rule: less_induct)
  case less
  show ?case
  proof (cases "due c now s = {}")
    case True
    then have "expire_loop fire c now s = Some s"
      using top_not_due [OF less.prems(1), of c now]
      by (subst expire_loop.simps) (auto split: option.splits)
    with True less.prems(1) show ?thesis by simp
  next
    case False
    then obtain t where top: "peek (g_heaps s c) = Some t" "\<not> deadline_of s t > now"
      using top_not_due [OF less.prems(1), of c now] by (auto split: option.splits)
    then have t: "t \<in> due c now s"
      by (auto simp: due_def peek_Some not_less)
    define s1 where "s1 = requeue c now t (run_callback fire t (unlink_timer c t s))"
    note st = expire_step [OF less.prems(1) q t less.prems(2) [OF t], folded s1_def]
    have "card (due c now s1) < card (due c now s)"
      using st(4) t card_Diff1_less [OF finite_due t] by simp
    moreover have "unat now + unat (interval_tod (timers s1 x)) < 2 ^ 64" if "x \<in> due c now s1" for x
      using less.prems(2) [of x] that st(2,4) by auto
    ultimately obtain s' where s': "expire_loop fire c now s1 = Some s'" "timers_wf s'"
      "due c now s' = {}"
      "timers s' = (\<lambda>x. if x \<in> due c now s1 then expired_timer now (timers s1 x) else timers s1 x)"
      using less.hyps [OF _ st(1)] by blast
    have "expire_loop fire c now s = expire_loop fire c now s1"
      using top by (subst expire_loop.simps) (simp add: s1_def)
    moreover have "timers s' = (\<lambda>x. if x \<in> due c now s then expired_timer now (timers s x) else timers s x)"
      using t by (auto simp: s'(4) st(2,4) fun_eq_iff)
    ultimately show ?thesis using s' by metis
  qed
qed

section \<open>Properties\<close>


text \<open>A CPU with a periodic timer that is due and a one-shot timer that is not.\<close>

definition two_timers :: timer_state where
  "two_timers =
     \<lparr>timers = (\<lambda>t. if t = 1 then \<lparr>deadline_tod = 10, interval_tod = 5, callback = Some 64,
                                   cb_data = None, timer_mode = periodic, armed = True, timer_cpu = 0\<rparr>
                   else if t = 2 then \<lparr>deadline_tod = 20, interval_tod = 0, callback = None,
                                       cb_data = None, timer_mode = oneshot, armed = True, timer_cpu = 0\<rparr>
                   else \<lparr>deadline_tod = 0, interval_tod = 0, callback = None,
                         cb_data = None, timer_mode = oneshot, armed = False, timer_cpu = 0\<rparr>),
      g_heaps = (\<lambda>c. if c = 0 then [1, 2] else []),
      comparator = (\<lambda>_. 10)\<rparr>"

lemma two_timers_wf: "timers_wf two_timers"
  by (auto simp: timers_wf_def two_timers_def heap_order_def TIMER_HEAP_CAPACITY_def
      parent_of_def less_2_cases_iff)

lemma two_timers_due: "due 0 17 two_timers = {1}"
  by (auto simp: due_def two_timers_def)


text \<open>
  C21. Arming a timer succeeds exactly when it is not armed and the heap of the executing
  CPU has room. On success the timer, and it alone, has been added to that heap and marked
  armed; on failure no heap and no comparator has changed. In every case the heaps stay
  well-formed and the comparator stays no later than any deadline of the CPU.
\<close>

theorem timer_add_correct:
  assumes "timers_wf s" "comparator_ok this s" "timer_add this stck t s = (r, s')"
  shows "timers_wf s' \<and> comparator_ok this s'
    \<and> (r = Inr () \<longleftrightarrow> \<not> armed (timers s t) \<and> length (g_heaps s this) < TIMER_HEAP_CAPACITY)
    \<and> (r = Inr () \<longrightarrow> set (g_heaps s' this) = insert t (set (g_heaps s this))
         \<and> timers s' = (timers s)(t := (timers s t)\<lparr>timer_cpu := this, armed := True\<rparr>))
    \<and> (r \<noteq> Inr () \<longrightarrow> g_heaps s' = g_heaps s \<and> comparator s' = comparator s)"
proof (cases r)
  case (Inl e)
  note failed = timer_add_failed [OF assms(3) [unfolded Inl]]
  have "armed (timers s' x) = armed (timers s x)" "deadline_of s' x = deadline_of s x"
    "armed (timers s x) \<Longrightarrow> timer_cpu (timers s' x) = timer_cpu (timers s x)" for x
    using failed by (auto split: if_splits)
  moreover have "g_heaps s' = g_heaps s" "comparator s' = comparator s" using failed by auto
  ultimately have "timers_wf s'" "comparator_ok this s'"
    using assms(1,2) by (auto simp: timers_wf_def comparator_ok_def)
  with failed Inl show ?thesis by auto
next
  case (Inr u)
  then have add: "timer_add this stck t s = (Inr (), s')" using assms(3) by simp
  then have "\<not> armed (timers s t) \<and> length (g_heaps s this) < TIMER_HEAP_CAPACITY"
    by (auto simp: timer_add_def Let_def push_def split: if_splits option.splits)
  with timer_add_wf [OF assms(1) add] Inr assms(2) show ?thesis by simp
qed

theorem timer_add_correct_witness:
  "timers_wf two_timers \<and> comparator_ok 0 two_timers
   \<and> (\<exists>r s'. timer_add 0 0 3 two_timers = (r, s') \<and> r = Inr ()
        \<and> timers_wf s' \<and> comparator_ok 0 s' \<and> set (g_heaps s' 0) = {1, 2, 3})"
proof -
  have ok: "comparator_ok 0 two_timers"
    by (simp add: comparator_ok_def two_timers_def)
  obtain r s' where add: "timer_add 0 0 3 two_timers = (r, s')" by fastforce
  have "\<not> armed (timers two_timers 3)" "g_heaps two_timers 0 = [1, 2]"
    by (simp_all add: two_timers_def)
  then show ?thesis
    using timer_add_correct [OF two_timers_wf ok add] two_timers_wf ok add
    by (auto simp: TIMER_HEAP_CAPACITY_def)
qed

text \<open>
  The timing-alert handler moves the comparator about ten seconds ahead whatever is
  pending, so a pending timer can be slept through: it breaks \<open>comparator_ok\<close>.
\<close>

lemma timing_alert_loses_deadline:
  "comparator_ok 0 two_timers \<and> \<not> comparator_ok 0 (irq_handler_timing_alert 0 0 two_timers)"
  by (simp add: comparator_ok_def irq_handler_timing_alert_def two_timers_def)

end
