(* ===== verification/ZX_Time.thy ===== *)
theory ZX_Time
  imports ZX_Base
begin

text \<open>
  The kernel clocks (\<open>zxfoundation/sys/time.zcomponent\<close>) and the conversions between
  time-of-day clock units and nanoseconds (\<open>time.zcomponent/core.cxxm\<close>,
  \<open>timer.zcomponent/core.cxxm\<close>). A microsecond is 4096 clock units. Every reading of the
  clock (\<open>stck\<close>) is an argument; the sequence lock around the wall offset is erased.
\<close>

section \<open>Operations\<close>

record time_state =
  g_wall_offset :: u64
  g_boot_tod :: u64
  g_tick :: u64

definition duration_from_tod :: "u64 \<Rightarrow> u64" where
  "duration_from_tod tod_units = ucast (drop_bit 9 ((ucast tod_units :: u128) * 125))"

definition ns_to_tod :: "u64 \<Rightarrow> u64" where
  "ns_to_tod ns = ucast ((ucast ns :: u128) * 4096 div 1000)"

definition tod_to_ns :: "u64 \<Rightarrow> u64" where
  "tod_to_ns tod = ucast ((ucast tod :: u128) * 1000 div 4096)"

definition time_initialize :: "u64 \<Rightarrow> time_state \<Rightarrow> time_state" where
  "time_initialize tod_boot s = s\<lparr>g_boot_tod := tod_boot, g_wall_offset := 0\<rparr>"

definition monotonic_now :: "u64 \<Rightarrow> time_state \<Rightarrow> u64" where
  "monotonic_now stck s =
     duration_from_tod (if stck > g_boot_tod s then stck - g_boot_tod s else 0)"

definition realtime_now :: "u64 \<Rightarrow> time_state \<Rightarrow> u64" where
  "realtime_now stck s = duration_from_tod stck + g_wall_offset s"

definition set_realtime :: "u64 \<Rightarrow> u64 \<Rightarrow> time_state \<Rightarrow> unit expected \<times> time_state" where
  "set_realtime stck now s = (Inr (), s\<lparr>g_wall_offset := now - duration_from_tod stck\<rparr>)"

definition tick_advance_wall :: "u64 \<Rightarrow> time_state \<Rightarrow> time_state" where
  "tick_advance_wall tick_ns s =
     s\<lparr>g_tick := g_tick s + 1, g_wall_offset := g_wall_offset s + tick_ns\<rparr>"

definition tick_count :: "time_state \<Rightarrow> u64" where
  "tick_count s = g_tick s"

section \<open>The conversions\<close>

lemma unat_u64_less: "unat (x :: u64) < 2 ^ 64"
  using unsigned_less [of x] by simp

lemma unat_widened_mult:
  assumes "n < 2 ^ 64"
  shows "unat ((ucast (x :: u64) :: u128) * of_nat n) = unat x * n"
proof -
  have "unat x * n < 2 ^ 64 * 2 ^ 64"
    using unat_u64_less [of x] assms by (intro mult_strict_mono) auto
  then have "unat x * n < 2 ^ 128" by simp
  moreover have "n < 2 ^ 128" using assms by simp
  ultimately show ?thesis
    using unat_u64_less [of x]
    by (simp add: unat_word_ariths(2) unsigned_ucast_eq unat_of_nat take_bit_eq_mod)
qed

lemma unat_duration_from_tod: "unat (duration_from_tod t) = unat t * 125 div 512"
proof -
  have m: "unat ((ucast t :: u128) * 125) = unat t * 125"
    using unat_widened_mult [of 125 t] by simp
  have "unat t * 125 div 512 < 2 ^ 64"
    using unat_u64_less [of t] by simp
  then show ?thesis
    by (simp add: duration_from_tod_def unsigned_ucast_eq take_bit_eq_mod drop_bit_eq_div unat_div m)
qed

lemma tod_to_ns_is_duration: "tod_to_ns t = duration_from_tod t"
proof -
  have m: "unat ((ucast t :: u128) * 1000) = unat t * 1000"
    using unat_widened_mult [of 1000 t] by simp
  have "unat t * 1000 div 4096 < 2 ^ 64"
    using unat_u64_less [of t] by simp
  moreover have "unat t * 1000 div 4096 = unat t * 125 div 512" by linarith
  ultimately have "unat (tod_to_ns t) = unat t * 125 div 512"
    by (simp add: tod_to_ns_def unsigned_ucast_eq take_bit_eq_mod unat_div m)
  then show ?thesis
    using unat_duration_from_tod by (simp add: word_unat_eq_iff)
qed

lemma unat_ns_to_tod: "unat (ns_to_tod ns) = (unat ns * 4096 div 1000) mod 2 ^ 64"
proof -
  have "unat ((ucast ns :: u128) * 4096) = unat ns * 4096"
    using unat_widened_mult [of 4096 ns] by simp
  then show ?thesis by (simp add: ns_to_tod_def unsigned_ucast_eq take_bit_eq_mod unat_div)
qed

lemma duration_mono: "a \<le> b \<Longrightarrow> duration_from_tod a \<le> duration_from_tod b"
  by (simp add: word_le_nat_alt unat_duration_from_tod div_le_mono)

section \<open>Properties\<close>



text \<open>
  C37. The monotonic clock never runs backwards as long as the time-of-day clock does not,
  and is zero at boot. A wall-clock setting is read back exactly, and afterwards the wall
  clock advances by the elapsed clock time plus the length of every tick accounted in
  between: elapsed time is counted twice.
\<close>

theorem clocks_advance:
  assumes "t0 \<le> t1"
  shows "monotonic_now t0 s \<le> monotonic_now t1 s
    \<and> monotonic_now (g_boot_tod s) s = 0
    \<and> realtime_now t0 (snd (set_realtime t0 now s)) = now
    \<and> realtime_now t1 ((tick_advance_wall tick_ns ^^ n) (snd (set_realtime t0 now s)))
      = now + (duration_from_tod t1 - duration_from_tod t0) + of_nat n * tick_ns"
proof (intro conjI)
  have "t0 - b \<le> t1 - b" if "b < t0" for b
    using assms that by (simp add: word_le_nat_alt word_less_nat_alt unat_sub)
  then show "monotonic_now t0 s \<le> monotonic_now t1 s"
    unfolding monotonic_now_def using assms
    by (intro duration_mono) (auto dest: order.strict_trans2)
  show "monotonic_now (g_boot_tod s) s = 0"
    by (simp add: monotonic_now_def duration_from_tod_def)
  show "realtime_now t0 (snd (set_realtime t0 now s)) = now"
    by (simp add: realtime_now_def set_realtime_def)
  have off: "g_wall_offset ((tick_advance_wall tick_ns ^^ n) r) = g_wall_offset r + of_nat n * tick_ns" for r
    by (induction n) (simp_all add: tick_advance_wall_def algebra_simps)
  show "realtime_now t1 ((tick_advance_wall tick_ns ^^ n) (snd (set_realtime t0 now s)))
      = now + (duration_from_tod t1 - duration_from_tod t0) + of_nat n * tick_ns"
    by (simp add: realtime_now_def off set_realtime_def algebra_simps)
qed

theorem clocks_advance_witness:
  "realtime_now 40960000
     ((tick_advance_wall 10000000 ^^ 1) (snd (set_realtime 0 5 \<lparr>g_wall_offset = 0, g_boot_tod = 0, g_tick = 0\<rparr>)))
   = 20000005"
proof -
  have "unat (duration_from_tod 40960000) = unat (10000000 :: u64)"
    by (simp add: unat_duration_from_tod)
  then have "duration_from_tod 40960000 = 10000000" by (simp only: word_unat_eq_iff)
  moreover have "duration_from_tod 0 = 0" by (simp add: duration_from_tod_def)
  ultimately show ?thesis
    using clocks_advance [of 0 40960000 "\<lparr>g_wall_offset = 0, g_boot_tod = 0, g_tick = 0\<rparr>" 5 1 10000000]
    by simp
qed

end
