(* ===== verification/ZX_Sched_Budget.thy ===== *)
theory ZX_Sched_Budget
  imports ZX_Timer ZX_Time
begin

text \<open>
  The two runtime budgets of the scheduler: the per-strand constant bandwidth server
  (\<open>zxfoundation/sched/cbs.zcomponent\<close>) and the per-CPU real-time bandwidth controller
  (\<open>zxfoundation/sched/rt.zcomponent/bandwidth.cxx\<close>). The timer a control block embeds is
  the timer at an address of the timer state. Both are budget servers: the locale
  \<open>budget_server\<close> states what the scheduling classes rely on.
\<close>

section \<open>Constant bandwidth server\<close>

definition CBS_PERIOD_DEFAULT_NS :: u64 where "CBS_PERIOD_DEFAULT_NS = 100000000"
definition CBS_RUNTIME_DEFAULT_NS :: u64 where "CBS_RUNTIME_DEFAULT_NS = 10000000"

record cbs_replen =
  cbs_period_ns :: u64
  cbs_runtime_ns :: u64
  used_runtime_ns :: u64
  period_deadline :: u64
  cbs_timer :: addr

definition cbs_init ::
  "cbs_replen \<Rightarrow> 'a timer_state_scheme \<Rightarrow> cbs_replen \<times> 'a timer_state_scheme" where
  "cbs_init c s =
     (c\<lparr>cbs_period_ns := CBS_PERIOD_DEFAULT_NS, cbs_runtime_ns := CBS_RUNTIME_DEFAULT_NS,
        used_runtime_ns := 0, period_deadline := 0\<rparr>,
      set_timer (cbs_timer c)
        \<lparr>deadline_tod = 0, interval_tod = 0, callback = None, cb_data = None,
         timer_mode = oneshot, armed = False, timer_cpu = 0\<rparr> s)"

definition cbs_charge :: "cbs_replen \<Rightarrow> u64 \<Rightarrow> cbs_replen \<times> bool" where
  "cbs_charge c delta_ns =
     (let c' = c\<lparr>used_runtime_ns := used_runtime_ns c + delta_ns\<rparr>
      in (c', used_runtime_ns c' \<ge> cbs_runtime_ns c'))"

definition cbs_replenish :: "u64 \<Rightarrow> cbs_replen \<Rightarrow> cbs_replen" where
  "cbs_replenish now_ns c = c\<lparr>period_deadline := now_ns + cbs_period_ns c, used_runtime_ns := 0\<rparr>"

definition cbs_install_timer ::
  "cbs_replen \<Rightarrow> u16 \<Rightarrow> fnptr \<Rightarrow> addr option \<Rightarrow> 'a timer_state_scheme \<Rightarrow> 'a timer_state_scheme" where
  "cbs_install_timer c cpu cb data s =
     set_timer (cbs_timer c)
       \<lparr>deadline_tod = period_deadline c, interval_tod = cbs_period_ns c, callback = Some cb,
        cb_data = data, timer_mode = oneshot, armed = True, timer_cpu = cpu\<rparr> s"

definition cbs_cancel_timer ::
  "u16 \<Rightarrow> u64 \<Rightarrow> cbs_replen \<Rightarrow> 'a timer_state_scheme \<Rightarrow> 'a timer_state_scheme" where
  "cbs_cancel_timer this_cpu stck c s =
     (if armed (timers s (cbs_timer c)) then
        let s1 = snd (timer_cancel this_cpu stck (cbs_timer c) s)
        in set_timer (cbs_timer c) ((timers s1 (cbs_timer c))\<lparr>armed := False\<rparr>) s1
      else s)"

section \<open>Real-time bandwidth\<close>

definition RT_PERIOD_DEFAULT_NS :: u64 where "RT_PERIOD_DEFAULT_NS = 1000000000"
definition RT_RUNTIME_DEFAULT_NS :: u64 where "RT_RUNTIME_DEFAULT_NS = 950000000"

record rt_bandwidth =
  bw_period_ns :: u64
  bw_runtime_ns :: u64
  bw_time_ns :: u64
  bw_period_start_ns :: u64
  bw_timer :: addr
  rt_throttled :: bool

definition bw_replenish :: "rt_bandwidth \<Rightarrow> rt_bandwidth" where
  "bw_replenish bw = bw\<lparr>bw_time_ns := 0, rt_throttled := False\<rparr>"

text \<open>
  \<open>replenish_cb\<close> is the address of the callback that replenishes the block, \<open>self\<close> the
  address of the block, and \<open>add_tod\<close> the clock reading of \<open>timer_add\<close>.
\<close>

definition bw_init ::
  "fnptr \<Rightarrow> addr \<Rightarrow> u16 \<Rightarrow> u64 \<Rightarrow> u64 \<Rightarrow> u64 \<Rightarrow> u16 \<Rightarrow> rt_bandwidth \<Rightarrow> 'a timer_state_scheme \<Rightarrow>
   rt_bandwidth \<times> 'a timer_state_scheme" where
  "bw_init replenish_cb self this_cpu now_ns stck add_tod cpu bw s =
     (let bw' = bw\<lparr>bw_period_ns := RT_PERIOD_DEFAULT_NS, bw_runtime_ns := RT_RUNTIME_DEFAULT_NS,
                   bw_time_ns := 0, bw_period_start_ns := now_ns, rt_throttled := False\<rparr>;
          s1 = set_timer (bw_timer bw)
                 \<lparr>deadline_tod = stck + ns_to_tod RT_PERIOD_DEFAULT_NS,
                  interval_tod = ns_to_tod RT_PERIOD_DEFAULT_NS, callback = Some replenish_cb,
                  cb_data = Some self, timer_mode = periodic, armed = False, timer_cpu = cpu\<rparr> s
      in (bw', snd (timer_add this_cpu add_tod (bw_timer bw) s1)))"

definition bw_charge :: "rt_bandwidth \<Rightarrow> u64 \<Rightarrow> rt_bandwidth \<times> bool" where
  "bw_charge bw consumed_ns =
     (let bw1 = bw\<lparr>bw_time_ns := bw_time_ns bw + consumed_ns\<rparr>
      in if bw_time_ns bw1 \<ge> bw_runtime_ns bw1 then (bw1\<lparr>rt_throttled := True\<rparr>, True)
         else (bw1, False))"

section \<open>Budget servers\<close>

locale budget_server =
  fixes charge :: "'s \<Rightarrow> u64 \<Rightarrow> 's \<times> bool" and replenish :: "'s \<Rightarrow> 's"
    and used :: "'s \<Rightarrow> u64" and runtime :: "'s \<Rightarrow> u64"
  assumes used_charge: "used (fst (charge s d)) = used s + d"
    and verdict: "snd (charge s d) \<longleftrightarrow> runtime s \<le> used s + d"
    and runtime_charge: "runtime (fst (charge s d)) = runtime s"
    and used_replenish: "used (replenish s) = 0"
    and runtime_replenish: "runtime (replenish s) = runtime s"
begin

abbreviation charges :: "u64 list \<Rightarrow> 's \<Rightarrow> 's" where
  "charges \<equiv> fold (\<lambda>d s. fst (charge s d))"

lemma charges_add:
  "unat (used s) + sum_list (map unat ds) < 2 ^ 64 \<Longrightarrow>
     unat (used (charges ds s)) = unat (used s) + sum_list (map unat ds)
     \<and> runtime (charges ds s) = runtime s"
proof (induction ds arbitrary: s)
  case (Cons d ds)
  have "unat (used s + d) = unat (used s) + unat d"
    using Cons.prems by (simp add: unat_word_ariths(1))
  then show ?case
    using Cons.IH [of "fst (charge s d)"] Cons.prems by (simp add: used_charge runtime_charge)
qed simp

text \<open>Within a period the budget is exhausted exactly when the charges reach the runtime.\<close>

lemma exhausted_iff:
  assumes "sum_list (map unat ds) + unat d < 2 ^ 64"
  shows "snd (charge (charges ds (replenish s)) d) \<longleftrightarrow>
    unat (runtime s) \<le> sum_list (map unat ds) + unat d"
proof -
  let ?r = "charges ds (replenish s)"
  have r: "unat (used ?r) = sum_list (map unat ds)" "runtime ?r = runtime s"
    using charges_add [of "replenish s" ds] assms by (simp_all add: used_replenish runtime_replenish)
  have "unat (used ?r + d) = sum_list (map unat ds) + unat d"
    using assms r(1) by (simp add: unat_word_ariths(1))
  then show ?thesis by (simp add: verdict r(2) word_le_nat_alt)
qed

end

interpretation cbs: budget_server cbs_charge "cbs_replenish now" used_runtime_ns cbs_runtime_ns for now
  by unfold_locales (simp_all add: cbs_charge_def cbs_replenish_def Let_def)

interpretation bw: budget_server bw_charge bw_replenish bw_time_ns bw_runtime_ns
  by unfold_locales (simp_all add: bw_charge_def bw_replenish_def Let_def)

lemma bw_charge_fields:
  "rt_throttled (fst (bw_charge b d)) \<longleftrightarrow> rt_throttled b \<or> snd (bw_charge b d)"
  by (simp add: bw_charge_def Let_def)

lemma throttled_once_exhausted:
  "unat (bw_time_ns b) + sum_list (map unat ds) < 2 ^ 64 \<Longrightarrow>
   (rt_throttled b \<longrightarrow> bw_runtime_ns b \<le> bw_time_ns b) \<Longrightarrow> ds \<noteq> [] \<Longrightarrow>
   rt_throttled (fold (\<lambda>d b. fst (bw_charge b d)) ds b) \<longleftrightarrow>
     unat (bw_runtime_ns b) \<le> unat (bw_time_ns b) + sum_list (map unat ds)"
proof (induction ds arbitrary: b)
  case (Cons d ds)
  let ?b = "fst (bw_charge b d)"
  have add: "unat (bw_time_ns b + d) = unat (bw_time_ns b) + unat d"
    using Cons.prems(1) by (simp add: unat_word_ariths(1))
  have thr: "rt_throttled ?b \<longleftrightarrow> unat (bw_runtime_ns b) \<le> unat (bw_time_ns b) + unat d"
    using Cons.prems(2) add by (auto simp: bw_charge_fields bw.verdict word_le_nat_alt)
  show ?case
  proof (cases "ds = []")
    case False
    then show ?thesis
      using Cons.IH [of ?b] Cons.prems(1) thr add
      by (simp add: bw.used_charge bw.runtime_charge word_le_nat_alt add.assoc)
  qed (use thr in simp)
qed simp

section \<open>Properties\<close>

text \<open>
  C35. Both budgets are enforced to the nanosecond. Whatever charges are made after a
  replenishment, as long as their total is representable, the next charge reports
  exhaustion exactly when the total including it has reached the runtime of the period;
  and the real-time controller of a CPU is throttled exactly from that moment until the
  next replenishment.
\<close>

theorem budgets_enforced:
  assumes "sum_list (map unat ds) + unat d < 2 ^ 64"
  shows "(snd (cbs_charge (fold (\<lambda>d c. fst (cbs_charge c d)) ds (cbs_replenish now c)) d) \<longleftrightarrow>
            unat (cbs_runtime_ns c) \<le> sum_list (map unat ds) + unat d)
    \<and> (snd (bw_charge (fold (\<lambda>d b. fst (bw_charge b d)) ds (bw_replenish b)) d) \<longleftrightarrow>
            unat (bw_runtime_ns b) \<le> sum_list (map unat ds) + unat d)
    \<and> (rt_throttled (fold (\<lambda>d b. fst (bw_charge b d)) (ds @ [d]) (bw_replenish b)) \<longleftrightarrow>
            unat (bw_runtime_ns b) \<le> sum_list (map unat ds) + unat d)
    \<and> \<not> rt_throttled (bw_replenish b)"
  using cbs.exhausted_iff [OF assms, of now c] bw.exhausted_iff [OF assms, of b]
    throttled_once_exhausted [of "bw_replenish b" "ds @ [d]"] assms
  by (simp add: bw_replenish_def)

theorem budgets_enforced_witness:
  "snd (cbs_charge (fold (\<lambda>d c. fst (cbs_charge c d)) [6000000]
     (cbs_replenish 0 \<lparr>cbs_period_ns = 100000000, cbs_runtime_ns = 10000000,
                       used_runtime_ns = 9000000, period_deadline = 0, cbs_timer = 64\<rparr>)) 4000000)
   \<and> \<not> snd (bw_charge (fold (\<lambda>d b. fst (bw_charge b d)) [6000000]
     (bw_replenish \<lparr>bw_period_ns = 1000000000, bw_runtime_ns = 950000000, bw_time_ns = 5,
                    bw_period_start_ns = 0, bw_timer = 64, rt_throttled = True\<rparr>)) 4000000)"
  using budgets_enforced [of "[6000000]" 4000000 0
      "\<lparr>cbs_period_ns = 100000000, cbs_runtime_ns = 10000000,
        used_runtime_ns = 9000000, period_deadline = 0, cbs_timer = 64\<rparr>"
      "\<lparr>bw_period_ns = 1000000000, bw_runtime_ns = 950000000, bw_time_ns = 5,
        bw_period_start_ns = 0, bw_timer = 64, rt_throttled = True\<rparr>"]
  by simp

text \<open>
  The controller arms a periodic timer of one period: after \<open>bw_init\<close> on a timer that is
  in no heap, the timer is armed on the executing CPU and its first expiry lies one period
  after the clock reading.
\<close>

lemma bw_init_arms:
  assumes wf: "timers_wf s" and un: "\<not> armed (timers s (bw_timer b))"
    and room: "length (g_heaps s this_cpu) < TIMER_HEAP_CAPACITY"
    and init: "bw_init cb self this_cpu now stck tod cpu b s = (b', s')"
  shows "timers_wf s' \<and> bw_timer b \<in> set (g_heaps s' this_cpu)
    \<and> deadline_of s' (bw_timer b) = stck + ns_to_tod RT_PERIOD_DEFAULT_NS
    \<and> rearms (timers s' (bw_timer b)) \<and> \<not> rt_throttled b' \<and> bw_time_ns b' = 0"
proof -
  let ?t = "bw_timer b"
  let ?v = "\<lparr>deadline_tod = stck + ns_to_tod RT_PERIOD_DEFAULT_NS,
             interval_tod = ns_to_tod RT_PERIOD_DEFAULT_NS, callback = Some cb,
             cb_data = Some self, timer_mode = periodic, armed = False, timer_cpu = cpu\<rparr>"
  define s1 where "s1 = set_timer ?t ?v s"
  have notin: "?t \<notin> set (g_heaps s c)" for c
    using timers_wf_heap(4) [OF wf] un by simp
  have "heap_order (deadline_of s1) (g_heaps s c) = heap_order (deadline_of s) (g_heaps s c)" for c
    using notin [of c] by (intro heap_order_cong) (auto simp: s1_def)
  then have wf1: "timers_wf s1"
    using wf un by (auto simp: timers_wf_def s1_def)
  obtain r s2 where add: "timer_add this_cpu tod ?t s1 = (r, s2)" by fastforce
  have "r = Inr ()"
    using add room by (auto simp: timer_add_def Let_def s1_def push_def split: if_splits option.splits)
  then have ok: "timer_add this_cpu tod ?t s1 = (Inr (), s2)" using add by simp
  have s': "s' = s2" "b' = b\<lparr>bw_period_ns := RT_PERIOD_DEFAULT_NS, bw_runtime_ns := RT_RUNTIME_DEFAULT_NS,
                   bw_time_ns := 0, bw_period_start_ns := now, rt_throttled := False\<rparr>"
    using init ok by (auto simp: bw_init_def Let_def s1_def)
  have "ns_to_tod RT_PERIOD_DEFAULT_NS > 0"
    by (simp add: word_less_nat_alt unat_ns_to_tod RT_PERIOD_DEFAULT_NS_def)
  then show ?thesis
    using timer_add_wf [OF wf1 ok] by (simp add: s' s1_def rearms_def)
qed

end
