(* ===== verification/ZX_Sched_Topology.thy ===== *)
theory ZX_Sched_Topology
  imports ZX_Sched_Index
begin

text \<open>
  The scheduler's view of the CPU topology (\<open>zxfoundation/sched/topology.zcomponent\<close>): one
  record per logical CPU, filled from the per-CPU evidence of the loader, and the masks of
  the online CPUs, of the online CPUs of a NUMA node, and of the online siblings of a core.
  \<open>n\<close> is the configured number of CPUs, at most \<open>2 ^ 16\<close>; a CPU identifier of the code is
  a \<open>u16\<close>, and inside the loops its value as a natural number. The memory orders of the
  mask operations are erased.
\<close>

section \<open>State\<close>

datatype topology_evidence = te_absent | te_loader | te_loader_stsi | te_kernel_stsi | te_verified | te_degraded

datatype cpu_relation =
  rel_self | same_smt_core | same_core_group | same_numa_node | remote_numa_node | rel_unavailable

datatype cpu_scheduling_state = cs_offline | cs_online | cs_draining | cs_isolated

record cpu_topology_record =
  tr_cpu_id :: u16
  tr_cpu_addr :: u16
  numa_node :: u8
  drawer_id :: u8
  core_id :: u8
  smt_id :: u8
  cpu_type :: u8
  capacity :: u8
  run_queue_load :: u32
  fair_load :: u32
  rt_load :: u32
  deadline_load :: u32
  balance_interval_ns :: u32
  last_balance_tick :: u32
  cpu_evidence :: topology_evidence
  core_evidence :: topology_evidence
  smt_evidence :: topology_evidence
  capacity_evidence :: topology_evidence
  raw_evidence_flags :: u8
  cpu_state :: cpu_scheduling_state

text \<open>The fields of the per-CPU data the topology reads.\<close>

record percpu_data =
  pc_cpu_addr :: u16
  pc_drawer_id :: u8
  pc_cpu_type :: u8
  pc_core_id :: u8
  pc_smt_id :: u8
  pc_topology_evidence :: u8
  pc_capacity :: u8
  attached_domain_id :: u32

record topology_state =
  g_cpu_records :: "cpu_topology_record list"
  g_node_masks :: "cpumask list"
  g_core_siblings :: "cpumask list"
  g_remote_mask :: cpumask
  cpu_percpu :: "nat \<Rightarrow> percpu_data option"

definition MAX_NUMA_NODES :: u8 where "MAX_NUMA_NODES = 16"

section \<open>Records\<close>

definition state_from_online :: "bool \<Rightarrow> cpu_scheduling_state" where
  "state_from_online online = (if online then cs_online else cs_offline)"

definition topo_has_flag :: "u8 \<Rightarrow> u8 \<Rightarrow> bool" where
  "topo_has_flag flags flag \<longleftrightarrow> flags AND flag \<noteq> 0"

definition cpu_evidence_from_flags :: "u8 \<Rightarrow> topology_evidence" where
  "cpu_evidence_from_flags flags =
     (if topo_has_flag flags 0x04 then te_degraded
      else if topo_has_flag flags 0x02 then te_loader_stsi
      else if topo_has_flag flags 0x01 then te_loader
      else te_absent)"

definition stsi_or_degraded_from_flags :: "u8 \<Rightarrow> topology_evidence" where
  "stsi_or_degraded_from_flags flags =
     (if topo_has_flag flags 0x02 then te_loader_stsi
      else if topo_has_flag flags 0x04 then te_degraded
      else te_absent)"

definition capacity_from_type :: "u8 \<Rightarrow> u8" where
  "capacity_from_type t =
     (if t = 1 \<or> t = 2 then 100 else if t = 4 \<or> t = 5 then 90 else if t = 3 then 80 else 100)"

definition apply_percpu_evidence ::
  "percpu_data option \<Rightarrow> cpu_topology_record \<Rightarrow> cpu_topology_record" where
  "apply_percpu_evidence pcp r =
     (case pcp of
        None \<Rightarrow> r
      | Some p \<Rightarrow>
          let fl = pc_topology_evidence p;
              r1 = r\<lparr>tr_cpu_addr := pc_cpu_addr p, drawer_id := pc_drawer_id p,
                     numa_node := pc_drawer_id p, cpu_type := pc_cpu_type p,
                     core_id := pc_core_id p, smt_id := pc_smt_id p, raw_evidence_flags := fl,
                     cpu_evidence := cpu_evidence_from_flags fl,
                     core_evidence := stsi_or_degraded_from_flags fl,
                     smt_evidence := stsi_or_degraded_from_flags fl,
                     capacity := (if pc_capacity p = 0 then capacity_from_type (pc_cpu_type p)
                                  else pc_capacity p),
                     capacity_evidence := (if pc_capacity p = 0 then te_degraded
                                           else cpu_evidence_from_flags fl)\<rparr>
          in if core_evidence r1 = te_absent
             then r1\<lparr>core_id := ucast (tr_cpu_id r1 AND 0xFF), smt_id := 0,
                     core_evidence := te_degraded, smt_evidence := te_degraded\<rparr>
             else r1)"

definition initial_record :: "nat \<Rightarrow> cpu_topology_record" where
  "initial_record i =
     \<lparr>tr_cpu_id = of_nat i, tr_cpu_addr = of_nat i, numa_node = 0, drawer_id = 0,
      core_id = of_nat i AND 0xFF, smt_id = 0, cpu_type = 0, capacity = 100,
      run_queue_load = 0, fair_load = 0, rt_load = 0, deadline_load = 0,
      balance_interval_ns = 1000000, last_balance_tick = 0,
      cpu_evidence = te_degraded, core_evidence = te_degraded, smt_evidence = te_degraded,
      capacity_evidence = te_degraded, raw_evidence_flags = 0, cpu_state = cs_offline\<rparr>"

definition topology_init :: "nat \<Rightarrow> topology_state \<Rightarrow> topology_state" where
  "topology_init n s =
     (let rs = map initial_record [0..<n]
      in s\<lparr>g_cpu_records := rs[0 := apply_percpu_evidence (cpu_percpu s 0) (rs ! 0)]\<rparr>)"

definition refresh_cpu_record :: "nat \<Rightarrow> u16 \<Rightarrow> u32 \<Rightarrow> bool \<Rightarrow> topology_state \<Rightarrow> topology_state" where
  "refresh_cpu_record n cpu_id load online s =
     (let c = unat cpu_id in
      if c \<ge> n then s
      else
        let r = (g_cpu_records s ! c)
                  \<lparr>tr_cpu_id := cpu_id, run_queue_load := load, fair_load := load,
                   cpu_state := state_from_online online\<rparr>
        in s\<lparr>g_cpu_records := (g_cpu_records s)[c := apply_percpu_evidence (cpu_percpu s c) r]\<rparr>)"

definition refresh_class_load ::
  "nat \<Rightarrow> u16 \<Rightarrow> u32 \<Rightarrow> u32 \<Rightarrow> u32 \<Rightarrow> topology_state \<Rightarrow> topology_state" where
  "refresh_class_load n cpu_id fair rt dl s =
     (let c = unat cpu_id in
      if c \<ge> n then s
      else s\<lparr>g_cpu_records := (g_cpu_records s)[c := (g_cpu_records s ! c)
               \<lparr>fair_load := fair, rt_load := rt, deadline_load := dl,
                run_queue_load := fair + rt + dl\<rparr>]\<rparr>)"

definition record_for :: "nat \<Rightarrow> topology_state \<Rightarrow> nat \<Rightarrow> cpu_topology_record option" where
  "record_for n s c = (if c \<ge> n then None else Some (g_cpu_records s ! c))"

definition node_mask_of :: "topology_state \<Rightarrow> u8 \<Rightarrow> cpumask" where
  "node_mask_of s node =
     (if node \<ge> MAX_NUMA_NODES then replicate (length (g_remote_mask s)) False
      else g_node_masks s ! unat node)"

definition relation_between :: "nat \<Rightarrow> topology_state \<Rightarrow> u16 \<Rightarrow> u16 \<Rightarrow> cpu_relation" where
  "relation_between n s from_cpu to_cpu =
     (case (record_for n s (unat from_cpu), record_for n s (unat to_cpu)) of
        (Some f, Some t) \<Rightarrow>
          let core_verified = core_evidence f \<noteq> te_degraded \<and> core_evidence t \<noteq> te_degraded;
              smt_verified = smt_evidence f \<noteq> te_degraded \<and> smt_evidence t \<noteq> te_degraded
          in if cpu_state t \<noteq> cs_online then rel_unavailable
             else if from_cpu = to_cpu then rel_self
             else if core_verified \<and> smt_verified \<and> core_id f = core_id t \<and> smt_id f \<noteq> smt_id t
               then same_smt_core
             else if core_verified \<and> core_id f = core_id t then same_core_group
             else if numa_node f = numa_node t then same_numa_node
             else remote_numa_node
      | _ \<Rightarrow> rel_unavailable)"

section \<open>Online masks\<close>

definition cm_bits :: "cpumask \<Rightarrow> nat list" where
  "cm_bits m = filter (cm_test m) [0..<length m]"

definition link_siblings :: "nat \<Rightarrow> nat \<Rightarrow> cpumask list \<Rightarrow> cpumask list" where
  "link_siblings c y sib =
     (let s1 = sib[c := cm_set y (sib ! c)] in s1[y := cm_set c (s1 ! y)])"

definition topology_online_cpu :: "nat \<Rightarrow> u16 \<Rightarrow> topology_state \<Rightarrow> topology_state" where
  "topology_online_cpu n cpu_id s =
     (let c = unat cpu_id in
      case record_for n s c of
        None \<Rightarrow> s
      | Some r \<Rightarrow>
          let node = numa_node r;
              core_verified = core_evidence r \<noteq> te_degraded;
              sibling = (\<lambda>y. y \<noteq> c \<and>
                 (case record_for n s y of
                    None \<Rightarrow> False
                  | Some yr \<Rightarrow> core_evidence yr \<noteq> te_degraded \<and> core_id yr = core_id r));
              s1 = (if core_verified \<and> node < MAX_NUMA_NODES
                    then s\<lparr>g_core_siblings :=
                             fold (link_siblings c) (filter sibling (cm_bits (g_node_masks s ! unat node)))
                               (g_core_siblings s)\<rparr>
                    else s);
              s2 = (if node < MAX_NUMA_NODES
                    then s1\<lparr>g_node_masks := (g_node_masks s1)[unat node := cm_set c (g_node_masks s1 ! unat node)]\<rparr>
                    else s1)
          in s2\<lparr>g_remote_mask := cm_set c (g_remote_mask s2)\<rparr>)"

definition unlink_sibling :: "nat \<Rightarrow> nat \<Rightarrow> cpumask list \<Rightarrow> cpumask list" where
  "unlink_sibling c y sib = sib[y := cm_clear c (sib ! y)]"

definition topology_offline_cpu :: "nat \<Rightarrow> u16 \<Rightarrow> topology_state \<Rightarrow> topology_state" where
  "topology_offline_cpu n cpu_id s =
     (let c = unat cpu_id in
      if c \<ge> n then s
      else
        let node = (case record_for n s c of Some r \<Rightarrow> numa_node r | None \<Rightarrow> 0xFF);
            s1 = (if node < MAX_NUMA_NODES
                  then s\<lparr>g_node_masks := (g_node_masks s)[unat node := cm_clear c (g_node_masks s ! unat node)]\<rparr>
                  else s);
            sib = fold (unlink_sibling c) (cm_bits (g_core_siblings s1 ! c)) (g_core_siblings s1);
            s2 = s1\<lparr>g_core_siblings := sib[c := replicate (length (sib ! c)) False]\<rparr>
        in s2\<lparr>g_remote_mask := cm_clear c (g_remote_mask s2)\<rparr>)"

definition steal_candidates :: "nat \<Rightarrow> topology_state \<Rightarrow> nat \<Rightarrow> cpu_relation \<Rightarrow> nat list" where
  "steal_candidates n s local_cpu tier =
     (if tier = same_smt_core \<or> tier = same_core_group then
        (if local_cpu < n then cm_bits (g_core_siblings s ! local_cpu) else [])
      else if tier = same_numa_node then
        let node = (case record_for n s local_cpu of Some r \<Rightarrow> numa_node r | None \<Rightarrow> 0xFF)
        in if node < MAX_NUMA_NODES then cm_bits (g_node_masks s ! unat node) else []
      else cm_bits (g_remote_mask s))"

section \<open>The masks and the set of online CPUs\<close>

text \<open>
  \<open>core_mates n s a b\<close>: what the records say of two CPUs. \<open>masks_match n s S\<close>: the masks are
  the ones of the set \<open>S\<close> of online CPUs.
\<close>

definition on_node :: "topology_state \<Rightarrow> nat \<Rightarrow> nat \<Rightarrow> bool" where
  "on_node s k c \<longleftrightarrow> unat (numa_node (g_cpu_records s ! c)) = k"

definition core_mates :: "topology_state \<Rightarrow> nat \<Rightarrow> nat \<Rightarrow> bool" where
  "core_mates s a b \<longleftrightarrow>
     a \<noteq> b
     \<and> numa_node (g_cpu_records s ! a) = numa_node (g_cpu_records s ! b)
     \<and> numa_node (g_cpu_records s ! a) < MAX_NUMA_NODES
     \<and> core_evidence (g_cpu_records s ! a) \<noteq> te_degraded
     \<and> core_evidence (g_cpu_records s ! b) \<noteq> te_degraded
     \<and> core_id (g_cpu_records s ! a) = core_id (g_cpu_records s ! b)"

definition masks_wf :: "nat \<Rightarrow> topology_state \<Rightarrow> bool" where
  "masks_wf n s \<longleftrightarrow>
     length (g_node_masks s) \<ge> 16 \<and> (\<forall>m \<in> set (g_node_masks s). length m = n)
     \<and> length (g_core_siblings s) = n \<and> (\<forall>m \<in> set (g_core_siblings s). length m = n)
     \<and> length (g_remote_mask s) = n"

definition masks_match :: "nat \<Rightarrow> topology_state \<Rightarrow> nat set \<Rightarrow> bool" where
  "masks_match n s S \<longleftrightarrow>
     masks_wf n s \<and> S \<subseteq> {..<n}
     \<and> (\<forall>c. cm_test (g_remote_mask s) c \<longleftrightarrow> c \<in> S)
     \<and> (\<forall>k < 16. \<forall>c. cm_test (g_node_masks s ! k) c \<longleftrightarrow> c \<in> S \<and> on_node s k c)
     \<and> (\<forall>a < n. \<forall>b. cm_test (g_core_siblings s ! a) b \<longleftrightarrow> a \<in> S \<and> b \<in> S \<and> core_mates s a b)"

lemma core_mates_sym: "core_mates s a b \<longleftrightarrow> core_mates s b a"
  by (auto simp: core_mates_def)

lemma cm_test_less: "cm_test m c \<Longrightarrow> c < length m"
  by (simp add: cm_test_def)

lemma set_cm_bits [simp]: "set (cm_bits m) = {c. cm_test m c}"
  by (auto simp: cm_bits_def cm_test_def)

lemma masks_wf_lengths:
  assumes "masks_wf n s"
  shows "k < 16 \<Longrightarrow> length (g_node_masks s ! k) = n"
    "a < n \<Longrightarrow> length (g_core_siblings s ! a) = n"
  using assms by (auto simp: masks_wf_def)

lemma link_siblings_fold:
  assumes "length sib = n" "\<forall>a < n. length (sib ! a) = n" "c < n" "\<forall>y \<in> set ys. y < n \<and> y \<noteq> c"
  shows "length (fold (link_siblings c) ys sib) = n
    \<and> (\<forall>a < n. length (fold (link_siblings c) ys sib ! a) = n)
    \<and> (\<forall>a < n. \<forall>b. cm_test (fold (link_siblings c) ys sib ! a) b \<longleftrightarrow>
         cm_test (sib ! a) b \<or> a = c \<and> b \<in> set ys \<or> b = c \<and> a \<in> set ys)"
  using assms
proof (induction ys arbitrary: sib)
  case (Cons y ys)
  have y: "y < n" "y \<noteq> c" using Cons.prems(4) by auto
  let ?s = "link_siblings c y sib"
  have nth: "?s ! a = (if a = c then cm_set y (sib ! c) else if a = y then cm_set c (sib ! y) else sib ! a)"
    if "a < n" for a
    using that y Cons.prems by (simp add: link_siblings_def Let_def nth_list_update)
  have len: "length ?s = n" "\<forall>a < n. length (?s ! a) = n"
    using Cons.prems nth by (simp_all add: link_siblings_def Let_def)
  have test: "cm_test (?s ! a) b \<longleftrightarrow> cm_test (sib ! a) b \<or> a = c \<and> b = y \<or> b = c \<and> a = y"
    if "a < n" for a b
    using that y Cons.prems nth by (auto dest: cm_test_less)
  show ?case
    using Cons.IH [OF len Cons.prems(3)] Cons.prems(4) test by auto
qed simp

lemma unlink_siblings_fold:
  assumes "length sib = n" "\<forall>a < n. length (sib ! a) = n" "\<forall>y \<in> set ys. y < n"
  shows "length (fold (unlink_sibling c) ys sib) = n
    \<and> (\<forall>a < n. length (fold (unlink_sibling c) ys sib ! a) = n)
    \<and> (\<forall>a < n. \<forall>b. cm_test (fold (unlink_sibling c) ys sib ! a) b \<longleftrightarrow>
         cm_test (sib ! a) b \<and> \<not> (b = c \<and> a \<in> set ys))"
  using assms
proof (induction ys arbitrary: sib)
  case (Cons y ys)
  have y: "y < n" using Cons.prems(3) by auto
  let ?s = "unlink_sibling c y sib"
  have nth: "?s ! a = (if a = y then cm_clear c (sib ! y) else sib ! a)" if "a < n" for a
    using that y Cons.prems(1) by (simp add: unlink_sibling_def nth_list_update)
  have len: "length ?s = n" "\<forall>a < n. length (?s ! a) = n"
    using Cons.prems nth by (simp_all add: unlink_sibling_def)
  have test: "cm_test (?s ! a) b \<longleftrightarrow> cm_test (sib ! a) b \<and> \<not> (b = c \<and> a = y)" if "a < n" for a b
    using that nth by auto
  show ?case
    using Cons.IH [OF len] Cons.prems(3) test by auto
qed simp

lemma cm_test_replicate [simp]: "\<not> cm_test (replicate k False) c"
  by (simp add: cm_test_def)

lemma node_index: "node < MAX_NUMA_NODES \<longleftrightarrow> unat node < 16"
  by (simp add: word_less_nat_alt MAX_NUMA_NODES_def)

text \<open>Linking a CPU to its mates extends a mate relation restricted to \<open>S\<close> by the CPU.\<close>

lemma siblings_after_online:
  assumes lens: "length sib = n" "\<forall>a < n. length (sib ! a) = n" and c: "c < n" and S: "S \<subseteq> {..<n}"
    and old: "\<forall>a < n. \<forall>b. cm_test (sib ! a) b \<longleftrightarrow> a \<in> S \<and> b \<in> S \<and> R a b"
    and R: "\<And>a b. R a b \<longleftrightarrow> R b a" "\<And>a. \<not> R a a"
    and ys: "\<And>y. y \<in> set ys \<longleftrightarrow> y \<in> S \<and> R c y"
  defines "sib' \<equiv> fold (link_siblings c) ys sib"
  shows "length sib' = n" "\<forall>m \<in> set sib'. length m = n"
    "\<forall>a < n. \<forall>b. cm_test (sib' ! a) b \<longleftrightarrow> a \<in> insert c S \<and> b \<in> insert c S \<and> R a b"
proof -
  have "y < n \<and> y \<noteq> c" if "y \<in> set ys" for y
    using that ys [of y] S R(2) by auto
  then have fold: "length sib' = n" "\<forall>a < n. length (sib' ! a) = n"
    "\<And>a b. a < n \<Longrightarrow> cm_test (sib' ! a) b \<longleftrightarrow>
       cm_test (sib ! a) b \<or> a = c \<and> b \<in> set ys \<or> b = c \<and> a \<in> set ys"
    using link_siblings_fold [OF lens c, of ys] unfolding sib'_def by simp_all
  show "length sib' = n" by (rule fold(1))
  show "\<forall>m \<in> set sib'. length m = n"
    using fold(1,2) by (metis in_set_conv_nth)
  show "\<forall>a < n. \<forall>b. cm_test (sib' ! a) b \<longleftrightarrow> a \<in> insert c S \<and> b \<in> insert c S \<and> R a b"
  proof (intro allI impI)
    fix a b assume a: "a < n"
    have o: "cm_test (sib ! a) b \<longleftrightarrow> a \<in> S \<and> b \<in> S \<and> R a b" using old a by simp
    show "cm_test (sib' ! a) b \<longleftrightarrow> a \<in> insert c S \<and> b \<in> insert c S \<and> R a b"
      unfolding fold(3) [OF a] o ys using R(1) [of a c] R(2) [of c] by (cases "a = c"; cases "b = c") auto
  qed
qed

text \<open>The node masks stay exact when the mask of the node of one CPU follows the set.\<close>

definition nodes_match :: "nat \<Rightarrow> topology_state \<Rightarrow> cpumask list \<Rightarrow> nat set \<Rightarrow> bool" where
  "nodes_match n s ms S \<longleftrightarrow>
     length ms \<ge> 16 \<and> (\<forall>m \<in> set ms. length m = n)
     \<and> (\<forall>k < 16. \<forall>c. cm_test (ms ! k) c \<longleftrightarrow> c \<in> S \<and> on_node s k c)"

lemma nodes_match_update:
  assumes nm: "nodes_match n s ms S" and len: "\<And>m. length (f m) = length m"
    and S: "\<And>b. b \<noteq> c \<Longrightarrow> b \<in> S' \<longleftrightarrow> b \<in> S"
    and f: "\<And>m b. length m = n \<Longrightarrow> cm_test (f m) b \<longleftrightarrow> (if b = c then b \<in> S' else cm_test m b)"
  defines "j \<equiv> unat (numa_node (g_cpu_records s ! c))"
  shows "nodes_match n s (if j < 16 then ms[j := f (ms ! j)] else ms) S'"
proof -
  have lens: "length ms \<ge> 16" "\<forall>m \<in> set ms. length m = n" using nm by (simp_all add: nodes_match_def)
  have o: "cm_test (ms ! k) b \<longleftrightarrow> b \<in> S \<and> on_node s k b" if "k < 16" for k b
    using nm that by (simp add: nodes_match_def)
  have here: "on_node s k c \<longleftrightarrow> k = j" for k by (auto simp: on_node_def j_def)
  have other: "b \<in> S' \<and> on_node s k b \<longleftrightarrow> b \<in> S \<and> on_node s k b" if "k \<noteq> j" for k b
    using here [of k] that S [of b] by (cases "b = c") auto
  show ?thesis
  proof (cases "j < 16")
    case True
    have mj: "length (ms ! j) = n" using lens True by simp
    have at_j: "cm_test (f (ms ! j)) b \<longleftrightarrow> b \<in> S' \<and> on_node s j b" for b
      using f [OF mj, of b] o [OF True, of b] S [of b] here [of j] by (cases "b = c") auto
    have "cm_test (ms[j := f (ms ! j)] ! k) b \<longleftrightarrow> b \<in> S' \<and> on_node s k b" if "k < 16" for k b
      using that o [OF that, of b] other [of k b] at_j [of b] lens(1) by (cases "k = j") simp_all
    moreover have "\<forall>m \<in> set (ms[j := f (ms ! j)]). length m = n"
      using lens(2) mj len by (auto dest!: set_update_subset_insert [THEN subsetD])
    ultimately show ?thesis using True lens(1) by (simp add: nodes_match_def)
  next
    case False
    then have "b \<in> S' \<and> on_node s k b \<longleftrightarrow> cm_test (ms ! k) b" if "k < 16" for k b
      using other [of k b] o [OF that, of b] that by auto
    with False lens show ?thesis by (simp add: nodes_match_def)
  qed
qed

lemma masks_match_alt:
  "masks_match n s S \<longleftrightarrow>
     nodes_match n s (g_node_masks s) S \<and> S \<subseteq> {..<n}
     \<and> length (g_remote_mask s) = n \<and> (\<forall>c. cm_test (g_remote_mask s) c \<longleftrightarrow> c \<in> S)
     \<and> length (g_core_siblings s) = n \<and> (\<forall>m \<in> set (g_core_siblings s). length m = n)
     \<and> (\<forall>a < n. \<forall>b. cm_test (g_core_siblings s ! a) b \<longleftrightarrow> a \<in> S \<and> b \<in> S \<and> core_mates s a b)"
  unfolding masks_match_def masks_wf_def nodes_match_def
  by (rule iffI; elim conjE; intro conjI; assumption)

lemma record_fields_of_online [simp]:
  "g_cpu_records (topology_online_cpu n cpu s) = g_cpu_records s"
  "g_cpu_records (topology_offline_cpu n cpu s) = g_cpu_records s"
  by (simp_all add: topology_online_cpu_def topology_offline_cpu_def Let_def split: option.split)

lemma relations_of_records:
  assumes "g_cpu_records s' = g_cpu_records s"
  shows "on_node s' = on_node s" "core_mates s' = core_mates s"
  using assms by (simp_all add: fun_eq_iff on_node_def core_mates_def)

lemmas topology_relations [simp] =
  relations_of_records [OF record_fields_of_online(1)] relations_of_records [OF record_fields_of_online(2)]

definition online_mates :: "nat \<Rightarrow> topology_state \<Rightarrow> nat \<Rightarrow> nat list" where
  "online_mates n s c =
     (let r = g_cpu_records s ! c in
      if core_evidence r \<noteq> te_degraded \<and> numa_node r < MAX_NUMA_NODES
      then filter (\<lambda>y. y \<noteq> c \<and> (case record_for n s y of None \<Rightarrow> False
             | Some yr \<Rightarrow> core_evidence yr \<noteq> te_degraded \<and> core_id yr = core_id r))
             (cm_bits (g_node_masks s ! unat (numa_node r)))
      else [])"

lemma set_online_mates:
  assumes mm: "masks_match n s S"
  shows "y \<in> set (online_mates n s c) \<longleftrightarrow> y \<in> S \<and> core_mates s c y"
proof (cases "core_evidence (g_cpu_records s ! c) \<noteq> te_degraded
    \<and> numa_node (g_cpu_records s ! c) < MAX_NUMA_NODES")
  case True
  let ?k = "unat (numa_node (g_cpu_records s ! c))"
  have "?k < 16" using True by (simp add: node_index)
  then have "cm_test (g_node_masks s ! ?k) y \<longleftrightarrow> y \<in> S \<and> on_node s ?k y"
    using mm by (simp add: masks_match_def)
  moreover have "on_node s ?k y \<longleftrightarrow> numa_node (g_cpu_records s ! c) = numa_node (g_cpu_records s ! y)"
    by (simp only: on_node_def word_unat_eq_iff) (rule eq_commute)
  ultimately have "y \<in> set (online_mates n s c) \<longleftrightarrow>
      y \<in> S \<and> numa_node (g_cpu_records s ! c) = numa_node (g_cpu_records s ! y) \<and> y \<noteq> c
      \<and> y < n \<and> core_evidence (g_cpu_records s ! y) \<noteq> te_degraded
      \<and> core_id (g_cpu_records s ! y) = core_id (g_cpu_records s ! c)"
    using True by (simp add: online_mates_def Let_def record_for_def)
  moreover have "y \<in> S \<Longrightarrow> y < n" using mm by (auto simp: masks_match_def)
  ultimately show ?thesis
    using True unfolding core_mates_def by metis
qed (auto simp: online_mates_def Let_def core_mates_def)

lemma online_fields:
  assumes "unat cpu < n"
  shows "g_core_siblings (topology_online_cpu n cpu s) =
      fold (link_siblings (unat cpu)) (online_mates n s (unat cpu)) (g_core_siblings s)"
    "g_remote_mask (topology_online_cpu n cpu s) = cm_set (unat cpu) (g_remote_mask s)"
    "g_node_masks (topology_online_cpu n cpu s) =
      (let k = unat (numa_node (g_cpu_records s ! unat cpu)) in
       if k < 16 then (g_node_masks s)[k := cm_set (unat cpu) (g_node_masks s ! k)] else g_node_masks s)"
  using assms
  by (simp_all add: topology_online_cpu_def record_for_def online_mates_def Let_def node_index)

lemma nodes_match_cong [simp]:
  "nodes_match n (topology_online_cpu m cpu s) = nodes_match n s"
  "nodes_match n (topology_offline_cpu m cpu s) = nodes_match n s"
  by (simp_all add: fun_eq_iff nodes_match_def)

lemma online_match:
  assumes mm: "masks_match n s S" and c: "unat cpu < n"
  shows "masks_match n (topology_online_cpu n cpu s) (insert (unat cpu) S)"
proof -
  let ?c = "unat cpu" and ?s = "topology_online_cpu n cpu s"
  note m = mm [unfolded masks_match_alt]
  have lens: "length (g_core_siblings s) = n" "\<forall>a < n. length (g_core_siblings s ! a) = n"
    and S: "S \<subseteq> {..<n}"
    and old: "\<forall>a < n. \<forall>b. cm_test (g_core_siblings s ! a) b \<longleftrightarrow> a \<in> S \<and> b \<in> S \<and> core_mates s a b"
    using m by simp_all
  have irr: "\<not> core_mates s a a" for a by (simp add: core_mates_def)
  note sib = siblings_after_online [OF lens c S old core_mates_sym irr set_online_mates [OF mm]]
  have "nodes_match n s (g_node_masks ?s) (insert ?c S)"
    unfolding online_fields(3) [OF c] Let_def
    by (rule nodes_match_update [where S = S]) (use m c in \<open>auto dest: cm_test_less\<close>)
  moreover have "cm_test (cm_set ?c (g_remote_mask s)) b \<longleftrightarrow> b \<in> insert ?c S" for b
    using m c by (auto dest: cm_test_less)
  ultimately show ?thesis
    unfolding masks_match_alt topology_relations nodes_match_cong
    using sib m c by (simp add: online_fields(1,2) [OF c])
qed

text \<open>Clearing a CPU from the masks of its siblings and emptying its own mask.\<close>

lemma siblings_after_offline:
  assumes lens: "length sib = n" "\<forall>a < n. length (sib ! a) = n" and c: "c < n" and S: "S \<subseteq> {..<n}"
    and old: "\<forall>a < n. \<forall>b. cm_test (sib ! a) b \<longleftrightarrow> a \<in> S \<and> b \<in> S \<and> R a b"
    and R: "\<And>a b. R a b \<longleftrightarrow> R b a"
  defines "u \<equiv> fold (unlink_sibling c) (cm_bits (sib ! c)) sib"
  defines "sib' \<equiv> u[c := replicate (length (u ! c)) False]"
  shows "length sib' = n" "\<forall>m \<in> set sib'. length m = n"
    "\<forall>a < n. \<forall>b. cm_test (sib' ! a) b \<longleftrightarrow> a \<in> S - {c} \<and> b \<in> S - {c} \<and> R a b"
proof -
  have "\<forall>y \<in> set (cm_bits (sib ! c)). y < n"
    using lens(2) c by (auto dest: cm_test_less)
  then have fold: "length u = n" "\<forall>a < n. length (u ! a) = n"
    "\<And>a b. a < n \<Longrightarrow> cm_test (u ! a) b \<longleftrightarrow>
       cm_test (sib ! a) b \<and> \<not> (b = c \<and> a \<in> set (cm_bits (sib ! c)))"
    using unlink_siblings_fold [OF lens, of "cm_bits (sib ! c)" c] unfolding u_def by simp_all
  show len: "length sib' = n" using fold(1) by (simp add: sib'_def)
  have "length (sib' ! a) = n" if "a < n" for a
    using fold(1,2) that c by (cases "a = c") (simp_all add: sib'_def)
  with len show "\<forall>m \<in> set sib'. length m = n" by (metis in_set_conv_nth)
  show "\<forall>a < n. \<forall>b. cm_test (sib' ! a) b \<longleftrightarrow> a \<in> S - {c} \<and> b \<in> S - {c} \<and> R a b"
  proof (intro allI impI)
    fix a b assume a: "a < n"
    show "cm_test (sib' ! a) b \<longleftrightarrow> a \<in> S - {c} \<and> b \<in> S - {c} \<and> R a b"
    proof (cases "a = c")
      case False
      have "cm_test (sib' ! a) b \<longleftrightarrow> cm_test (sib ! a) b \<and> \<not> (b = c \<and> cm_test (sib ! c) a)"
        using fold(3) [OF a, of b] False by (simp add: sib'_def)
      moreover have "cm_test (sib ! a) b \<longleftrightarrow> a \<in> S \<and> b \<in> S \<and> R a b"
        "cm_test (sib ! c) a \<longleftrightarrow> c \<in> S \<and> a \<in> S \<and> R c a"
        using old a c by simp_all
      ultimately show ?thesis using R [of a c] False by (cases "b = c") auto
    qed (use fold(1) c in \<open>simp add: sib'_def\<close>)
  qed
qed

lemma offline_fields:
  assumes "unat cpu < n"
  shows "g_core_siblings (topology_offline_cpu n cpu s) =
      (let c = unat cpu; u = fold (unlink_sibling c) (cm_bits (g_core_siblings s ! c)) (g_core_siblings s)
       in u[c := replicate (length (u ! c)) False])"
    "g_remote_mask (topology_offline_cpu n cpu s) = cm_clear (unat cpu) (g_remote_mask s)"
    "g_node_masks (topology_offline_cpu n cpu s) =
      (let k = unat (numa_node (g_cpu_records s ! unat cpu)) in
       if k < 16 then (g_node_masks s)[k := cm_clear (unat cpu) (g_node_masks s ! k)] else g_node_masks s)"
  using assms by (simp_all add: topology_offline_cpu_def record_for_def Let_def node_index)

lemma offline_match:
  assumes mm: "masks_match n s S" and c: "unat cpu < n"
  shows "masks_match n (topology_offline_cpu n cpu s) (S - {unat cpu})"
proof -
  let ?c = "unat cpu" and ?s = "topology_offline_cpu n cpu s"
  note m = mm [unfolded masks_match_alt]
  have lens: "length (g_core_siblings s) = n" "\<forall>a < n. length (g_core_siblings s ! a) = n"
    and S: "S \<subseteq> {..<n}"
    and old: "\<forall>a < n. \<forall>b. cm_test (g_core_siblings s ! a) b \<longleftrightarrow> a \<in> S \<and> b \<in> S \<and> core_mates s a b"
    using m by simp_all
  note sib = siblings_after_offline [OF lens c S old core_mates_sym]
  have "nodes_match n s (g_node_masks ?s) (S - {?c})"
    unfolding offline_fields(3) [OF c] Let_def
    by (rule nodes_match_update [where S = S]) (use m in auto)
  moreover have "cm_test (cm_clear ?c (g_remote_mask s)) b \<longleftrightarrow> b \<in> S - {?c}" for b
    using m by auto
  moreover have "S - {?c} \<subseteq> {..<n}" "length (cm_clear ?c (g_remote_mask s)) = n"
    using m by auto
  ultimately show ?thesis
    unfolding masks_match_alt topology_relations nodes_match_cong offline_fields(1,2) [OF c] Let_def
    using sib by blast
qed

section \<open>Properties\<close>

datatype hotplug = Online u16 | Offline u16

fun hotplug_step :: "nat \<Rightarrow> hotplug \<Rightarrow> topology_state \<Rightarrow> topology_state" where
  "hotplug_step n (Online c) s = topology_online_cpu n c s"
| "hotplug_step n (Offline c) s = topology_offline_cpu n c s"

fun hotplug_spec :: "nat \<Rightarrow> hotplug \<Rightarrow> nat set \<Rightarrow> nat set" where
  "hotplug_spec n (Online c) S = (if unat c < n then insert (unat c) S else S)"
| "hotplug_spec n (Offline c) S = S - {unat c}"

lemma hotplug_step_match:
  assumes "masks_match n s S"
  shows "masks_match n (hotplug_step n e s) (hotplug_spec n e S)
    \<and> g_cpu_records (hotplug_step n e s) = g_cpu_records s"
proof (cases e)
  case (Online c)
  have "topology_online_cpu n c s = s" if "\<not> unat c < n"
    using that by (simp add: topology_online_cpu_def record_for_def)
  with Online show ?thesis
    using online_match [OF assms, of c] assms by (cases "unat c < n") simp_all
next
  case (Offline c)
  have "S - {unat c} = S" "topology_offline_cpu n c s = s" if "\<not> unat c < n"
    using assms that by (auto simp: masks_match_alt topology_offline_cpu_def)
  with Offline show ?thesis
    using offline_match [OF assms, of c] assms by (cases "unat c < n") simp_all
qed

lemma hotplugs_match:
  "masks_match n s S \<Longrightarrow>
   masks_match n (fold (hotplug_step n) es s) (fold (hotplug_spec n) es S)
   \<and> g_cpu_records (fold (hotplug_step n) es s) = g_cpu_records s"
proof (induction es arbitrary: s S)
  case (Cons e es)
  show ?case
    using Cons.IH [of "hotplug_step n e s" "hotplug_spec n e S"] hotplug_step_match [OF Cons.prems, of e]
    by simp
qed simp

definition cleared_masks :: "nat \<Rightarrow> topology_state \<Rightarrow> bool" where
  "cleared_masks n s \<longleftrightarrow>
     masks_wf n s \<and> (\<forall>m \<in> set (g_node_masks s) \<union> set (g_core_siblings s) \<union> {g_remote_mask s}. True \<notin> set m)"

lemma cleared_match:
  assumes "cleared_masks n s"
  shows "masks_match n s {}"
proof -
  have none: "\<not> cm_test m c" if "True \<notin> set m" for m c
    using that by (metis cm_test_def nth_mem)
  have wf: "masks_wf n s" using assms by (simp add: cleared_masks_def)
  have "\<not> cm_test (g_node_masks s ! k) c" if "k < 16" for k c
    using assms that wf by (intro none) (simp add: cleared_masks_def masks_wf_def)
  moreover have "\<not> cm_test (g_core_siblings s ! a) c" if "a < n" for a c
    using assms that wf by (intro none) (simp add: cleared_masks_def masks_wf_def)
  moreover have "\<not> cm_test (g_remote_mask s) c" for c
    using assms by (intro none) (simp add: cleared_masks_def)
  ultimately show ?thesis using wf by (simp add: masks_match_def)
qed

text \<open>
  C12. The topology masks refine the set of online CPUs. Whatever sequence of CPUs going
  online and offline is processed from cleared masks, the remote mask holds exactly the CPUs
  that are online at the end, the mask of a NUMA node exactly the online CPUs whose record
  names the node, and the sibling mask of a CPU exactly the other online CPUs of its node
  that share its core by verified evidence, and nothing when it is itself offline. So
  siblinghood is symmetric and no CPU is its own sibling.
\<close>

theorem topology_masks_exact:
  assumes "cleared_masks n s"
  shows "let t = fold (hotplug_step n) es s; S = fold (hotplug_spec n) es {} in
    (\<forall>c. cm_test (g_remote_mask t) c \<longleftrightarrow> c \<in> S)
    \<and> (\<forall>k < 16. \<forall>c. cm_test (g_node_masks t ! k) c \<longleftrightarrow> c \<in> S \<and> on_node s k c)
    \<and> (\<forall>a < n. \<forall>b. cm_test (g_core_siblings t ! a) b \<longleftrightarrow> a \<in> S \<and> b \<in> S \<and> core_mates s a b)
    \<and> (\<forall>a < n. \<forall>b < n. cm_test (g_core_siblings t ! a) b \<longleftrightarrow> cm_test (g_core_siblings t ! b) a)
    \<and> (\<forall>a < n. \<not> cm_test (g_core_siblings t ! a) a)"
proof -
  define t S where "t = fold (hotplug_step n) es s" and "S = fold (hotplug_spec n) es {}"
  have m: "masks_match n t S" "g_cpu_records t = g_cpu_records s"
    using hotplugs_match [OF cleared_match [OF assms(1)], of es] by (simp_all add: t_def S_def)
  note rel = relations_of_records [OF m(2)]
  have sib: "cm_test (g_core_siblings t ! a) b \<longleftrightarrow> a \<in> S \<and> b \<in> S \<and> core_mates s a b" if "a < n" for a b
    using m(1) that by (simp add: masks_match_alt rel)
  have "\<not> core_mates s a a" for a by (simp add: core_mates_def)
  then show ?thesis
    using m(1) sib core_mates_sym [of s] unfolding Let_def t_def [symmetric] S_def [symmetric]
    by (auto simp: masks_match_def rel)
qed

text \<open>Four CPUs on two cores of one node, all with loader evidence.\<close>

definition four_cpus :: topology_state where
  "four_cpus =
     \<lparr>g_cpu_records = map (\<lambda>i. (initial_record i)\<lparr>core_id := of_nat (i div 2), core_evidence := te_loader_stsi\<rparr>) [0..<4],
      g_node_masks = replicate 16 (replicate 4 False), g_core_siblings = replicate 4 (replicate 4 False),
      g_remote_mask = replicate 4 False, cpu_percpu = (\<lambda>_. None)\<rparr>"

theorem topology_masks_exact_witness:
  "cleared_masks 4 four_cpus
   \<and> cm_test (g_core_siblings (fold (hotplug_step 4) [Online 0, Online 1, Online 2, Offline 2] four_cpus) ! 0) 1
   \<and> \<not> cm_test (g_remote_mask (fold (hotplug_step 4) [Online 0, Online 1, Online 2, Offline 2] four_cpus)) 2"
proof -
  have c: "cleared_masks 4 four_cpus"
    by (simp add: cleared_masks_def masks_wf_def four_cpus_def)
  have S: "fold (hotplug_spec 4) [Online 0, Online 1, Online 2, Offline 2] {} = {0, 1}"
    by auto
  have "core_mates four_cpus 0 1"
    by (simp add: core_mates_def four_cpus_def initial_record_def MAX_NUMA_NODES_def upt_rec)
  then show ?thesis
    using topology_masks_exact [OF c, of "[Online 0, Online 1, Online 2, Offline 2]"] c unfolding S by (simp add: Let_def)
qed

end
