(* ===== verification/ZX_Sched_Strand.thy ===== *)
theory ZX_Sched_Strand
  imports ZX_Sched_Budget ZX_Sched_Topology ZX_Isolation
begin

text \<open>
  Strands and run queues (\<open>zxfoundation/dgp/domain.zcomponent/types.cxxm\<close>,
  \<open>zxfoundation/sched/rq.cxxm\<close>, \<open>zxfoundation/sched/entity.cxxm\<close>), the scheduler admission
  gate (\<open>zxfoundation/sched/admit.zcomponent\<close>) and the SMT placement test
  (\<open>zxfoundation/sched/smt.zcomponent\<close>).

  Strands and domains live at addresses. A strand body belongs to one strand, so it is an
  optional component of it; a dereference of a null body or owner traps. The intrusive
  lists and the fair tree of a run queue are the sequences of the strands they link; the
  tree is its in-order sequence. Locks, and the parts of the records no operation below
  touches (stacks, registers, load averages), are left out.
\<close>

section \<open>State\<close>

record sched_entity =
  vruntime :: u64
  se_deadline :: u64
  slice :: u64
  lag :: i64
  weight :: u32
  rel_count :: u32

record strand_body =
  rt_runtime_used_ns :: u64
  rt_period_start_ns :: u64
  deadline_runtime_used_ns :: u64
  absolute_deadline_ns :: u64
  body_cbs :: cbs_replen
  boosted_prio :: u8
  saved_class :: sched_class_id
  saved_prio :: u8

record strand =
  st_owner :: "addr option"
  st_substate :: sched_substate
  st_cpu :: u16
  on_rq :: bool
  st_flags :: u8
  st_se :: sched_entity
  st_body :: "strand_body option"
  st_policy :: sched_policy
  st_admission :: sched_admission_result

record run_queue =
  nr_running :: u32
  rq_curr :: "addr option"
  idle_strand :: "addr option"
  fair_tree :: "addr list"
  min_vruntime :: u64
  avg_vruntime_acc :: i64
  avg_weight_acc :: u64
  rt_queue :: "addr list"
  deadline_queue :: "addr list"
  rq_cpu_id :: u16
  rt_bw :: rt_bandwidth

record sched_state = timer_state +
  strands :: "addr \<Rightarrow> strand"
  domain_at :: "addr \<Rightarrow> domain"
  g_rqs :: "u16 \<Rightarrow> run_queue"
  g_cpupri :: cpupri_index
  g_cpudl :: cpudl_index
  g_topology :: topology_state

definition upd_strand :: "addr \<Rightarrow> (strand \<Rightarrow> strand) \<Rightarrow> sched_state \<Rightarrow> sched_state" where
  "upd_strand t f s = s\<lparr>strands := (strands s)(t := f (strands s t))\<rparr>"

definition upd_domain :: "addr \<Rightarrow> (domain \<Rightarrow> domain) \<Rightarrow> sched_state \<Rightarrow> sched_state" where
  "upd_domain d f s = s\<lparr>domain_at := (domain_at s)(d := f (domain_at s d))\<rparr>"

definition upd_rq :: "u16 \<Rightarrow> (run_queue \<Rightarrow> run_queue) \<Rightarrow> sched_state \<Rightarrow> sched_state" where
  "upd_rq q f s = s\<lparr>g_rqs := (g_rqs s)(q := f (g_rqs s q))\<rparr>"

definition is_idle_strand :: "strand \<Rightarrow> bool" where
  "is_idle_strand t \<longleftrightarrow> st_flags t AND 1 \<noteq> 0"

definition need_resched :: "addr \<Rightarrow> sched_state \<Rightarrow> sched_state" where
  "need_resched d = upd_domain d (\<lambda>d. d\<lparr>dom_flags := dom_flags d OR df_need_resched\<rparr>)"

text \<open>\<open>list_head::remove\<close>: a node leaves the list it is linked in, whichever that is.\<close>

definition unlink_strand :: "addr \<Rightarrow> sched_state \<Rightarrow> sched_state" where
  "unlink_strand t s =
     s\<lparr>g_rqs := (\<lambda>q. (g_rqs s q)\<lparr>rt_queue := removeAll t (rt_queue (g_rqs s q)),
                                 deadline_queue := removeAll t (deadline_queue (g_rqs s q))\<rparr>)\<rparr>"

text \<open>
  The scans of the class queues keep the first candidate and replace it by a strictly
  better one.
\<close>

definition first_best :: "('a \<Rightarrow> 'a \<Rightarrow> bool) \<Rightarrow> 'a list \<Rightarrow> 'a option" where
  "first_best better xs =
     fold (\<lambda>c best. case best of None \<Rightarrow> Some c | Some b \<Rightarrow> if better c b then Some c else Some b) xs None"

section \<open>Admission gate and SMT placement\<close>

definition can_admit_domain :: "'a isolation_state_scheme \<Rightarrow> domain option \<Rightarrow> bool" where
  "can_admit_domain g d =
     (case d of
        None \<Rightarrow> True
      | Some d \<Rightarrow>
          is_idle_domain d
          \<or> validate_scheduler_admission g (ko_state (dom_ko d)) (dom_root_phys d) (dom_asce d) = Inr ())"

definition sibling_ok :: "strand \<Rightarrow> strand \<Rightarrow> bool" where
  "sibling_ok a b \<longleftrightarrow>
     st_owner a = None \<or> st_owner b = None
     \<or> allow_smt_sibling (st_policy a) \<and> allow_smt_sibling (st_policy b)"

definition sibling_idle_candidates :: "nat \<Rightarrow> (nat \<Rightarrow> bool) \<Rightarrow> u16 \<Rightarrow> topology_state \<Rightarrow> cpumask" where
  "sibling_idle_candidates n online cpu g =
     (let none = replicate n False in
      case record_for n g (unat cpu) of
        None \<Rightarrow> none
      | Some rec \<Rightarrow>
          if smt_evidence rec = te_degraded then none
          else fold (\<lambda>y out. if online y \<and> (case record_for n g y of None \<Rightarrow> False
                                            | Some yr \<Rightarrow> run_queue_load yr = 0)
                             then cm_set y out else out)
                 (steal_candidates n g (unat cpu) same_smt_core) none)"

definition foreign_attached :: "topology_state \<Rightarrow> domain \<Rightarrow> nat \<Rightarrow> bool" where
  "foreign_attached g d y =
     (case cpu_percpu g y of
        None \<Rightarrow> False
      | Some p \<Rightarrow> attached_domain_id p \<noteq> 0 \<and> attached_domain_id p \<noteq> ko_id (dom_ko d))"

definition isolation_violation :: "nat \<Rightarrow> addr \<Rightarrow> u16 \<Rightarrow> sched_state \<Rightarrow> bool" where
  "isolation_violation n t target_cpu s =
     (case record_for n (g_topology s) (unat target_cpu) of
        None \<Rightarrow> True
      | Some my_rec \<Rightarrow>
          let my_dom = map_option (domain_at s) (st_owner (strands s t));
              wants_isolation = (case my_dom of None \<Rightarrow> False
                 | Some d \<Rightarrow> \<not> has_all_rights (dom_granted_rights d) rights_sched)
          in if smt_evidence my_rec = te_degraded \<and> wants_isolation then True
             else list_ex (\<lambda>y. case my_dom of None \<Rightarrow> False | Some d \<Rightarrow> foreign_attached (g_topology s) d y)
                    (steal_candidates n (g_topology s) (unat target_cpu) same_smt_core))"

section \<open>Laws\<close>

lemma upd_simps [simp]:
  "strands (upd_strand t f s) = (strands s)(t := f (strands s t))"
  "domain_at (upd_strand t f s) = domain_at s" "g_rqs (upd_strand t f s) = g_rqs s"
  "g_topology (upd_strand t f s) = g_topology s" "g_cpudl (upd_strand t f s) = g_cpudl s"
  "g_cpupri (upd_strand t f s) = g_cpupri s" "timers (upd_strand t f s) = timers s"
  "g_heaps (upd_strand t f s) = g_heaps s" "comparator (upd_strand t f s) = comparator s"
  "strands (upd_domain d h s) = strands s"
  "domain_at (upd_domain d h s) = (domain_at s)(d := h (domain_at s d))"
  "g_rqs (upd_domain d h s) = g_rqs s" "g_topology (upd_domain d h s) = g_topology s"
  "g_cpudl (upd_domain d h s) = g_cpudl s" "g_cpupri (upd_domain d h s) = g_cpupri s"
  "timers (upd_domain d h s) = timers s" "g_heaps (upd_domain d h s) = g_heaps s"
  "comparator (upd_domain d h s) = comparator s"
  "strands (upd_rq q k s) = strands s" "domain_at (upd_rq q k s) = domain_at s"
  "g_rqs (upd_rq q k s) = (g_rqs s)(q := k (g_rqs s q))"
  "g_topology (upd_rq q k s) = g_topology s" "g_cpudl (upd_rq q k s) = g_cpudl s"
  "g_cpupri (upd_rq q k s) = g_cpupri s"
  by (simp_all add: upd_strand_def upd_domain_def upd_rq_def)

lemma unlink_simps [simp]:
  "strands (unlink_strand t s) = strands s" "domain_at (unlink_strand t s) = domain_at s"
  "g_cpudl (unlink_strand t s) = g_cpudl s" "g_cpupri (unlink_strand t s) = g_cpupri s"
  "g_topology (unlink_strand t s) = g_topology s"
  "rt_queue (g_rqs (unlink_strand t s) q) = removeAll t (rt_queue (g_rqs s q))"
  "deadline_queue (g_rqs (unlink_strand t s) q) = removeAll t (deadline_queue (g_rqs s q))"
  "fair_tree (g_rqs (unlink_strand t s) q) = fair_tree (g_rqs s q)"
  "nr_running (g_rqs (unlink_strand t s) q) = nr_running (g_rqs s q)"
  "rq_cpu_id (g_rqs (unlink_strand t s) q) = rq_cpu_id (g_rqs s q)"
  by (simp_all add: unlink_strand_def)

lemma need_resched_simps [simp]:
  "strands (need_resched d s) = strands s" "g_rqs (need_resched d s) = g_rqs s"
  by (simp_all add: need_resched_def)

text \<open>The scan returns the first element that no other beats, when \<open>better\<close> compares a key.\<close>

lemma find_skip: "(\<not> Q b \<Longrightarrow> \<not> Q x) \<Longrightarrow> find Q (b # x # xs) = find Q (b # xs)"
  by auto

lemma fold_best:
  fixes key :: "'a \<Rightarrow> 'k::linorder"
  shows "fold (\<lambda>c best. case best of None \<Rightarrow> Some c | Some b \<Rightarrow> if key c < key b then Some c else Some b)
           xs (Some b) = find (\<lambda>x. \<forall>y \<in> set (b # xs). key x \<le> key y) (b # xs)"
proof (induction xs arbitrary: b)
  case (Cons x xs)
  let ?P = "\<lambda>b xs z. \<forall>y \<in> set (b # xs). key z \<le> key y"
  show ?case
  proof (cases "key x < key b")
    case True
    have "?P x xs z \<longleftrightarrow> ?P b (x # xs) z" for z
      using True order.trans [of "key z" "key x" "key b"] by auto
    then have "find (?P b (x # xs)) (x # xs) = find (?P x xs) (x # xs)" by simp
    moreover have "\<not> ?P b (x # xs) b" using True by (simp add: not_le)
    ultimately have "find (?P b (x # xs)) (b # x # xs) = find (?P x xs) (x # xs)"
      by (simp only: find.simps if_False)
    with True Cons.IH [of x] show ?thesis by (simp del: find.simps)
  next
    case False
    have P: "?P b (x # xs) = ?P b xs"
      using False order.trans [of _ "key b" "key x"] by (auto simp: fun_eq_iff)
    have "\<not> ?P b xs x" if "\<not> ?P b xs b"
      using False that order.trans [of "key b" "key x"] by auto
    then have "find (?P b xs) (b # x # xs) = find (?P b xs) (b # xs)"
      by (rule find_skip)
    with False Cons.IH [of b] P show ?thesis by (simp del: find.simps)
  qed
qed simp

lemma first_best_find:
  fixes key :: "'a \<Rightarrow> 'k::linorder"
  shows "first_best (\<lambda>c b. key c < key b) xs = find (\<lambda>x. \<forall>y \<in> set xs. key x \<le> key y) xs"
  by (cases xs) (simp_all only: first_best_def fold_best fold.simps comp_def option.case find.simps id_apply)

lemma first_best_None [simp]: "first_best better xs = None \<longleftrightarrow> xs = []"
proof -
  have "fold (\<lambda>c best. case best of None \<Rightarrow> Some c | Some b \<Rightarrow> if better c b then Some c else Some b)
      ys (Some b) \<noteq> None" for ys b
    by (induction ys arbitrary: b) auto
  then show ?thesis by (cases xs) (auto simp: first_best_def)
qed

lemma first_best_member: "first_best better xs = Some r \<Longrightarrow> r \<in> set xs"
proof -
  have "fold (\<lambda>c best. case best of None \<Rightarrow> Some c | Some b \<Rightarrow> if better c b then Some c else Some b)
      ys (Some b) = Some r \<Longrightarrow> r \<in> insert b (set ys)" for ys b
    by (induction ys arbitrary: b) (auto split: if_splits)
  then show "first_best better xs = Some r \<Longrightarrow> r \<in> set xs"
    by (cases xs) (auto simp: first_best_def)
qed

end
