(* ===== verification/ZX_Sched_Rt.thy ===== *)
theory ZX_Sched_Rt
  imports ZX_Sched_Strand
begin

text \<open>
  The two admission-controlled scheduling classes: fixed-priority real time
  (\<open>zxfoundation/sched/rt.zcomponent/core.cxx\<close>) and earliest deadline first
  (\<open>zxfoundation/sched/deadline.zcomponent/core.cxx\<close>). Both reserve runtime from a budget of
  the owning domain; the locale \<open>reservation\<close> states the contract of the reserve and release
  steps and is interpreted for both classes.

  \<open>n\<close> is the configured number of CPUs. The clock readings and the address of the
  replenishment callback are arguments.
\<close>

section \<open>Real time\<close>

definition invalid :: "'a expected" where
  "invalid = Inl (from_generic invalid_arg)"

definition has_rt_authority :: "domain \<Rightarrow> bool" where
  "has_rt_authority d \<longleftrightarrow>
     dom_rt_capability_token d \<noteq> 0 \<and> dom_rt_capability_token d = dom_admin_token d
     \<or> has_all_rights (dom_granted_rights d) rights_sched"

definition policy_matches_domain_masks :: "domain \<Rightarrow> sched_policy \<Rightarrow> bool" where
  "policy_matches_domain_masks d p \<longleftrightarrow>
     \<not> (dom_allowed_cpus d \<noteq> 0 \<and> allowed_cpus p \<noteq> 0 \<and> allowed_cpus p AND NOT (dom_allowed_cpus d) \<noteq> 0)
     \<and> \<not> (dom_allowed_numa_nodes d \<noteq> 0 \<and> allowed_numa_nodes p \<noteq> 0
          \<and> allowed_numa_nodes p AND NOT (dom_allowed_numa_nodes d) \<noteq> 0)"

definition rt_reserve_domain_runtime :: "domain \<Rightarrow> u64 \<Rightarrow> u64 \<Rightarrow> domain \<times> unit expected" where
  "rt_reserve_domain_runtime d runtime period =
     (let d1 = (if dom_rt_period_ns d = 0 then d\<lparr>dom_rt_period_ns := period\<rparr> else d) in
      if dom_rt_budget_ns d1 = 0 then (d1, invalid)
      else if period \<noteq> dom_rt_period_ns d1 then (d1, invalid)
      else if runtime > dom_rt_budget_ns d1 \<or> dom_rt_reserved_ns d1 > dom_rt_budget_ns d1 - runtime
        then (d1, invalid)
      else (d1\<lparr>dom_rt_reserved_ns := dom_rt_reserved_ns d1 + runtime\<rparr>, Inr ()))"

definition rt_release_domain_runtime :: "domain \<Rightarrow> u64 \<Rightarrow> domain" where
  "rt_release_domain_runtime d runtime =
     d\<lparr>dom_rt_reserved_ns :=
         (if dom_rt_reserved_ns d > runtime then dom_rt_reserved_ns d - runtime else 0)\<rparr>"

definition rt_admit ::
  "nat \<Rightarrow> addr \<Rightarrow> addr \<Rightarrow> sched_policy \<Rightarrow> sched_state \<Rightarrow> (sched_admission_result expected \<times> sched_state) exec" where
  "rt_admit n ow t policy s =
     (let d = domain_at s ow in
      if \<not> is_active_domain d \<or> is_idle_domain d then Done (invalid, s)
      else if sp_class_id policy \<noteq> sc_rt \<or> \<not> policy_matches_domain_masks d policy then Done (invalid, s)
      else case validate_scheduler_policy n (ko_state (dom_ko d)) policy (has_rt_authority d) of
        Inl e \<Rightarrow> Done (Inl e, s)
      | Inr adm \<Rightarrow>
          let (d', r) = rt_reserve_domain_runtime d (admitted_runtime_ns adm) (admitted_period_ns adm);
              s1 = upd_domain ow (\<lambda>_. d') s
          in case r of
               Inl e \<Rightarrow> Done (Inl e, s1)
             | Inr _ \<Rightarrow>
                 (case st_body (strands s1 t) of
                    None \<Rightarrow> Trap
                  | Some b \<Rightarrow>
                      Done (Inr adm, upd_strand t (\<lambda>x. x\<lparr>st_policy := policy, st_admission := adm,
                              st_body := Some (b\<lparr>rt_runtime_used_ns := 0, rt_period_start_ns := 0\<rparr>)\<rparr>) s1)))"

definition rt_release_admission :: "addr \<Rightarrow> addr \<Rightarrow> sched_state \<Rightarrow> sched_state exec" where
  "rt_release_admission ow t s =
     (if sp_class_id (st_policy (strands s t)) \<noteq> sc_rt then Done s
      else
        let s1 = upd_domain ow (\<lambda>d. rt_release_domain_runtime d
                   (admitted_runtime_ns (st_admission (strands s t)))) s
        in case st_body (strands s1 t) of
             None \<Rightarrow> Trap
           | Some b \<Rightarrow>
               Done (upd_strand t (\<lambda>x. x\<lparr>st_policy := sched_policy_default,
                       st_admission := sched_admission_result_default,
                       st_body := Some (b\<lparr>rt_runtime_used_ns := 0, rt_period_start_ns := 0\<rparr>)\<rparr>) s1))"

definition set_cpupri :: "nat \<Rightarrow> u16 \<Rightarrow> u8 \<Rightarrow> u8 \<Rightarrow> sched_state \<Rightarrow> sched_state" where
  "set_cpupri n cpu old new s = s\<lparr>g_cpupri := pri_set n cpu old new (g_cpupri s)\<rparr>"

abbreviation rt_prio :: "sched_state \<Rightarrow> addr \<Rightarrow> u8" where
  "rt_prio s t \<equiv> rt_priority (st_policy (strands s t))"

definition rt_pick_next :: "sched_state \<Rightarrow> u16 \<Rightarrow> addr option" where
  "rt_pick_next s q = first_best (\<lambda>c b. rt_prio s c > rt_prio s b) (rt_queue (g_rqs s q))"

definition rt_enqueue :: "nat \<Rightarrow> u16 \<Rightarrow> addr \<Rightarrow> sched_state \<Rightarrow> unit expected \<times> sched_state" where
  "rt_enqueue n q t s =
     (let x = strands s t; cpu = rq_cpu_id (g_rqs s q) in
      if sp_class_id (st_policy x) \<noteq> sc_rt \<or> adm_class_id (st_admission x) \<noteq> sc_rt
         \<or> admitted_runtime_ns (st_admission x) = 0 then (invalid, s)
      else if on_rq x then (Inr (), s)
      else if \<not> allow_smt_sibling (st_policy x) \<and> isolation_violation n t cpu s then (invalid, s)
      else
        let old_top = pri_top n cpu (g_cpupri s);
            s1 = upd_rq q (\<lambda>r. r\<lparr>rt_queue := rt_queue r @ [t], nr_running := nr_running r + 1\<rparr>) s;
            s2 = upd_strand t (\<lambda>x. x\<lparr>on_rq := True\<rparr>) s1
        in (Inr (), set_cpupri n cpu old_top (rt_prio s2 t) s2))"

definition rt_dequeue :: "nat \<Rightarrow> u16 \<Rightarrow> addr \<Rightarrow> sched_state \<Rightarrow> sched_state" where
  "rt_dequeue n q t s =
     (if \<not> on_rq (strands s t) then s
      else
        let cpu = rq_cpu_id (g_rqs s q);
            old_top = pri_top n cpu (g_cpupri s);
            s1 = upd_strand t (\<lambda>x. x\<lparr>on_rq := False\<rparr>) (unlink_strand t s);
            s2 = upd_rq q (\<lambda>r. r\<lparr>nr_running := (if nr_running r \<noteq> 0 then nr_running r - 1 else 0)\<rparr>) s1;
            new_top = (case rt_pick_next s2 q of None \<Rightarrow> CPUPRI_INVALID | Some b \<Rightarrow> rt_prio s2 b)
        in set_cpupri n cpu old_top new_top s2)"

definition resched_owner :: "addr \<Rightarrow> sched_state \<Rightarrow> sched_state" where
  "resched_owner t s =
     (case st_owner (strands s t) of None \<Rightarrow> s | Some d \<Rightarrow> need_resched d s)"

definition rt_tick :: "nat \<Rightarrow> u16 \<Rightarrow> addr \<Rightarrow> sched_state \<Rightarrow> sched_state exec" where
  "rt_tick n q t s =
     (if sp_class_id (st_policy (strands s t)) \<noteq> sc_rt then Done s
      else case st_body (strands s t) of
        None \<Rightarrow> Trap
      | Some b \<Rightarrow>
          let used = rt_runtime_used_ns b + 1000000;
              s1 = upd_strand t (\<lambda>x. x\<lparr>st_body := Some (b\<lparr>rt_runtime_used_ns := used\<rparr>)\<rparr>) s;
              s2 = upd_rq q (\<lambda>r. r\<lparr>rt_bw := fst (bw_charge (rt_bw r) 1000000)\<rparr>) s1
          in if rt_throttled (rt_bw (g_rqs s2 q)) then Done (rt_dequeue n q t (resched_owner t s2))
             else if used \<ge> admitted_runtime_ns (st_admission (strands s2 t))
             then Done (rt_dequeue n q t (resched_owner t s2))
             else Done s2)"

definition rt_check_preempt :: "u16 \<Rightarrow> addr \<Rightarrow> sched_state \<Rightarrow> sched_state" where
  "rt_check_preempt q waking s =
     (case rq_curr (g_rqs s q) of
        None \<Rightarrow> s
      | Some c \<Rightarrow> if sp_class_id (st_policy (strands s waking)) \<noteq> sc_rt then s else resched_owner c s)"

text \<open>The 64 bits of an affinity mask as a mask of \<open>n\<close> CPUs; no bit means every CPU.\<close>

definition affinity_mask :: "nat \<Rightarrow> u64 \<Rightarrow> cpumask" where
  "affinity_mask n bits =
     (if bits = 0 then replicate n True
      else map (\<lambda>i. i < 64 \<and> bit bits i) [0..<n])"

definition rt_push :: "nat \<Rightarrow> (nat \<Rightarrow> bool) \<Rightarrow> u16 \<Rightarrow> sched_state \<Rightarrow> u16 exec" where
  "rt_push n online q s =
     (case rt_pick_next s q of
        None \<Rightarrow> Done (of_nat n)
      | Some h \<Rightarrow> find_fitness n online (rt_prio s h) (affinity_mask n (allowed_cpus (st_policy (strands s h)))) (g_cpupri s))"

definition affinity_forbids :: "u64 \<Rightarrow> u16 \<Rightarrow> bool" where
  "affinity_forbids bits cpu \<longleftrightarrow> bits \<noteq> 0 \<and> cpu < 64 \<and> drop_bit (unat cpu) bits AND 1 = 0"

definition rt_pull :: "nat \<Rightarrow> u16 \<Rightarrow> u16 \<Rightarrow> sched_state \<Rightarrow> addr option \<times> sched_state" where
  "rt_pull n idle_cpu q s =
     (case rt_pick_next s q of
        None \<Rightarrow> (None, s)
      | Some h \<Rightarrow>
          if affinity_forbids (allowed_cpus (st_policy (strands s h))) idle_cpu then (None, s)
          else (Some h, upd_strand h (\<lambda>x. x\<lparr>st_cpu := idle_cpu, on_rq := False\<rparr>) (rt_dequeue n q h s)))"

definition boost_prio :: "addr \<Rightarrow> u8 \<Rightarrow> sched_state \<Rightarrow> sched_state" where
  "boost_prio t new_prio s =
     (case st_body (strands s t) of
        None \<Rightarrow> s
      | Some b \<Rightarrow>
          let p = st_policy (strands s t);
              b1 = (if boosted_prio b = 0
                    then b\<lparr>saved_class := sp_class_id p, saved_prio := rt_priority p\<rparr> else b)
          in if new_prio > boosted_prio b1
             then upd_strand t (\<lambda>x. x\<lparr>st_body := Some (b1\<lparr>boosted_prio := new_prio\<rparr>),
                                     st_policy := p\<lparr>sp_class_id := sc_rt, rt_priority := new_prio\<rparr>\<rparr>) s
             else upd_strand t (\<lambda>x. x\<lparr>st_body := Some b1\<rparr>) s)"

definition unboost_prio :: "addr \<Rightarrow> sched_state \<Rightarrow> sched_state" where
  "unboost_prio t s =
     (case st_body (strands s t) of
        None \<Rightarrow> s
      | Some b \<Rightarrow>
          if boosted_prio b = 0 then s
          else upd_strand t (\<lambda>x. x\<lparr>st_body := Some (b\<lparr>boosted_prio := 0\<rparr>),
                 st_policy := (st_policy x)\<lparr>sp_class_id := saved_class b, rt_priority := saved_prio b\<rparr>\<rparr>) s)"

section \<open>Earliest deadline first\<close>

definition dl_reserve_domain_runtime :: "domain \<Rightarrow> u64 \<Rightarrow> u64 \<Rightarrow> domain \<times> unit expected" where
  "dl_reserve_domain_runtime d runtime period =
     (let d1 = (if dom_deadline_period_ns d = 0 then d\<lparr>dom_deadline_period_ns := period\<rparr> else d) in
      if dom_deadline_budget_ns d1 = 0 \<or> period \<noteq> dom_deadline_period_ns d1 then (d1, invalid)
      else if runtime > dom_deadline_budget_ns d1
           \<or> dom_deadline_reserved_ns d1 > dom_deadline_budget_ns d1 - runtime then (d1, invalid)
      else (d1\<lparr>dom_deadline_reserved_ns := dom_deadline_reserved_ns d1 + runtime\<rparr>, Inr ()))"

definition dl_release_domain_runtime :: "domain \<Rightarrow> u64 \<Rightarrow> domain" where
  "dl_release_domain_runtime d runtime =
     d\<lparr>dom_deadline_reserved_ns :=
         (if dom_deadline_reserved_ns d > runtime then dom_deadline_reserved_ns d - runtime else 0)\<rparr>"

text \<open>
  \<open>has_deadline_authority\<close> is the same test as \<open>has_rt_authority\<close>. \<open>arm_replenishment\<close> is the
  tail of \<open>admit\<close>: the server of the strand is reset and its timer installed and added.
\<close>

definition arm_replenishment ::
  "fnptr \<Rightarrow> u16 \<Rightarrow> u64 \<Rightarrow> u64 \<Rightarrow> addr \<Rightarrow> strand_body \<Rightarrow> sched_state \<Rightarrow> sched_state" where
  "arm_replenishment cb this_cpu now_ns stck t b s =
     (let (c0, s1) = cbs_init (body_cbs b) s;
          c1 = c0\<lparr>period_deadline := now_ns + cbs_period_ns c0\<rparr>;
          s2 = upd_strand t (\<lambda>x. x\<lparr>st_body := Some (b\<lparr>body_cbs := c1\<rparr>)\<rparr>) s1;
          s3 = cbs_install_timer c1 (st_cpu (strands s2 t)) cb (Some t) s2
      in snd (timer_add this_cpu stck (cbs_timer c1) s3))"

definition deadline_admit ::
  "fnptr \<Rightarrow> nat \<Rightarrow> u16 \<Rightarrow> u64 \<Rightarrow> u64 \<Rightarrow> addr \<Rightarrow> addr \<Rightarrow> sched_policy \<Rightarrow> sched_state \<Rightarrow>
   (sched_admission_result expected \<times> sched_state) exec" where
  "deadline_admit cb n this_cpu now_ns stck ow t policy s =
     (let d = domain_at s ow in
      if \<not> is_active_domain d \<or> is_idle_domain d \<or> sp_class_id policy \<noteq> sc_deadline then Done (invalid, s)
      else case validate_scheduler_policy n (ko_state (dom_ko d)) policy (has_rt_authority d) of
        Inl e \<Rightarrow> Done (Inl e, s)
      | Inr adm \<Rightarrow>
          let (d', r) = dl_reserve_domain_runtime d (admitted_runtime_ns adm) (admitted_period_ns adm);
              s1 = upd_domain ow (\<lambda>_. d') s
          in case r of
               Inl e \<Rightarrow> Done (Inl e, s1)
             | Inr _ \<Rightarrow>
                 (case st_body (strands s1 t) of
                    None \<Rightarrow> Trap
                  | Some b \<Rightarrow>
                      let b1 = b\<lparr>deadline_runtime_used_ns := 0, absolute_deadline_ns := deadline_ns policy\<rparr>;
                          s2 = upd_strand t (\<lambda>x. x\<lparr>st_policy := policy, st_admission := adm, st_body := Some b1,
                                 st_se := (st_se x)\<lparr>se_deadline := deadline_ns policy\<rparr>\<rparr>) s1
                      in Done (Inr adm, arm_replenishment cb this_cpu now_ns stck t b1 s2)))"

text \<open>The callback \<open>admit\<close> installs.\<close>

definition replenish_callback ::
  "u16 \<Rightarrow> u64 \<Rightarrow> u64 \<Rightarrow> addr option \<Rightarrow> sched_state \<Rightarrow> sched_state" where
  "replenish_callback this_cpu now_ns stck data s =
     (case data of
        None \<Rightarrow> s
      | Some t \<Rightarrow>
          (case st_body (strands s t) of
             None \<Rightarrow> s
           | Some b \<Rightarrow>
               (case st_owner (strands s t) of
                  Some d \<Rightarrow>
                    if ko_state (dom_ko (domain_at s d)) \<noteq> Active
                    then cbs_cancel_timer this_cpu stck (body_cbs b) s
                    else let c = cbs_replenish now_ns (body_cbs b)
                         in upd_strand t (\<lambda>x. x\<lparr>st_body := Some (b\<lparr>body_cbs := c,
                              absolute_deadline_ns := period_deadline c\<rparr>)\<rparr>) s
                | None \<Rightarrow> cbs_cancel_timer this_cpu stck (body_cbs b) s)))"

definition deadline_release_admission :: "u16 \<Rightarrow> u64 \<Rightarrow> addr \<Rightarrow> addr \<Rightarrow> sched_state \<Rightarrow> sched_state exec" where
  "deadline_release_admission this_cpu stck ow t s =
     (if sp_class_id (st_policy (strands s t)) \<noteq> sc_deadline then Done s
      else case st_body (strands s t) of
        None \<Rightarrow> Trap
      | Some b \<Rightarrow>
          let s1 = cbs_cancel_timer this_cpu stck (body_cbs b) s;
              s2 = upd_domain ow (\<lambda>d. dl_release_domain_runtime d
                     (admitted_runtime_ns (st_admission (strands s t)))) s1
          in Done (upd_strand t (\<lambda>x. x\<lparr>st_policy := sched_policy_default,
                     st_admission := sched_admission_result_default,
                     st_body := Some (b\<lparr>deadline_runtime_used_ns := 0, absolute_deadline_ns := 0\<rparr>)\<rparr>) s2))"

abbreviation abs_deadline :: "sched_state \<Rightarrow> addr \<Rightarrow> u64" where
  "abs_deadline s t \<equiv> (case st_body (strands s t) of Some b \<Rightarrow> absolute_deadline_ns b | None \<Rightarrow> 0)"

definition has_bodies :: "sched_state \<Rightarrow> addr list \<Rightarrow> bool" where
  "has_bodies s xs \<longleftrightarrow> list_all (\<lambda>t. st_body (strands s t) \<noteq> None) xs"

definition earliest_queued :: "sched_state \<Rightarrow> u16 \<Rightarrow> u64 exec" where
  "earliest_queued s q =
     (let xs = deadline_queue (g_rqs s q) in
      if \<not> has_bodies s xs then Trap
      else Done (fold (\<lambda>c e. if abs_deadline s c < e then abs_deadline s c else e) xs (- 1)))"

definition set_cpudl :: "(cpudl_index \<Rightarrow> cpudl_index) \<Rightarrow> sched_state \<Rightarrow> sched_state" where
  "set_cpudl f s = s\<lparr>g_cpudl := f (g_cpudl s)\<rparr>"

definition deadline_enqueue :: "nat \<Rightarrow> u16 \<Rightarrow> addr \<Rightarrow> sched_state \<Rightarrow> (unit expected \<times> sched_state) exec" where
  "deadline_enqueue n q t s =
     (let x = strands s t in
      if sp_class_id (st_policy x) \<noteq> sc_deadline \<or> adm_class_id (st_admission x) \<noteq> sc_deadline
         \<or> admitted_runtime_ns (st_admission x) = 0 then Done (invalid, s)
      else if on_rq x then Done (Inr (), s)
      else
        let s1 = upd_rq q (\<lambda>r. r\<lparr>deadline_queue := deadline_queue r @ [t], nr_running := nr_running r + 1\<rparr>) s;
            s2 = upd_strand t (\<lambda>x. x\<lparr>on_rq := True\<rparr>) s1
        in exec_bind (earliest_queued s2 q)
             (\<lambda>e. Done (Inr (), set_cpudl (set_dl n (rq_cpu_id (g_rqs s q)) e) s2)))"

definition deadline_dequeue :: "nat \<Rightarrow> u16 \<Rightarrow> addr \<Rightarrow> sched_state \<Rightarrow> sched_state exec" where
  "deadline_dequeue n q t s =
     (if \<not> on_rq (strands s t) then Done s
      else
        let cpu = rq_cpu_id (g_rqs s q);
            s1 = upd_strand t (\<lambda>x. x\<lparr>on_rq := False\<rparr>) (unlink_strand t s);
            s2 = upd_rq q (\<lambda>r. r\<lparr>nr_running := (if nr_running r \<noteq> 0 then nr_running r - 1 else 0)\<rparr>) s1
        in exec_bind (earliest_queued s2 q)
             (\<lambda>e. Done (set_cpudl (if e = - 1 then clear_dl n cpu else set_dl n cpu e) s2)))"

text \<open>A single candidate is not dereferenced; two or more are compared through their bodies.\<close>

definition deadline_pick_next :: "sched_state \<Rightarrow> u16 \<Rightarrow> addr option exec" where
  "deadline_pick_next s q =
     (let xs = deadline_queue (g_rqs s q) in
      if length xs \<ge> 2 \<and> \<not> has_bodies s xs then Trap
      else Done (first_best (\<lambda>c b. abs_deadline s c < abs_deadline s b) xs))"

definition deadline_tick :: "nat \<Rightarrow> u16 \<Rightarrow> addr \<Rightarrow> sched_state \<Rightarrow> sched_state exec" where
  "deadline_tick n q t s =
     (if sp_class_id (st_policy (strands s t)) \<noteq> sc_deadline then Done s
      else case st_body (strands s t) of
        None \<Rightarrow> Trap
      | Some b \<Rightarrow>
          let b1 = b\<lparr>deadline_runtime_used_ns := deadline_runtime_used_ns b + 1000000,
                     body_cbs := fst (cbs_charge (body_cbs b) 1000000)\<rparr>;
              s1 = upd_strand t (\<lambda>x. x\<lparr>st_body := Some b1\<rparr>) s
          in if deadline_runtime_used_ns b1 \<ge> admitted_runtime_ns (st_admission (strands s1 t))
             then deadline_dequeue n q t (resched_owner t s1)
             else Done s1)"

definition deadline_check_preempt :: "u16 \<Rightarrow> addr \<Rightarrow> sched_state \<Rightarrow> sched_state" where
  "deadline_check_preempt q waking s =
     (case rq_curr (g_rqs s q) of
        None \<Rightarrow> s
      | Some c \<Rightarrow> if sp_class_id (st_policy (strands s waking)) \<noteq> sc_deadline then s else resched_owner c s)"

definition deadline_push :: "nat \<Rightarrow> (nat \<Rightarrow> bool) \<Rightarrow> u16 \<Rightarrow> sched_state \<Rightarrow> u16 exec" where
  "deadline_push n online q s =
     exec_bind (deadline_pick_next s q)
       (\<lambda>r. case r of
          None \<Rightarrow> Done (of_nat n)
        | Some h \<Rightarrow> Done (find_latest n online (affinity_mask n (allowed_cpus (st_policy (strands s h)))) (g_cpudl s)))"

definition deadline_pull :: "nat \<Rightarrow> u16 \<Rightarrow> u16 \<Rightarrow> sched_state \<Rightarrow> (addr option \<times> sched_state) exec" where
  "deadline_pull n idle_cpu q s =
     exec_bind (deadline_pick_next s q)
       (\<lambda>r. case r of
          None \<Rightarrow> Done (None, s)
        | Some h \<Rightarrow>
            if affinity_forbids (allowed_cpus (st_policy (strands s h))) idle_cpu then Done (None, s)
            else exec_bind (deadline_dequeue n q h s)
                   (\<lambda>s1. Done (Some h, upd_strand h (\<lambda>x. x\<lparr>st_cpu := idle_cpu, on_rq := False\<rparr>) s1)))"

section \<open>Reservations\<close>

text \<open>
  A domain's history of reservations: each \<open>Reserve\<close> is one call of the reserve step of an
  admission, each \<open>Release\<close> gives back the runtime of an admission that is still
  outstanding. The second component lists the outstanding runtimes.
\<close>

datatype reservation_event = Reserve u64 u64 | Release u64

fun reservation_step ::
  "(domain \<Rightarrow> u64 \<Rightarrow> u64 \<Rightarrow> domain \<times> unit expected) \<Rightarrow> (domain \<Rightarrow> u64 \<Rightarrow> domain) \<Rightarrow>
   reservation_event \<Rightarrow> domain \<times> u64 list \<Rightarrow> domain \<times> u64 list" where
  "reservation_step reserve release (Reserve r p) (d, out) =
     (case reserve d r p of (d', Inr _) \<Rightarrow> (d', r # out) | (d', Inl _) \<Rightarrow> (d', out))"
| "reservation_step reserve release (Release r) (d, out) =
     (if r \<in> set out then (release d r, remove1 r out) else (d, out))"

locale reservation =
  fixes reserve :: "domain \<Rightarrow> u64 \<Rightarrow> u64 \<Rightarrow> domain \<times> unit expected"
    and release :: "domain \<Rightarrow> u64 \<Rightarrow> domain"
    and budget :: "domain \<Rightarrow> u64" and reserved :: "domain \<Rightarrow> u64" and period :: "domain \<Rightarrow> u64"
  assumes reserve_iff: "snd (reserve d r p) = Inr () \<longleftrightarrow>
      budget d \<noteq> 0 \<and> (period d = 0 \<or> period d = p) \<and> unat (reserved d) + unat r \<le> unat (budget d)"
    and reserve_ok: "reserve d r p = (d', Inr u) \<Longrightarrow>
      unat (reserved d') = unat (reserved d) + unat r"
    and reserve_fails: "reserve d r p = (d', Inl e) \<Longrightarrow> reserved d' = reserved d"
    and reserve_budget: "reserve d r p = (d', x) \<Longrightarrow> budget d' = budget d"
    and reserved_release: "unat (reserved (release d r)) = unat (reserved d) - unat r"
    and budget_release: "budget (release d r) = budget d"
begin

definition accounted :: "domain \<times> u64 list \<Rightarrow> bool" where
  "accounted x \<longleftrightarrow> unat (reserved (fst x)) = sum_list (map unat (snd x))
     \<and> unat (reserved (fst x)) \<le> unat (budget (fst x))"

lemma step_accounted:
  assumes "accounted (d, out)"
  shows "accounted (reservation_step reserve release ev (d, out))
    \<and> budget (fst (reservation_step reserve release ev (d, out))) = budget d"
proof (cases ev)
  case (Reserve r p)
  obtain d' x where eq: "reserve d r p = (d', x)" by force
  show ?thesis
    using assms reserve_ok [of d r p d'] reserve_fails [of d r p d'] reserve_budget [OF eq]
      reserve_iff [of d r p] eq
    by (cases x) (auto simp: Reserve accounted_def)
next
  case (Release r)
  have "sum_list (map unat (remove1 r out)) = sum_list (map unat out) - unat r" if "r \<in> set out"
    using that by (simp add: sum_list_map_remove1)
  then show ?thesis
    using assms by (auto simp: Release accounted_def reserved_release budget_release)
qed

lemma history_accounted:
  assumes "accounted x"
  shows "accounted (fold (reservation_step reserve release) evs x)
    \<and> budget (fst (fold (reservation_step reserve release) evs x)) = budget (fst x)"
  using assms
proof (induction evs arbitrary: x)
  case (Cons ev evs)
  then show ?case using step_accounted [of "fst x" "snd x" ev] Cons.IH by simp
qed simp

lemma ledger:
  assumes "reserved d = 0" "fold (reservation_step reserve release) evs (d, []) = (d', out)"
  shows "unat (reserved d') = sum_list (map unat out) \<and> sum_list (map unat out) \<le> unat (budget d)
    \<and> (snd (reserve d' r p) = Inr () \<longleftrightarrow>
         budget d \<noteq> 0 \<and> (period d' = 0 \<or> period d' = p)
         \<and> sum_list (map unat out) + unat r \<le> unat (budget d))"
proof -
  have "accounted (d', out) \<and> budget d' = budget d"
    using history_accounted [of "(d, [])" evs] assms by (auto simp: accounted_def)
  then show ?thesis by (auto simp: accounted_def reserve_iff)
qed

end

lemma reserve_within:
  fixes r b held :: u64
  assumes "\<not> b < r" "\<not> b - r < held"
  shows "unat held + unat r \<le> unat b" "unat (held + r) = unat held + unat r"
proof -
  show le: "unat held + unat r \<le> unat b"
    using assms by (simp add: word_less_nat_alt unat_sub word_le_nat_alt not_less)
  then show "unat (held + r) = unat held + unat r"
    using unsigned_less [of b, where 'a = nat] by (simp add: unat_word_ariths(1))
qed

lemma within_reserve: "unat held + unat r \<le> unat b \<longleftrightarrow> \<not> b < r \<and> \<not> b - r < held" for r b held :: u64
  by (auto simp: word_less_nat_alt unat_sub word_le_nat_alt not_less)

lemma unat_release:
  "r < held \<Longrightarrow> unat (held - r) = unat held - unat r"
  "\<not> r < held \<Longrightarrow> unat held \<le> unat r" for r held :: u64
  by (simp_all add: unat_sub word_less_nat_alt word_le_nat_alt)

interpretation rt_res: reservation rt_reserve_domain_runtime rt_release_domain_runtime
  dom_rt_budget_ns dom_rt_reserved_ns dom_rt_period_ns
  by unfold_locales
    (auto simp: rt_reserve_domain_runtime_def rt_release_domain_runtime_def invalid_def Let_def
      reserve_within within_reserve unat_release split: if_splits)

interpretation dl_res: reservation dl_reserve_domain_runtime dl_release_domain_runtime
  dom_deadline_budget_ns dom_deadline_reserved_ns dom_deadline_period_ns
  by unfold_locales
    (auto simp: dl_reserve_domain_runtime_def dl_release_domain_runtime_def invalid_def Let_def
      reserve_within within_reserve unat_release split: if_splits)

section \<open>Properties\<close>

text \<open>
  C18. Runtime reservations of a domain balance in both admission-controlled classes: after
  any history of reservations and releases of admitted runtimes, starting with nothing
  reserved, the reserved counter is exactly the sum of the outstanding runtimes and at most
  the budget, and the next reservation succeeds exactly when the period agrees with the
  domain's and the outstanding runtimes leave room for it.
\<close>

theorem reservations_balance:
  assumes "dom_rt_reserved_ns d = 0" "dom_deadline_reserved_ns d = 0"
  shows "(let (d', out) = fold (reservation_step rt_reserve_domain_runtime rt_release_domain_runtime) evs (d, [])
          in unat (dom_rt_reserved_ns d') = sum_list (map unat out)
             \<and> sum_list (map unat out) \<le> unat (dom_rt_budget_ns d)
             \<and> (snd (rt_reserve_domain_runtime d' r p) = Inr () \<longleftrightarrow>
                  dom_rt_budget_ns d \<noteq> 0 \<and> (dom_rt_period_ns d' = 0 \<or> dom_rt_period_ns d' = p)
                  \<and> sum_list (map unat out) + unat r \<le> unat (dom_rt_budget_ns d)))
    \<and> (let (d', out) = fold (reservation_step dl_reserve_domain_runtime dl_release_domain_runtime) evs (d, [])
          in unat (dom_deadline_reserved_ns d') = sum_list (map unat out)
             \<and> sum_list (map unat out) \<le> unat (dom_deadline_budget_ns d)
             \<and> (snd (dl_reserve_domain_runtime d' r p) = Inr () \<longleftrightarrow>
                  dom_deadline_budget_ns d \<noteq> 0 \<and> (dom_deadline_period_ns d' = 0 \<or> dom_deadline_period_ns d' = p)
                  \<and> sum_list (map unat out) + unat r \<le> unat (dom_deadline_budget_ns d)))"
  unfolding Let_def split_beta
  by (rule conjI [OF rt_res.ledger [where evs = evs] dl_res.ledger [where evs = evs]])
    (simp_all add: assms)

theorem reservations_balance_witness:
  "let d = domain_default;
       evs = [Reserve 8000000 100000000, Reserve 15000000 100000000, Reserve 2000000 100000000, Release 8000000]
   in snd (fold (reservation_step rt_reserve_domain_runtime rt_release_domain_runtime) evs (d, [])) = [2000000]
      \<and> dom_rt_reserved_ns (fst (fold (reservation_step rt_reserve_domain_runtime rt_release_domain_runtime)
           evs (d, []))) = 2000000"
proof -
  let ?evs = "[Reserve 8000000 100000000, Reserve 15000000 100000000, Reserve 2000000 100000000, Release 8000000]"
  let ?x = "fold (reservation_step rt_reserve_domain_runtime rt_release_domain_runtime) ?evs (domain_default, [])"
  have "unat (dom_rt_reserved_ns (fst ?x)) = sum_list (map unat (snd ?x))"
    using reservations_balance [of domain_default ?evs] by (simp add: domain_default_def Let_def split_beta)
  moreover have "snd ?x = [2000000]"
    by (simp add: rt_reserve_domain_runtime_def rt_release_domain_runtime_def domain_default_def invalid_def)
  ultimately show ?thesis
    by (simp add: Let_def word_unat_eq_iff)
qed

end
