(* ===== verification/ZX_Sched_Fair.thy ===== *)
theory ZX_Sched_Fair
  imports ZX_Sched_Strand "HOL-Library.Signed_Division"
begin

text \<open>
  The fair scheduling class (\<open>zxfoundation/sched/fair.zcomponent/core.cxx\<close>): virtual runtime
  arithmetic at its machine widths (a signed 64-bit value is a word read by \<^const>\<open>sint\<close>,
  overflow wraps), placement, and the run-queue operations on the deadline-ordered tree.

  The tree is its in-order sequence: the insertion descent goes left of a node exactly when
  the new deadline is smaller, so in a tree ordered by deadline the new node comes behind
  every node whose deadline is not larger; rebalancing keeps the sequence.
\<close>

section \<open>Virtual runtime\<close>

definition NICE_0_WEIGHT :: u32 where "NICE_0_WEIGHT = 1024"
definition WEIGHT_MAX :: u32 where "WEIGHT_MAX = 1024"
definition EEVDF_DEFAULT_SLICE_NS :: u64 where "EEVDF_DEFAULT_SLICE_NS = 40960000"

definition weight_of :: "sched_entity \<Rightarrow> u32" where
  "weight_of se = (if weight se = 0 then NICE_0_WEIGHT else weight se)"

definition calc_delta_fair :: "u64 \<Rightarrow> sched_entity \<Rightarrow> u64" where
  "calc_delta_fair delta se =
     (let w = weight_of se in
      if w = NICE_0_WEIGHT then delta
      else ucast (((ucast delta :: u128) * ucast WEIGHT_MAX) div ucast w))"

definition avg_vruntime :: "u64 \<Rightarrow> i64 \<Rightarrow> u64 \<Rightarrow> u64" where
  "avg_vruntime cfs_min acc weight_acc =
     (if weight_acc = 0 then cfs_min
      else word_of_int (sint acc sdiv uint weight_acc) + cfs_min)"

definition avg_vruntime_add :: "sched_entity \<Rightarrow> u64 \<Rightarrow> i64 \<times> u64 \<Rightarrow> i64 \<times> u64" where
  "avg_vruntime_add se cfs_min a =
     (fst a + ucast (weight_of se) * (vruntime se - cfs_min), snd a + ucast (weight_of se))"

definition avg_vruntime_sub :: "sched_entity \<Rightarrow> u64 \<Rightarrow> i64 \<times> u64 \<Rightarrow> i64 \<times> u64" where
  "avg_vruntime_sub se cfs_min a =
     (let w = ucast (weight_of se) in
      (fst a - w * (vruntime se - cfs_min), if snd a \<ge> w then snd a - w else 0))"

definition update_min_vruntime :: "u64 \<Rightarrow> u64 \<Rightarrow> u64" where
  "update_min_vruntime cfs_min new_floor = (if new_floor > cfs_min then new_floor else cfs_min + 1)"

definition entity_eligible :: "sched_entity \<Rightarrow> u64 \<Rightarrow> bool" where
  "entity_eligible se avg \<longleftrightarrow> sint (vruntime se - avg) \<le> 0"

definition sched_slice :: "sched_entity \<Rightarrow> u32 \<Rightarrow> u64" where
  "sched_slice se nr = (let m = (if nr = 0 then 1 else nr) in
     calc_delta_fair (EEVDF_DEFAULT_SLICE_NS div ucast m) se)"

definition place_entity :: "sched_entity \<Rightarrow> u64 \<Rightarrow> u64 \<Rightarrow> u32 \<Rightarrow> bool \<Rightarrow> sched_entity" where
  "place_entity se avg min_vr nr initial =
     (let off = drop_bit 1 EEVDF_DEFAULT_SLICE_NS;
          se1 = (if initial then
                   let base = (if avg > min_vr then avg else min_vr);
                       v = (if base > off then base - off else 0)
                   in se\<lparr>vruntime := v, lag := v - base\<rparr>
                 else
                   let v = (if vruntime se < min_vr then min_vr else vruntime se)
                   in se\<lparr>vruntime := v, lag := v - avg\<rparr>);
          sl = sched_slice se1 nr
      in se1\<lparr>slice := sl, se_deadline := vruntime se1 + sl\<rparr>)"

definition update_curr :: "sched_entity \<Rightarrow> u64 \<Rightarrow> u64 \<Rightarrow> sched_entity \<times> u64" where
  "update_curr se min_vr delta =
     (if delta = 0 then (se, min_vr)
      else
        let v = vruntime se + calc_delta_fair delta se;
            se1 = se\<lparr>vruntime := v\<rparr>;
            m = (if v > min_vr then update_min_vruntime min_vr v else min_vr)
        in if v \<ge> se_deadline se1 then (se1\<lparr>se_deadline := v + slice se1, lag := v - m\<rparr>, m)
           else (se1, m))"

definition migrate_entity :: "sched_entity \<Rightarrow> u64 \<Rightarrow> u64 \<Rightarrow> sched_entity" where
  "migrate_entity se src_min dst_min =
     (let delta = (if vruntime se > src_min then vruntime se - src_min else 0);
          v = dst_min + delta
      in se\<lparr>vruntime := v, se_deadline := v + slice se, lag := v - dst_min, rel_count := rel_count se + 1\<rparr>)"

definition yield_entity :: "sched_entity \<Rightarrow> u64 \<Rightarrow> sched_entity" where
  "yield_entity se min_vr =
     (let v = (if vruntime se > min_vr then vruntime se - slice se else min_vr)
      in se\<lparr>vruntime := v, se_deadline := v + slice se, lag := v - min_vr\<rparr>)"

definition yield_to_entity :: "sched_entity \<Rightarrow> sched_entity \<Rightarrow> u64 \<Rightarrow> sched_entity" where
  "yield_to_entity y target min_vr =
     (let v = (if vruntime y < vruntime target then
                 let delta = vruntime target - vruntime y;
                     w = vruntime y + delta + 1
                 in if w < min_vr then min_vr else w
               else vruntime y + 1)
      in y\<lparr>vruntime := v, se_deadline := v + slice y, lag := v - min_vr\<rparr>)"

section \<open>Run queue operations\<close>

abbreviation se_of :: "sched_state \<Rightarrow> addr \<Rightarrow> sched_entity" where
  "se_of s t \<equiv> st_se (strands s t)"

definition fair_insert :: "(addr \<Rightarrow> u64) \<Rightarrow> addr \<Rightarrow> u64 \<Rightarrow> addr list \<Rightarrow> addr list" where
  "fair_insert dl t key tree =
     takeWhile (\<lambda>x. \<not> key < dl x) tree @ [t] @ dropWhile (\<lambda>x. \<not> key < dl x) tree"

definition rq_avg :: "run_queue \<Rightarrow> u64" where
  "rq_avg r = avg_vruntime (min_vruntime r) (avg_vruntime_acc r) (avg_weight_acc r)"

definition rq_account :: "(i64 \<times> u64 \<Rightarrow> i64 \<times> u64) \<Rightarrow> run_queue \<Rightarrow> run_queue" where
  "rq_account f r =
     (let a = f (avg_vruntime_acc r, avg_weight_acc r)
      in r\<lparr>avg_vruntime_acc := fst a, avg_weight_acc := snd a\<rparr>)"

definition fair_enqueue :: "nat \<Rightarrow> u16 \<Rightarrow> addr \<Rightarrow> sched_state \<Rightarrow> unit expected \<times> sched_state" where
  "fair_enqueue n q t s =
     (let x = strands s t; r = g_rqs s q in
      if \<not> allow_smt_sibling (st_policy x) \<and> isolation_violation n t (rq_cpu_id r) s
      then (Inl (from_generic invalid_arg), s)
      else
        let initial = (se_deadline (st_se x) = 0);
            se = place_entity (st_se x) (rq_avg r) (min_vruntime r) (nr_running r + 1) initial;
            s1 = upd_strand t (\<lambda>x. x\<lparr>st_se := se, on_rq := True\<rparr>) s;
            r1 = rq_account (avg_vruntime_add se (min_vruntime r)) r
        in (Inr (), upd_rq q (\<lambda>_. r1\<lparr>fair_tree := fair_insert (\<lambda>x. se_deadline (se_of s x)) t (se_deadline se) (fair_tree r),
                                  nr_running := nr_running r + 1\<rparr>) s1))"

definition fair_dequeue :: "u16 \<Rightarrow> addr \<Rightarrow> sched_state \<Rightarrow> sched_state" where
  "fair_dequeue q t s =
     (if \<not> on_rq (strands s t) then s
      else
        let r = g_rqs s q;
            r1 = rq_account (avg_vruntime_sub (se_of s t) (min_vruntime r)) r
        in upd_strand t (\<lambda>x. x\<lparr>on_rq := False\<rparr>)
             (upd_rq q (\<lambda>_. r1\<lparr>fair_tree := removeAll t (fair_tree r), nr_running := nr_running r - 1\<rparr>) s))"

definition fair_pick_next :: "sched_state \<Rightarrow> u16 \<Rightarrow> addr option" where
  "fair_pick_next s q =
     (let r = g_rqs s q in
      case fair_tree r of
        [] \<Rightarrow> None
      | left # _ \<Rightarrow>
          (case find (\<lambda>t. entity_eligible (se_of s t) (rq_avg r)) (fair_tree r) of
             Some t \<Rightarrow> Some t
           | None \<Rightarrow> Some left))"

text \<open>\<open>tick\<close> and \<open>preempt\<close> dereference the owner without a null check.\<close>

definition resched_deref :: "addr \<Rightarrow> sched_state \<Rightarrow> sched_state exec" where
  "resched_deref t s =
     (case st_owner (strands s t) of None \<Rightarrow> Trap | Some d \<Rightarrow> Done (need_resched d s))"

definition fair_tick :: "u16 \<Rightarrow> addr \<Rightarrow> sched_state \<Rightarrow> sched_state exec" where
  "fair_tick q t s =
     (let (se, m) = update_curr (se_of s t) (min_vruntime (g_rqs s q)) EEVDF_DEFAULT_SLICE_NS;
          s1 = upd_rq q (\<lambda>r. r\<lparr>min_vruntime := m\<rparr>) (upd_strand t (\<lambda>x. x\<lparr>st_se := se\<rparr>) s)
      in if se_deadline se \<noteq> se_deadline (se_of s t) then resched_deref t s1 else Done s1)"

definition fair_preempt :: "u16 \<Rightarrow> addr \<Rightarrow> sched_state \<Rightarrow> sched_state exec" where
  "fair_preempt q waking s =
     (case rq_curr (g_rqs s q) of
        None \<Rightarrow> Done s
      | Some c \<Rightarrow> if se_deadline (se_of s waking) < se_deadline (se_of s c) then resched_deref c s else Done s)"

section \<open>Arithmetic\<close>

text \<open>A weight above 1024 slows virtual time down, one below speeds it up; it never overflows 64 bits for weights of at least 1024.\<close>

lemma unat_calc_delta_fair:
  assumes "1024 \<le> unat (weight_of se)"
  shows "unat (calc_delta_fair delta se) = unat delta * 1024 div unat (weight_of se)"
proof (cases "weight_of se = NICE_0_WEIGHT")
  case True
  then show ?thesis by (simp add: calc_delta_fair_def NICE_0_WEIGHT_def)
next
  case False
  let ?w = "unat (weight_of se)"
  have m: "unat ((ucast delta :: u128) * 1024) = unat delta * 1024"
    using unat_widened_mult [of 1024 delta] by simp
  have w: "?w < 2 ^ 32" using unsigned_less [of "weight_of se"] by simp
  have "unat delta * 1024 div ?w \<le> unat delta * 1024 div 1024"
    using assms by (intro div_le_mono2) simp_all
  then have "unat delta * 1024 div ?w < 2 ^ 64"
    using unat_u64_less [of delta] by simp
  then show ?thesis
    using False w by (simp add: calc_delta_fair_def Let_def WEIGHT_MAX_def unsigned_ucast_eq
        take_bit_eq_mod unat_div m)
qed

lemma fair_insert_set [simp]: "set (fair_insert dl t key tree) = insert t (set tree)"
proof -
  have "set tree = set (takeWhile (\<lambda>x. \<not> key < dl x) tree) \<union> set (dropWhile (\<lambda>x. \<not> key < dl x) tree)"
    by (metis set_append takeWhile_dropWhile_id)
  then show ?thesis by (auto simp: fair_insert_def)
qed

lemma fair_insert_length [simp]: "length (fair_insert dl t key tree) = Suc (length tree)"
proof -
  have "length (takeWhile P tree) + length (dropWhile P tree) = length tree" for P
    by (metis length_append takeWhile_dropWhile_id)
  then show ?thesis by (simp add: fair_insert_def)
qed

lemma fair_insert_distinct:
  assumes "distinct tree" "t \<notin> set tree"
  shows "distinct (fair_insert dl t key tree)"
proof -
  let ?P = "\<lambda>x. \<not> key < dl x"
  have "distinct (takeWhile ?P tree @ dropWhile ?P tree)" using assms(1) by simp
  then show ?thesis
    using assms(2) by (auto simp: fair_insert_def simp del: takeWhile_dropWhile_id
        dest: set_takeWhileD set_dropWhileD)
qed

lemma fair_insert_sorted:
  assumes "sorted_wrt (\<lambda>a b. dl a \<le> dl b) tree" "dl t = key"
  shows "sorted_wrt (\<lambda>a b. dl a \<le> dl b) (fair_insert dl t key tree)"
  using assms
proof (induction tree)
  case (Cons a tree)
  show ?case
  proof (cases "key < dl a")
    case True
    then show ?thesis using Cons.prems by (auto simp: fair_insert_def intro: order.trans)
  next
    case False
    have "sorted_wrt (\<lambda>a b. dl a \<le> dl b) (fair_insert dl t key tree)"
      using Cons by simp
    moreover have "dl a \<le> dl x" if "x \<in> set (fair_insert dl t key tree)" for x
      using that Cons.prems False by (auto simp: not_less)
    ultimately show ?thesis using False by (simp add: fair_insert_def)
  qed
qed (simp add: fair_insert_def)

end
