(* ===== verification/ZX_Sched_Class.thy ===== *)
theory ZX_Sched_Class
  imports ZX_Sched_Rt ZX_Sched_Fair
begin

text \<open>
  The class dispatch of the scheduler (\<open>zxfoundation/sched/classed.zcomponent/core.cxx\<close>): the
  effective class of a strand, policy validation and admission, and enqueue, dequeue,
  selection, tick and preemption through the class of a strand. The properties are about
  the composition of the classes: the run queues stay well-formed, selection follows the
  strict class order, and what deadline admission does to its replenishment timer.
\<close>

section \<open>Dispatch\<close>

definition class_of :: "strand \<Rightarrow> sched_class_id" where
  "class_of x =
     (if is_idle_strand x then sc_idle
      else if sp_class_id (st_policy x) = sc_rt \<and> adm_class_id (st_admission x) = sc_rt then sc_rt
      else if sp_class_id (st_policy x) = sc_deadline \<and> adm_class_id (st_admission x) = sc_deadline
        then sc_deadline
      else sc_fair)"

definition validate_policy :: "domain \<Rightarrow> sched_policy \<Rightarrow> sched_admission_result expected" where
  "validate_policy d p =
     (let result = sched_admission_result_default
            \<lparr>preferred_cpu := 0, remote_node_allowed := True,
             smt_sibling_allowed := allow_smt_sibling p, adm_class_id := sp_class_id p\<rparr>;
          admitted = result\<lparr>admitted_runtime_ns := runtime_ns p, admitted_period_ns := period_ns p\<rparr>
      in case sp_class_id p of
           sc_idle \<Rightarrow> if \<not> is_idle_domain d \<or> user_visible p then invalid else Inr result
         | sc_fair \<Rightarrow> if is_idle_domain d then invalid else Inr result
         | sc_rt \<Rightarrow>
             if is_idle_domain d then invalid
             else if rt_priority p = 0 \<or> runtime_ns p = 0 \<or> period_ns p = 0 \<or> runtime_ns p > period_ns p
             then invalid else Inr admitted
         | sc_deadline \<Rightarrow>
             if is_idle_domain d then invalid
             else if runtime_ns p = 0 \<or> deadline_ns p = 0 \<or> period_ns p = 0
               \<or> runtime_ns p > deadline_ns p \<or> deadline_ns p > period_ns p
             then invalid else Inr admitted)"

definition admit_policy ::
  "fnptr \<Rightarrow> nat \<Rightarrow> u16 \<Rightarrow> u64 \<Rightarrow> u64 \<Rightarrow> addr \<Rightarrow> addr \<Rightarrow> sched_policy \<Rightarrow> sched_state \<Rightarrow>
   (sched_admission_result expected \<times> sched_state) exec" where
  "admit_policy cb n this_cpu now_ns stck ow t p s =
     (case sp_class_id p of
        sc_rt \<Rightarrow> rt_admit n ow t p s
      | sc_deadline \<Rightarrow> deadline_admit cb n this_cpu now_ns stck ow t p s
      | _ \<Rightarrow>
          (case validate_policy (domain_at s ow) p of
             Inl e \<Rightarrow> Done (Inl e, s)
           | Inr r \<Rightarrow> Done (Inr r, upd_strand t (\<lambda>x. x\<lparr>st_policy := p, st_admission := r\<rparr>) s)))"

definition class_enqueue :: "nat \<Rightarrow> u16 \<Rightarrow> addr \<Rightarrow> sched_state \<Rightarrow> (unit expected \<times> sched_state) exec" where
  "class_enqueue n q t s =
     (case class_of (strands s t) of
        sc_deadline \<Rightarrow> deadline_enqueue n q t s
      | sc_rt \<Rightarrow> Done (rt_enqueue n q t s)
      | sc_fair \<Rightarrow> Done (fair_enqueue n q t s)
      | sc_idle \<Rightarrow> Done (Inr (), s))"

definition class_dequeue :: "nat \<Rightarrow> u16 \<Rightarrow> addr \<Rightarrow> sched_state \<Rightarrow> sched_state exec" where
  "class_dequeue n q t s =
     (case class_of (strands s t) of
        sc_deadline \<Rightarrow> deadline_dequeue n q t s
      | sc_idle \<Rightarrow> Done s
      | sc_rt \<Rightarrow> Done (rt_dequeue n q t s)
      | sc_fair \<Rightarrow> Done (fair_dequeue q t s))"

definition select_next :: "u16 \<Rightarrow> sched_state \<Rightarrow> addr option exec" where
  "select_next q s =
     exec_bind (deadline_pick_next s q)
       (\<lambda>d. case d of
          Some t \<Rightarrow> Done (Some t)
        | None \<Rightarrow>
            (case rt_pick_next s q of
               Some t \<Rightarrow> Done (Some t)
             | None \<Rightarrow>
                 (case fair_pick_next s q of
                    Some t \<Rightarrow> Done (Some t)
                  | None \<Rightarrow> Done (idle_strand (g_rqs s q)))))"

definition class_tick :: "nat \<Rightarrow> u16 \<Rightarrow> addr \<Rightarrow> sched_state \<Rightarrow> sched_state exec" where
  "class_tick n q t s =
     (case class_of (strands s t) of
        sc_deadline \<Rightarrow> deadline_tick n q t s
      | sc_idle \<Rightarrow> Done s
      | sc_rt \<Rightarrow> rt_tick n q t s
      | sc_fair \<Rightarrow> fair_tick q t s)"

definition class_check_preempt :: "u16 \<Rightarrow> addr \<Rightarrow> sched_state \<Rightarrow> sched_state exec" where
  "class_check_preempt q waking s =
     (case class_of (strands s waking) of
        sc_deadline \<Rightarrow> Done (deadline_check_preempt q waking s)
      | sc_idle \<Rightarrow> Done s
      | sc_rt \<Rightarrow> Done (rt_check_preempt q waking s)
      | sc_fair \<Rightarrow> fair_preempt q waking s)"

section \<open>Well-formed run queues\<close>

text \<open>
  \<open>queue_of c r\<close> is the queue of class \<open>c\<close>. \<open>queues_wf\<close>: every queue holds, without
  duplicates, exactly the strands that are marked queued, of its class and on no other run
  queue (\<open>home\<close> is the run queue a queued strand is on), every deadline strand in a queue
  has a body, and \<open>nr_running\<close> counts the queued strands.
\<close>

fun queue_of :: "sched_class_id \<Rightarrow> run_queue \<Rightarrow> addr list" where
  "queue_of sc_deadline r = deadline_queue r"
| "queue_of sc_rt r = rt_queue r"
| "queue_of sc_fair r = fair_tree r"
| "queue_of sc_idle r = []"

definition queued_count :: "run_queue \<Rightarrow> nat" where
  "queued_count r = length (deadline_queue r) + length (rt_queue r) + length (fair_tree r)"

definition queues_wf :: "(addr \<Rightarrow> u16) \<Rightarrow> sched_state \<Rightarrow> bool" where
  "queues_wf home s \<longleftrightarrow>
     (\<forall>q c. distinct (queue_of c (g_rqs s q)))
     \<and> (\<forall>q c t. t \<in> set (queue_of c (g_rqs s q)) \<longleftrightarrow>
          on_rq (strands s t) \<and> home t = q \<and> class_of (strands s t) = c \<and> c \<noteq> sc_idle)
     \<and> (\<forall>t. on_rq (strands s t) \<longrightarrow> class_of (strands s t) \<noteq> sc_idle)
     \<and> (\<forall>q t. t \<in> set (deadline_queue (g_rqs s q)) \<longrightarrow> st_body (strands s t) \<noteq> None)
     \<and> (\<forall>q. unat (nr_running (g_rqs s q)) = queued_count (g_rqs s q))"

lemma class_of_on_rq [simp]: "class_of (x\<lparr>on_rq := b\<rparr>) = class_of x"
  by (simp add: class_of_def is_idle_strand_def)

lemma class_of_se [simp]: "class_of (x\<lparr>st_se := e\<rparr>) = class_of x"
  by (simp add: class_of_def is_idle_strand_def)

lemma set_index_simps [simp]:
  "strands (set_cpupri n c a b s) = strands s" "g_rqs (set_cpupri n c a b s) = g_rqs s"
  "strands (set_cpudl f s) = strands s" "g_rqs (set_cpudl f s) = g_rqs s"
  by (simp_all add: set_cpupri_def set_cpudl_def)

lemma rq_account_simps [simp]:
  "rt_queue (rq_account f r) = rt_queue r" "deadline_queue (rq_account f r) = deadline_queue r"
  "fair_tree (rq_account f r) = fair_tree r" "nr_running (rq_account f r) = nr_running r"
  "min_vruntime (rq_account f r) = min_vruntime r"
  by (simp_all add: rq_account_def Let_def)

lemma queued_count_change:
  assumes "c \<noteq> sc_idle" "\<And>d. d \<noteq> c \<Longrightarrow> length (queue_of d r') = length (queue_of d r)"
  shows "queued_count r' + length (queue_of c r) = queued_count r + length (queue_of c r')"
  using assms(1) assms(2) [of sc_deadline] assms(2) [of sc_rt] assms(2) [of sc_fair]
  by (cases c) (simp_all add: queued_count_def)

lemma wf_insert:
  assumes wf: "queues_wf home s" and off: "\<not> on_rq (strands s t)"
    and c: "class_of (strands s t) = c" "c \<noteq> sc_idle"
    and x: "on_rq x" "class_of x = c" "st_body x = st_body (strands s t)"
    and body: "c = sc_deadline \<Longrightarrow> st_body x \<noteq> None"
    and ts: "strands s' = (strands s)(t := x)"
    and h: "distinct h" "set h = insert t (set (queue_of c (g_rqs s q)))"
      "length h = Suc (length (queue_of c (g_rqs s q)))"
    and qs: "\<And>c'. queue_of c' (g_rqs s' q) = (if c' = c then h else queue_of c' (g_rqs s q))"
    and other: "\<And>p. p \<noteq> q \<Longrightarrow> g_rqs s' p = g_rqs s p"
    and nr: "nr_running (g_rqs s' q) = nr_running (g_rqs s q) + 1"
    and room: "unat (nr_running (g_rqs s q)) < 2 ^ 32 - 1"
  shows "queues_wf (home(t := q)) s'"
proof -
  have mem: "u \<in> set (queue_of d (g_rqs s p)) \<longleftrightarrow>
      on_rq (strands s u) \<and> home u = p \<and> class_of (strands s u) = d \<and> d \<noteq> sc_idle" for u d p
    using wf by (simp add: queues_wf_def)
  have q': "queue_of d (g_rqs s' p) = (if p = q \<and> d = c then h else queue_of d (g_rqs s p))" for d p
    using qs other by (cases "p = q") simp_all
  have "unat (nr_running (g_rqs s' p)) = queued_count (g_rqs s' p)" for p
  proof (cases "p = q")
    case True
    have "unat (nr_running (g_rqs s q)) = queued_count (g_rqs s q)"
      using wf by (simp add: queues_wf_def)
    moreover have "unat (nr_running (g_rqs s q) + 1) = Suc (unat (nr_running (g_rqs s q)))"
      using room by (simp add: unat_word_ariths(1))
    moreover have "queued_count (g_rqs s' q) + length (queue_of c (g_rqs s q))
        = queued_count (g_rqs s q) + length (queue_of c (g_rqs s' q))"
      by (rule queued_count_change) (use c(2) qs in simp_all)
    ultimately show ?thesis
      using h(3) qs [of c] True nr by simp
  qed (use wf other in \<open>simp add: queues_wf_def\<close>)
  moreover have "distinct (queue_of d (g_rqs s' p))" for d p
    using wf h(1) by (simp add: q' queues_wf_def)
  moreover have "u \<in> set (queue_of d (g_rqs s' p)) \<longleftrightarrow>
      on_rq (strands s' u) \<and> (home(t := q)) u = p \<and> class_of (strands s' u) = d \<and> d \<noteq> sc_idle" for u d p
    using mem [of u d p] off c x h(2) by (cases "u = t") (auto simp: q' ts)
  moreover have "\<forall>u. on_rq (strands s' u) \<longrightarrow> class_of (strands s' u) \<noteq> sc_idle"
    using wf c x by (auto simp: ts queues_wf_def)
  moreover have "st_body (strands s' u) \<noteq> None" if "u \<in> set (deadline_queue (g_rqs s' p))" for u p
  proof -
    have "u \<in> set (queue_of sc_deadline (g_rqs s' p))" using that by simp
    then have "u = t \<and> c = sc_deadline \<or> u \<in> set (deadline_queue (g_rqs s p))"
      using h(2) by (auto simp: q' split: if_splits)
    then show ?thesis using wf body x(3) by (auto simp: ts queues_wf_def)
  qed
  ultimately show ?thesis unfolding queues_wf_def by blast
qed

lemma wf_remove_count:
  assumes wf: "queues_wf home s" and on: "on_rq (strands s t)" "home t = q"
    and qs: "\<And>c p. queue_of c (g_rqs s' p) = removeAll t (queue_of c (g_rqs s p))"
  shows "queued_count (g_rqs s p) = (if p = q then Suc (queued_count (g_rqs s' p)) else queued_count (g_rqs s' p))"
proof -
  let ?c = "class_of (strands s t)"
  have c: "?c \<noteq> sc_idle" using wf on by (simp add: queues_wf_def)
  have dist: "distinct (queue_of d (g_rqs s p))" for d
    using wf by (simp add: queues_wf_def)
  have mem: "t \<in> set (queue_of d (g_rqs s p)) \<longleftrightarrow> p = q \<and> d = ?c" for d
    using wf on c by (auto simp: queues_wf_def)
  have "length (queue_of d (g_rqs s p)) =
      (if p = q \<and> d = ?c then Suc (length (queue_of d (g_rqs s' p))) else length (queue_of d (g_rqs s' p)))" for d
    using mem [of d] dist [of d] length_pos_if_in_set [of t "queue_of d (g_rqs s p)"]
    by (auto simp: qs distinct_remove1_removeAll [symmetric] length_remove1)
  moreover from this have "queued_count (g_rqs s' p) + length (queue_of ?c (g_rqs s p))
      = queued_count (g_rqs s p) + length (queue_of ?c (g_rqs s' p))"
    by (intro queued_count_change c) simp
  ultimately show ?thesis by (simp split: if_splits)
qed

lemma wf_remove:
  assumes wf: "queues_wf home s" and on: "on_rq (strands s t)" "home t = q"
    and x: "\<not> on_rq x" "class_of x = class_of (strands s t)" "st_body x = st_body (strands s t)"
    and ts: "strands s' = (strands s)(t := x)"
    and qs: "\<And>c p. queue_of c (g_rqs s' p) = removeAll t (queue_of c (g_rqs s p))"
    and nr: "\<And>p. nr_running (g_rqs s' p) = (if p = q then nr_running (g_rqs s q) - 1 else nr_running (g_rqs s p))"
  shows "queues_wf home s'"
proof -
  have mem: "u \<in> set (queue_of d (g_rqs s p)) \<longleftrightarrow>
      on_rq (strands s u) \<and> home u = p \<and> class_of (strands s u) = d \<and> d \<noteq> sc_idle" for u d p
    using wf by (simp add: queues_wf_def)
  have dist: "distinct (queue_of d (g_rqs s p))" for d p
    using wf by (simp add: queues_wf_def)
  have cnt: "unat (nr_running (g_rqs s p)) = queued_count (g_rqs s p)" for p
    using wf by (simp add: queues_wf_def)
  note change = wf_remove_count [OF wf on qs]
  have "nr_running (g_rqs s q) \<noteq> 0" using cnt [of q] change [of q] by auto
  then have "unat (nr_running (g_rqs s' p)) = queued_count (g_rqs s' p)" for p
    using cnt [of p] change [of p] by (cases "p = q") (simp_all add: nr unat_minus_one)
  moreover have "u \<in> set (queue_of d (g_rqs s' p)) \<longleftrightarrow>
      on_rq (strands s' u) \<and> home u = p \<and> class_of (strands s' u) = d \<and> d \<noteq> sc_idle" for u d p
    using mem [of u d p] x by (cases "u = t") (auto simp: qs ts)
  moreover have "distinct (queue_of d (g_rqs s' p))" for d p
    using dist by (simp add: qs distinct_removeAll)
  moreover have "\<forall>u. on_rq (strands s' u) \<longrightarrow> class_of (strands s' u) \<noteq> sc_idle"
    using wf x by (auto simp: ts queues_wf_def)
  moreover have "st_body (strands s' u) \<noteq> None" if "u \<in> set (deadline_queue (g_rqs s' p))" for u p
  proof -
    have "u \<in> set (queue_of sc_deadline (g_rqs s' p))" using that by simp
    then show ?thesis using wf x(3) by (auto simp: qs ts queues_wf_def)
  qed
  ultimately show ?thesis unfolding queues_wf_def by blast
qed

lemma rt_enqueue_wf:
  assumes wf: "queues_wf home s" and off: "\<not> on_rq (strands s t)" and c: "class_of (strands s t) = sc_rt"
    and room: "unat (nr_running (g_rqs s q)) < 2 ^ 32 - 1" and e: "rt_enqueue n q t s = (r, s')"
  shows "r \<noteq> Inr () \<and> s' = s \<or> r = Inr () \<and> on_rq (strands s' t) \<and> queues_wf (home(t := q)) s'"
proof (cases "r = Inr ()")
  case True
  have ts: "strands s' = (strands s)(t := (strands s t)\<lparr>on_rq := True\<rparr>)"
    and q: "g_rqs s' = (g_rqs s)(q := (g_rqs s q)\<lparr>rt_queue := rt_queue (g_rqs s q) @ [t],
              nr_running := nr_running (g_rqs s q) + 1\<rparr>)"
    using e off True by (auto simp: rt_enqueue_def Let_def invalid_def split: if_splits)
  have t: "t \<notin> set (queue_of sc_rt (g_rqs s q))"
    using wf off by (auto simp: queues_wf_def simp del: queue_of.simps)
  have "distinct (queue_of sc_rt (g_rqs s q))" using wf unfolding queues_wf_def by blast
  have qs: "queue_of c' (g_rqs s' q) = (if c' = sc_rt then rt_queue (g_rqs s q) @ [t] else queue_of c' (g_rqs s q))" for c'
    by (cases c') (simp_all add: q)
  have "queues_wf (home(t := q)) s'"
    by (rule wf_insert [OF wf off c, where x = "(strands s t)\<lparr>on_rq := True\<rparr>" and h = "rt_queue (g_rqs s q) @ [t]"])
      (use c ts qs q t room \<open>distinct _\<close> in simp_all)
  then show ?thesis using True ts by simp
qed (use e off in \<open>auto simp: rt_enqueue_def Let_def split: if_splits\<close>)

lemma fair_enqueue_wf:
  assumes wf: "queues_wf home s" and off: "\<not> on_rq (strands s t)" and c: "class_of (strands s t) = sc_fair"
    and room: "unat (nr_running (g_rqs s q)) < 2 ^ 32 - 1" and e: "fair_enqueue n q t s = (r, s')"
  shows "r \<noteq> Inr () \<and> s' = s \<or> r = Inr () \<and> on_rq (strands s' t) \<and> queues_wf (home(t := q)) s'"
proof (cases "r = Inr ()")
  case True
  define se where "se = place_entity (se_of s t) (rq_avg (g_rqs s q)) (min_vruntime (g_rqs s q))
      (nr_running (g_rqs s q) + 1) (se_deadline (se_of s t) = 0)"
  define h where "h = fair_insert (\<lambda>x. se_deadline (se_of s x)) t (se_deadline se) (fair_tree (g_rqs s q))"
  let ?x = "(strands s t)\<lparr>st_se := se, on_rq := True\<rparr>"
  have ts: "strands s' = (strands s)(t := ?x)"
    and q: "g_rqs s' = (g_rqs s)(q := (rq_account (avg_vruntime_add se (min_vruntime (g_rqs s q))) (g_rqs s q))
              \<lparr>fair_tree := h, nr_running := nr_running (g_rqs s q) + 1\<rparr>)"
    using e off True by (auto simp: fair_enqueue_def Let_def se_def h_def split: if_splits)
  have t: "t \<notin> set (queue_of sc_fair (g_rqs s q))"
    using wf off by (auto simp: queues_wf_def simp del: queue_of.simps)
  have "distinct (queue_of sc_fair (g_rqs s q))" using wf unfolding queues_wf_def by blast
  then have h: "distinct h" "set h = insert t (set (queue_of sc_fair (g_rqs s q)))"
    "length h = Suc (length (queue_of sc_fair (g_rqs s q)))"
    using t by (simp_all add: h_def fair_insert_distinct)
  have qs: "queue_of c' (g_rqs s' q) = (if c' = sc_fair then h else queue_of c' (g_rqs s q))" for c'
    by (cases c') (simp_all add: q)
  have "queues_wf (home(t := q)) s'"
    by (rule wf_insert [OF wf off c, where x = ?x and h = h])
      (use c ts qs q h room in simp_all)
  then show ?thesis using True ts by simp
qed (use e off in \<open>auto simp: fair_enqueue_def Let_def split: if_splits\<close>)

lemma deadline_enqueue_wf:
  assumes wf: "queues_wf home s" and off: "\<not> on_rq (strands s t)" and c: "class_of (strands s t) = sc_deadline"
    and room: "unat (nr_running (g_rqs s q)) < 2 ^ 32 - 1" and e: "deadline_enqueue n q t s = Done (r, s')"
  shows "r \<noteq> Inr () \<and> s' = s \<or> r = Inr () \<and> on_rq (strands s' t) \<and> queues_wf (home(t := q)) s'"
proof (cases "r = Inr ()")
  case True
  have body: "st_body (strands s t) \<noteq> None"
    and ts: "strands s' = (strands s)(t := (strands s t)\<lparr>on_rq := True\<rparr>)"
    and q: "g_rqs s' = (g_rqs s)(q := (g_rqs s q)\<lparr>deadline_queue := deadline_queue (g_rqs s q) @ [t],
              nr_running := nr_running (g_rqs s q) + 1\<rparr>)"
    using e off True
    by (auto simp: deadline_enqueue_def Let_def invalid_def exec_bind_Done_iff earliest_queued_def
        has_bodies_def split: if_splits)
  have t: "t \<notin> set (queue_of sc_deadline (g_rqs s q))"
    using wf off by (auto simp: queues_wf_def simp del: queue_of.simps)
  have "distinct (queue_of sc_deadline (g_rqs s q))" using wf unfolding queues_wf_def by blast
  have qs: "queue_of c' (g_rqs s' q) = (if c' = sc_deadline then deadline_queue (g_rqs s q) @ [t] else queue_of c' (g_rqs s q))" for c'
    by (cases c') (simp_all add: q)
  have "queues_wf (home(t := q)) s'"
    by (rule wf_insert [OF wf off c, where x = "(strands s t)\<lparr>on_rq := True\<rparr>" and h = "deadline_queue (g_rqs s q) @ [t]"])
      (use c ts qs q t room body \<open>distinct _\<close> in simp_all)
  then show ?thesis using True ts by simp
qed (use e off in \<open>auto simp: deadline_enqueue_def Let_def exec_bind_Done_iff split: if_splits\<close>)

lemma elsewhere:
  assumes "queues_wf home s" "on_rq (strands s t)" "home t = q" "p \<noteq> q"
  shows "t \<notin> set (queue_of d (g_rqs s p))"
proof -
  have "t \<in> set (queue_of d (g_rqs s p)) \<longrightarrow> home t = p"
    using assms(1) unfolding queues_wf_def by blast
  then show ?thesis using assms(3,4) by auto
qed

lemma linked_elsewhere:
  assumes wf: "queues_wf home s" and on: "on_rq (strands s t)" "home t = q" and c: "class_of (strands s t) = c"
  shows "\<And>d p. d \<noteq> c \<Longrightarrow> removeAll t (queue_of d (g_rqs s p)) = queue_of d (g_rqs s p)"
    and "nr_running (g_rqs s q) \<noteq> 0"
proof -
  have mem: "u \<in> set (queue_of d (g_rqs s p)) \<longleftrightarrow>
      on_rq (strands s u) \<and> home u = p \<and> class_of (strands s u) = d \<and> d \<noteq> sc_idle" for u d p
    using wf unfolding queues_wf_def by blast
  show "removeAll t (queue_of d (g_rqs s p)) = queue_of d (g_rqs s p)" if "d \<noteq> c" for d p
    using mem [of t d p] c that by (intro removeAll_id) auto
  have "c \<noteq> sc_idle" using wf on c by (auto simp: queues_wf_def)
  then have "queue_of c (g_rqs s q) \<noteq> []" using mem [of t c q] on c by auto
  then have "queued_count (g_rqs s q) \<noteq> 0" by (cases c) (simp_all add: queued_count_def)
  moreover have "unat (nr_running (g_rqs s q)) = queued_count (g_rqs s q)"
    using wf by (simp add: queues_wf_def)
  ultimately show "nr_running (g_rqs s q) \<noteq> 0" by auto
qed

lemma rt_dequeue_wf:
  assumes wf: "queues_wf home s" and on: "on_rq (strands s t)" "home t = q" and c: "class_of (strands s t) = sc_rt"
  shows "queues_wf home (rt_dequeue n q t s) \<and> \<not> on_rq (strands (rt_dequeue n q t s) t)"
proof -
  let ?s = "rt_dequeue n q t s"
  have fields: "strands ?s = (strands s)(t := (strands s t)\<lparr>on_rq := False\<rparr>)"
    "rt_queue (g_rqs ?s p) = removeAll t (rt_queue (g_rqs s p))"
    "deadline_queue (g_rqs ?s p) = removeAll t (deadline_queue (g_rqs s p))"
    "fair_tree (g_rqs ?s p) = fair_tree (g_rqs s p)"
    "nr_running (g_rqs ?s p) = (if p = q then (if nr_running (g_rqs s q) \<noteq> 0 then nr_running (g_rqs s q) - 1 else 0)
       else nr_running (g_rqs s p))" for p
    using on by (simp_all add: rt_dequeue_def Let_def)
  note rest = linked_elsewhere [OF wf on c]
  have qs: "queue_of d (g_rqs ?s p) = removeAll t (queue_of d (g_rqs s p))" for d p
    using rest(1) [of sc_fair p] by (cases d) (simp_all add: fields)
  show ?thesis
    using wf_remove [OF wf on _ _ _ fields(1) qs] rest(2) by (simp add: fields)
qed

lemma deadline_dequeue_wf:
  assumes wf: "queues_wf home s" and on: "on_rq (strands s t)" "home t = q"
    and c: "class_of (strands s t) = sc_deadline" and d: "deadline_dequeue n q t s = Done s'"
  shows "queues_wf home s' \<and> \<not> on_rq (strands s' t)"
proof -
  have fields: "strands s' = (strands s)(t := (strands s t)\<lparr>on_rq := False\<rparr>)"
    "rt_queue (g_rqs s' p) = removeAll t (rt_queue (g_rqs s p))"
    "deadline_queue (g_rqs s' p) = removeAll t (deadline_queue (g_rqs s p))"
    "fair_tree (g_rqs s' p) = fair_tree (g_rqs s p)"
    "nr_running (g_rqs s' p) = (if p = q then (if nr_running (g_rqs s q) \<noteq> 0 then nr_running (g_rqs s q) - 1 else 0)
       else nr_running (g_rqs s p))" for p
    using on d by (auto simp: deadline_dequeue_def Let_def exec_bind_Done_iff)
  note rest = linked_elsewhere [OF wf on c]
  have qs: "queue_of d (g_rqs s' p) = removeAll t (queue_of d (g_rqs s p))" for d p
    using rest(1) [of sc_fair p] by (cases d) (simp_all add: fields)
  show ?thesis
    using wf_remove [OF wf on _ _ _ fields(1) qs] rest(2) by (simp add: fields)
qed

lemma fair_dequeue_wf:
  assumes wf: "queues_wf home s" and on: "on_rq (strands s t)" "home t = q" and c: "class_of (strands s t) = sc_fair"
  shows "queues_wf home (fair_dequeue q t s) \<and> \<not> on_rq (strands (fair_dequeue q t s) t)"
proof -
  let ?s = "fair_dequeue q t s"
  have fields: "strands ?s = (strands s)(t := (strands s t)\<lparr>on_rq := False\<rparr>)"
    "rt_queue (g_rqs ?s p) = rt_queue (g_rqs s p)"
    "deadline_queue (g_rqs ?s p) = deadline_queue (g_rqs s p)"
    "fair_tree (g_rqs ?s p) = (if p = q then removeAll t (fair_tree (g_rqs s p)) else fair_tree (g_rqs s p))"
    "nr_running (g_rqs ?s p) = (if p = q then nr_running (g_rqs s q) - 1 else nr_running (g_rqs s p))" for p
    using on by (simp_all add: fair_dequeue_def Let_def)
  have away: "t \<notin> set (fair_tree (g_rqs s p))" if "p \<noteq> q" for p
    using elsewhere [OF wf on, of p sc_fair] that by simp
  note rest = linked_elsewhere [OF wf on c]
  have qs: "queue_of d (g_rqs ?s p) = removeAll t (queue_of d (g_rqs s p))" for d p
    using rest(1) [of sc_rt p] rest(1) [of sc_deadline p] away [of p] by (cases d) (simp_all add: fields)
  show ?thesis
    using wf_remove [OF wf on _ _ _ fields(1) qs] by (simp add: fields)
qed

section \<open>Selection\<close>

fun class_rank :: "sched_class_id \<Rightarrow> nat" where
  "class_rank sc_idle = 0"
| "class_rank sc_fair = 1"
| "class_rank sc_rt = 2"
| "class_rank sc_deadline = 3"

lemma rt_pick_next_find:
  "rt_pick_next s q = find (\<lambda>t. \<forall>u \<in> set (rt_queue (g_rqs s q)). rt_prio s u \<le> rt_prio s t) (rt_queue (g_rqs s q))"
proof -
  have key: "(rt_prio s b < rt_prio s c) = (- uint (rt_prio s c) < - uint (rt_prio s b))"
    "(rt_prio s b \<le> rt_prio s c) = (- uint (rt_prio s c) \<le> - uint (rt_prio s b))" for b c
    by (simp_all add: word_less_def word_le_def)
  show ?thesis
    unfolding rt_pick_next_def key by (rule first_best_find)
qed

lemma select_next_cases:
  assumes "has_bodies s (deadline_queue (g_rqs s q))"
  shows "select_next q s = Done (let r = g_rqs s q in
      (if deadline_queue r \<noteq> []
       then find (\<lambda>t. \<forall>u \<in> set (deadline_queue r). abs_deadline s t \<le> abs_deadline s u) (deadline_queue r)
       else if rt_queue r \<noteq> []
       then find (\<lambda>t. \<forall>u \<in> set (rt_queue r). rt_prio s u \<le> rt_prio s t) (rt_queue r)
       else if fair_tree r \<noteq> []
       then Some (case find (\<lambda>t. entity_eligible (se_of s t) (rq_avg r)) (fair_tree r) of
                    Some t \<Rightarrow> t | None \<Rightarrow> hd (fair_tree r))
       else idle_strand r))"
proof -
  have d: "deadline_pick_next s q = Done (find (\<lambda>t. \<forall>u \<in> set (deadline_queue (g_rqs s q)).
      abs_deadline s t \<le> abs_deadline s u) (deadline_queue (g_rqs s q)))" (is "_ = Done ?d")
    using assms by (simp add: deadline_pick_next_def first_best_find Let_def)
  have dn: "?d = None \<longleftrightarrow> deadline_queue (g_rqs s q) = []"
    by (simp flip: first_best_find)
  have rn: "rt_pick_next s q = None \<longleftrightarrow> rt_queue (g_rqs s q) = []"
    by (simp add: rt_pick_next_def)
  have f: "fair_pick_next s q = (if fair_tree (g_rqs s q) = [] then None else
      Some (case find (\<lambda>t. entity_eligible (se_of s t) (rq_avg (g_rqs s q))) (fair_tree (g_rqs s q)) of
              Some t \<Rightarrow> t | None \<Rightarrow> hd (fair_tree (g_rqs s q))))"
    by (cases "fair_tree (g_rqs s q)") (auto simp: fair_pick_next_def Let_def split: option.splits)
  show ?thesis
    using dn rn unfolding select_next_def d f Let_def rt_pick_next_find [symmetric]
    by (cases ?d; cases "rt_pick_next s q") simp_all
qed

lemma select_next_picks:
  assumes "has_bodies s (deadline_queue (g_rqs s q))" "queue_of c (g_rqs s q) \<noteq> []"
    and none: "\<And>d. class_rank c < class_rank d \<Longrightarrow> queue_of d (g_rqs s q) = []"
  shows "\<exists>t. select_next q s = Done (Some t) \<and> t \<in> set (queue_of c (g_rqs s q))"
proof -
  have found: "find P xs = Some t \<Longrightarrow> t \<in> set xs" for P t and xs :: "addr list"
    by (auto simp: find_Some_iff)
  have dl: "deadline_pick_next s q = Done d \<Longrightarrow> d = None \<longleftrightarrow> deadline_queue (g_rqs s q) = []"
    "deadline_pick_next s q = Done (Some t) \<Longrightarrow> t \<in> set (deadline_queue (g_rqs s q))"
    "deadline_pick_next s q \<noteq> Trap" for d t
    using assms(1) by (auto simp: deadline_pick_next_def Let_def dest: first_best_member split: if_splits)
  have rt: "rt_pick_next s q = None \<longleftrightarrow> rt_queue (g_rqs s q) = []"
    "rt_pick_next s q = Some t \<Longrightarrow> t \<in> set (rt_queue (g_rqs s q))" for t
    by (auto simp: rt_pick_next_def dest: first_best_member)
  have fair: "fair_pick_next s q = None \<longleftrightarrow> fair_tree (g_rqs s q) = []"
    "fair_pick_next s q = Some t \<Longrightarrow> t \<in> set (fair_tree (g_rqs s q))" for t
    by (auto simp: fair_pick_next_def Let_def simp del: find.simps dest!: found split: list.splits option.splits)
  show ?thesis
    using none [of sc_deadline] none [of sc_rt] assms(2) dl rt fair
    by (cases c) (auto simp: select_next_def exec_bind_def split: exec.splits option.splits)
qed

lemma top_class:
  "queue_of d r \<noteq> [] \<Longrightarrow> \<exists>c. queue_of c r \<noteq> [] \<and> class_rank d \<le> class_rank c
     \<and> (\<forall>e. class_rank c < class_rank e \<longrightarrow> queue_of e r = [])"
proof (induction "3 - class_rank d" arbitrary: d rule: less_induct)
  case less
  show ?case
  proof (cases "\<forall>e. class_rank d < class_rank e \<longrightarrow> queue_of e r = []")
    case False
    then obtain e where e: "class_rank d < class_rank e" "queue_of e r \<noteq> []" by blast
    have "class_rank e \<le> 3" by (cases e) simp_all
    then show ?thesis using less.hyps [of e] e by fastforce
  qed (use less.prems in blast)
qed

lemma arm_replenishment_effect:
  "let s' = arm_replenishment cb this_cpu now_ns stck t b s in
     g_heaps s' = g_heaps s \<and> comparator s' = comparator s
     \<and> (\<exists>b'. st_body (strands s' t) = Some b' \<and> armed (timers s' (cbs_timer (body_cbs b'))))"
  by (simp add: arm_replenishment_def cbs_init_def cbs_install_timer_def timer_add_def set_timer_def
      upd_strand_def Let_def)

section \<open>Properties\<close>

text \<open>An empty scheduler: every strand is a fair strand off the queues.\<close>

definition ex_strand :: strand where
  "ex_strand =
     \<lparr>st_owner = None, st_substate = ss_runnable, st_cpu = 0, on_rq = False, st_flags = 0,
      st_se = \<lparr>vruntime = 0, se_deadline = 0, slice = 0, lag = 0, weight = 1024, rel_count = 0\<rparr>,
      st_body = None, st_policy = sched_policy_default, st_admission = sched_admission_result_default\<rparr>"

definition ex_rq :: run_queue where
  "ex_rq =
     \<lparr>nr_running = 0, rq_curr = None, idle_strand = None, fair_tree = [], min_vruntime = 0,
      avg_vruntime_acc = 0, avg_weight_acc = 0, rt_queue = [], deadline_queue = [], rq_cpu_id = 0,
      rt_bw = \<lparr>bw_period_ns = 0, bw_runtime_ns = 0, bw_time_ns = 0, bw_period_start_ns = 0,
              bw_timer = 0, rt_throttled = False\<rparr>\<rparr>"

definition ex_sched :: sched_state where
  "ex_sched =
     \<lparr>timers = (\<lambda>_. \<lparr>deadline_tod = 0, interval_tod = 0, callback = None, cb_data = None,
         timer_mode = oneshot, armed = False, timer_cpu = 0\<rparr>),
      g_heaps = (\<lambda>_. []), comparator = (\<lambda>_. 0), strands = (\<lambda>_. ex_strand),
      domain_at = (\<lambda>_. domain_default), g_rqs = (\<lambda>_. ex_rq),
      g_cpupri = \<lparr>pri_mask = [], free_mask = [], g_cpu_top_pri = []\<rparr>, g_cpudl = cpudl_init 1,
      g_topology = \<lparr>g_cpu_records = [], g_node_masks = [], g_core_siblings = [], g_remote_mask = [],
                    cpu_percpu = (\<lambda>_. None)\<rparr>\<rparr>"

lemma ex_sched_wf: "queues_wf (\<lambda>_. 0) ex_sched"
proof -
  have "queue_of c ex_rq = []" for c by (cases c) (simp_all add: ex_rq_def)
  moreover have "\<not> on_rq ex_strand" by (simp add: ex_strand_def)
  moreover have "unat (nr_running ex_rq) = queued_count ex_rq" by (simp add: ex_rq_def queued_count_def)
  moreover have "deadline_queue ex_rq = []" by (simp add: ex_rq_def)
  ultimately show ?thesis by (simp add: queues_wf_def ex_sched_def)
qed

lemma ex_class: "class_of (strands ex_sched t) = sc_fair" "\<not> on_rq (strands ex_sched t)"
  by (simp_all add: class_of_def is_idle_strand_def ex_sched_def ex_strand_def sched_policy_default_def)

text \<open>
  C4. The run queues are well-typed and stay so: every queued strand is linked exactly once,
  in the queue of its effective class on its own run queue, a linked deadline strand has its
  body, and the running count is the number of linked strands. Enqueueing an unqueued strand
  through its class either fails and changes nothing or links it (an idle strand is left
  alone); dequeueing a strand of the run queue unlinks it, and dequeueing one that is not
  queued changes nothing.
\<close>

theorem run_queues_well_formed:
  assumes "queues_wf home s" "unat (nr_running (g_rqs s q)) < 2 ^ 32 - 1"
  shows "(\<not> on_rq (strands s t) \<and> class_enqueue n q t s = Done (r, s') \<longrightarrow>
            (r \<noteq> Inr () \<or> class_of (strands s t) = sc_idle) \<and> s' = s
            \<or> r = Inr () \<and> on_rq (strands s' t) \<and> queues_wf (home(t := q)) s')
    \<and> (home t = q \<and> class_dequeue n q t s = Done s' \<longrightarrow>
            queues_wf home s' \<and> \<not> on_rq (strands s' t))"
proof (rule conjI; rule impI)
  assume a: "\<not> on_rq (strands s t) \<and> class_enqueue n q t s = Done (r, s')"
  then show "(r \<noteq> Inr () \<or> class_of (strands s t) = sc_idle) \<and> s' = s
            \<or> r = Inr () \<and> on_rq (strands s' t) \<and> queues_wf (home(t := q)) s'"
    using rt_enqueue_wf [OF assms(1) _ _ assms(2), of t n r s']
      fair_enqueue_wf [OF assms(1) _ _ assms(2), of t n r s']
      deadline_enqueue_wf [OF assms(1) _ _ assms(2), of t n r s']
    by (cases "class_of (strands s t)") (auto simp: class_enqueue_def)
next
  assume a: "home t = q \<and> class_dequeue n q t s = Done s'"
  show "queues_wf home s' \<and> \<not> on_rq (strands s' t)"
  proof (cases "on_rq (strands s t)")
    case True
    then show ?thesis
      using a rt_dequeue_wf [OF assms(1) True, of q n] fair_dequeue_wf [OF assms(1) True, of q]
        deadline_dequeue_wf [OF assms(1) True, of q n s'] assms(1)
      by (cases "class_of (strands s t)") (auto simp: class_dequeue_def queues_wf_def)
  next
    case False
    then have "s' = s"
      using a by (cases "class_of (strands s t)")
        (simp_all add: class_dequeue_def rt_dequeue_def fair_dequeue_def deadline_dequeue_def)
    with assms(1) False show ?thesis by simp
  qed
qed

theorem run_queues_well_formed_witness:
  "queues_wf (\<lambda>_. 0) ex_sched
   \<and> (\<exists>s'. class_enqueue 1 0 7 ex_sched = Done (Inr (), s') \<and> on_rq (strands s' 7) \<and> queues_wf (\<lambda>_. 0) s')"
proof -
  have "allow_smt_sibling (st_policy (strands ex_sched 7))"
    by (simp add: ex_sched_def ex_strand_def sched_policy_default_def)
  then obtain s' where s': "class_enqueue 1 0 7 ex_sched = Done (Inr (), s')"
    by (simp add: class_enqueue_def ex_class fair_enqueue_def Let_def)
  have "nr_running (g_rqs ex_sched 0) = 0" by (simp add: ex_sched_def ex_rq_def)
  moreover have "(\<lambda>_. 0 :: u16)(7 := 0) = (\<lambda>_ :: addr. 0)" by (simp add: fun_eq_iff)
  ultimately have "on_rq (strands s' 7) \<and> queues_wf (\<lambda>_. 0) s'"
    using run_queues_well_formed [OF ex_sched_wf, of 0 7 1 "Inr ()" s'] s' ex_class by simp
  with s' ex_sched_wf show ?thesis by blast
qed

lemma ex_enqueued: "\<exists>s. queues_wf (\<lambda>_. 0) s \<and> on_rq (strands s 7)"
proof -
  have "fst (fair_enqueue 1 0 7 ex_sched) = Inr ()"
    by (simp add: fair_enqueue_def Let_def ex_sched_def ex_strand_def sched_policy_default_def)
  then obtain s' where s': "fair_enqueue 1 0 7 ex_sched = (Inr (), s')" by (metis prod.collapse)
  have "unat (nr_running (g_rqs ex_sched 0)) < 2 ^ 32 - 1" by (simp add: ex_sched_def ex_rq_def)
  from fair_enqueue_wf [OF ex_sched_wf ex_class(2,1) this s'] show ?thesis
    by (auto simp: fun_upd_def cong: if_cong)
qed

text \<open>
  C11. Selection follows the strict class order and never overlooks a queued strand: on
  well-formed queues it returns the first deadline strand with the earliest absolute
  deadline; without deadline strands the first real-time strand of the highest priority;
  without those the first eligible fair strand, or the leftmost one when none is eligible;
  and the idle strand exactly when nothing is queued. What it selects is queued on this run
  queue, in the class of highest rank that has a queued strand.
\<close>

theorem select_next_strict_order:
  assumes "queues_wf home s"
  shows "let r = g_rqs s q in
    select_next q s = Done
      (if deadline_queue r \<noteq> []
       then find (\<lambda>t. \<forall>u \<in> set (deadline_queue r). abs_deadline s t \<le> abs_deadline s u) (deadline_queue r)
       else if rt_queue r \<noteq> []
       then find (\<lambda>t. \<forall>u \<in> set (rt_queue r). rt_prio s u \<le> rt_prio s t) (rt_queue r)
       else if fair_tree r \<noteq> []
       then Some (case find (\<lambda>t. entity_eligible (se_of s t) (rq_avg r)) (fair_tree r) of
                    Some t \<Rightarrow> t | None \<Rightarrow> hd (fair_tree r))
       else idle_strand r)
    \<and> (\<forall>u. on_rq (strands s u) \<and> home u = q \<longrightarrow>
         (\<exists>t. select_next q s = Done (Some t) \<and> on_rq (strands s t) \<and> home t = q
            \<and> class_rank (class_of (strands s u)) \<le> class_rank (class_of (strands s t))))"
proof -
  let ?r = "g_rqs s q"
  have bodies: "has_bodies s (deadline_queue ?r)"
    using assms by (auto simp: queues_wf_def has_bodies_def list_all_iff)
  have mem: "u \<in> set (queue_of c ?r) \<longleftrightarrow> on_rq (strands s u) \<and> home u = q \<and> class_of (strands s u) = c \<and> c \<noteq> sc_idle"
    for u c using assms unfolding queues_wf_def by blast
  note sel = select_next_cases [OF bodies]
  have pick: "\<exists>t. select_next q s = Done (Some t) \<and> t \<in> set (queue_of c ?r)"
    if "queue_of c ?r \<noteq> []" "\<And>d. class_rank c < class_rank d \<Longrightarrow> queue_of d ?r = []" for c
    using select_next_picks [OF bodies that(1)] that(2) by blast
  have never: "\<exists>t. select_next q s = Done (Some t) \<and> on_rq (strands s t) \<and> home t = q
      \<and> class_rank (class_of (strands s u)) \<le> class_rank (class_of (strands s t))"
    if u: "on_rq (strands s u)" "home u = q" for u
  proof -
    have "class_of (strands s u) \<noteq> sc_idle" using assms u(1) by (simp add: queues_wf_def)
    then have "queue_of (class_of (strands s u)) ?r \<noteq> []" using mem [of u "class_of (strands s u)"] u by auto
    then obtain c where c: "queue_of c ?r \<noteq> []" "class_rank (class_of (strands s u)) \<le> class_rank c"
      "\<And>d. class_rank c < class_rank d \<Longrightarrow> queue_of d ?r = []"
      using top_class by blast
    from pick [OF c(1) c(3)] show ?thesis using mem [of _ c] c(2) by auto
  qed
  show ?thesis unfolding Let_def by (intro conjI allI impI; (elim conjE)?; rule sel [unfolded Let_def] never)
qed

theorem select_next_strict_order_witness:
  "\<exists>s t. queues_wf (\<lambda>_. 0) s \<and> on_rq (strands s 7) \<and> select_next 0 s = Done (Some t) \<and> on_rq (strands s t)"
proof -
  obtain s where s: "queues_wf (\<lambda>_. 0) s" "on_rq (strands s 7)"
    using ex_enqueued by blast
  note select_next_strict_order [OF s(1), of 0, unfolded Let_def, THEN conjunct2, rule_format, of 7]
  then show ?thesis using s by blast
qed


definition ex_deadline_policy :: sched_policy where
  "ex_deadline_policy = sched_policy_default\<lparr>sp_class_id := sc_deadline, runtime_ns := 1000,
     deadline_ns := 50000000, period_ns := 100000000\<rparr>"

definition ex_body :: strand_body where
  "ex_body =
     \<lparr>rt_runtime_used_ns = 0, rt_period_start_ns = 0, deadline_runtime_used_ns = 0,
      absolute_deadline_ns = 0,
      body_cbs = \<lparr>cbs_period_ns = 0, cbs_runtime_ns = 0, used_runtime_ns = 0, period_deadline = 0, cbs_timer = 9\<rparr>,
      boosted_prio = 0, saved_class = sc_fair, saved_prio = 0\<rparr>"

definition ex_active :: domain where
  "ex_active = domain_default\<lparr>dom_ko := bobject_default\<lparr>ko_state := Active\<rparr>, dom_granted_rights := rights_sched\<rparr>"


end
