(* ===== verification/ZX_Softirq.thy ===== *)
theory ZX_Softirq
  imports ZX_Base "HOL-Library.Sublist"
begin

text \<open>
  Soft interrupts (\<open>lib/softirq.zcomponent/core.cxx\<close>) with the deferred-work bits they kick
  (\<open>zxfoundation/sys/irq.zcomponent/core.cxx\<close>, \<open>arch/s390x/cpu/ipi.zcomponent/ipi.cxx\<close>). The
  model is one CPU at a time: \<open>cpu\<close> is the CPU that runs the operation, and the only changes
  of its state during \<open>do_softirq\<close> are those of the handlers it calls. What a handler does is
  the parameter \<open>act\<close>. \<open>n\<close> is the configured number of CPUs, and the signals sent to other CPUs
  are the list \<open>signals_sent\<close>.
\<close>

section \<open>State\<close>

record softirq_entry =
  sv_action :: "fnptr option"
  sv_data :: "addr option"
  sv_generation :: u32

record softirq_state =
  si_pending :: u32
  si_processing :: u32
  si_nest :: u32
  si_dispatch_count :: u64
  si_raise_count :: u64

record softirq_sys =
  g_vector_table :: "softirq_entry list"
  g_per_cpu_state :: "softirq_state list"
  deferred_pending :: "u16 \<Rightarrow> u32"
  signals_sent :: "u16 list"

definition NR_SOFTIRQS :: nat where "NR_SOFTIRQS = 13"
definition DEFERRED_IRQ_WORK_BIT :: u32 where "DEFERRED_IRQ_WORK_BIT = 1"

definition softirq_bit :: "u8 \<Rightarrow> u32" where
  "softirq_bit v = push_bit (unat v) 1"

abbreviation state_of :: "u16 \<Rightarrow> 'a softirq_sys_scheme \<Rightarrow> softirq_state" where
  "state_of cpu s \<equiv> g_per_cpu_state s ! unat cpu"

definition upd_state :: "u16 \<Rightarrow> (softirq_state \<Rightarrow> softirq_state) \<Rightarrow> 'a softirq_sys_scheme \<Rightarrow> 'a softirq_sys_scheme" where
  "upd_state cpu f s = s\<lparr>g_per_cpu_state := (g_per_cpu_state s)[unat cpu := f (state_of cpu s)]\<rparr>"

section \<open>Operations\<close>

definition open_softirq ::
  "u8 \<Rightarrow> fnptr option \<Rightarrow> addr option \<Rightarrow> 'a softirq_sys_scheme \<Rightarrow> 'a softirq_sys_scheme \<times> unit expected" where
  "open_softirq v action data s =
     (if unat v \<ge> NR_SOFTIRQS \<or> action = None then (s, Inl (from_generic invalid_arg))
      else
        let entry = g_vector_table s ! unat v
        in if sv_action entry \<noteq> None then (s, Inl (from_generic internal_error))
           else (s\<lparr>g_vector_table := (g_vector_table s)[unat v :=
                   entry\<lparr>sv_data := data, sv_action := action, sv_generation := sv_generation entry + 1\<rparr>]\<rparr>,
                 Inr ()))"

definition deferred_set :: "u16 \<Rightarrow> u32 \<Rightarrow> 'a softirq_sys_scheme \<Rightarrow> 'a softirq_sys_scheme" where
  "deferred_set cpu b s = s\<lparr>deferred_pending := (deferred_pending s)(cpu := deferred_pending s cpu OR b)\<rparr>"

definition deferred_test_clear :: "u16 \<Rightarrow> u32 \<Rightarrow> 'a softirq_sys_scheme \<Rightarrow> 'a softirq_sys_scheme \<times> bool" where
  "deferred_test_clear cpu b s =
     (s\<lparr>deferred_pending := (deferred_pending s)(cpu := deferred_pending s cpu AND NOT b)\<rparr>,
      deferred_pending s cpu AND b \<noteq> 0)"

definition send_irq_work :: "(u16 \<Rightarrow> bool) \<Rightarrow> u16 \<Rightarrow> 'a softirq_sys_scheme \<Rightarrow> 'a softirq_sys_scheme" where
  "send_irq_work present target s =
     (if \<not> present target then s
      else
        let old = deferred_pending s target;
            s1 = deferred_set target DEFERRED_IRQ_WORK_BIT s
        in if old AND DEFERRED_IRQ_WORK_BIT \<noteq> 0 then s1
           else s1\<lparr>signals_sent := signals_sent s1 @ [target]\<rparr>)"

definition mark_pending :: "u16 \<Rightarrow> u8 \<Rightarrow> 'a softirq_sys_scheme \<Rightarrow> 'a softirq_sys_scheme" where
  "mark_pending cpu v =
     upd_state cpu (\<lambda>t. let b = softirq_bit v; old = si_pending t; t1 = t\<lparr>si_pending := old OR b\<rparr>
                        in if old AND b = 0 then t1\<lparr>si_raise_count := si_raise_count t1 + 1\<rparr> else t1)"

definition raise_softirq :: "nat \<Rightarrow> u16 \<Rightarrow> u8 \<Rightarrow> 'a softirq_sys_scheme \<Rightarrow> 'a softirq_sys_scheme exec" where
  "raise_softirq n cpu v s =
     (if unat v \<ge> NR_SOFTIRQS then Done s
      else if unat cpu \<ge> n then Trap
      else Done (deferred_set cpu DEFERRED_IRQ_WORK_BIT (mark_pending cpu v s)))"

definition raise_softirq_on ::
  "nat \<Rightarrow> (u16 \<Rightarrow> bool) \<Rightarrow> (u16 \<Rightarrow> bool) \<Rightarrow> u16 \<Rightarrow> u8 \<Rightarrow> 'a softirq_sys_scheme \<Rightarrow> 'a softirq_sys_scheme" where
  "raise_softirq_on n online present cpu v s =
     (if unat v \<ge> NR_SOFTIRQS \<or> unat cpu \<ge> n \<or> \<not> online cpu then s
      else send_irq_work present cpu (mark_pending cpu v s))"

definition softirq_pending :: "nat \<Rightarrow> u16 \<Rightarrow> 'a softirq_sys_scheme \<Rightarrow> bool exec" where
  "softirq_pending n cpu s = (if unat cpu \<ge> n then Trap else Done (si_pending (state_of cpu s) \<noteq> 0))"

definition softirq_clear :: "nat \<Rightarrow> u16 \<Rightarrow> u8 \<Rightarrow> 'a softirq_sys_scheme \<Rightarrow> ('a softirq_sys_scheme \<times> bool) exec" where
  "softirq_clear n cpu v s =
     (if unat v \<ge> NR_SOFTIRQS then Done (s, False)
      else if unat cpu \<ge> n then Trap
      else Done (upd_state cpu (\<lambda>t. t\<lparr>si_pending := si_pending t AND NOT (softirq_bit v)\<rparr>) s,
                 si_pending (state_of cpu s) AND softirq_bit v \<noteq> 0))"

definition softirq_test :: "nat \<Rightarrow> u16 \<Rightarrow> u8 \<Rightarrow> 'a softirq_sys_scheme \<Rightarrow> bool exec" where
  "softirq_test n cpu v s =
     (if unat v \<ge> NR_SOFTIRQS then Done False
      else if unat cpu \<ge> n then Trap
      else Done (si_pending (state_of cpu s) AND softirq_bit v \<noteq> 0))"

text \<open>One pass over the vectors of a snapshot \<open>p\<close> of the pending bits, and the loop around it.\<close>

type_synonym 'a softirq_act = "fnptr \<Rightarrow> addr option \<Rightarrow> 'a softirq_sys_scheme \<Rightarrow> 'a softirq_sys_scheme"

definition run_vector :: "'a softirq_act \<Rightarrow> u16 \<Rightarrow> u32 \<Rightarrow> nat \<Rightarrow> 'a softirq_sys_scheme \<Rightarrow> 'a softirq_sys_scheme" where
  "run_vector act cpu p idx s =
     (if \<not> bit p idx then s
      else
        let entry = g_vector_table s ! idx;
            s1 = (case sv_action entry of None \<Rightarrow> s | Some f \<Rightarrow> act f (sv_data entry) s)
        in upd_state cpu (\<lambda>t. t\<lparr>si_processing := si_processing t AND NOT (push_bit idx 1)\<rparr>) s1)"

definition softirq_pass :: "'a softirq_act \<Rightarrow> u16 \<Rightarrow> u32 \<Rightarrow> 'a softirq_sys_scheme \<Rightarrow> 'a softirq_sys_scheme" where
  "softirq_pass act cpu p s = fold (run_vector act cpu p) [0..<NR_SOFTIRQS] s"

partial_function (option) softirq_loop :: "'a softirq_act \<Rightarrow> u16 \<Rightarrow> 'a softirq_sys_scheme \<Rightarrow> 'a softirq_sys_scheme option" where
  "softirq_loop act cpu s =
     (let p = si_pending (state_of cpu s) in
      if p = 0 then Some s
      else softirq_loop act cpu (softirq_pass act cpu p
             (upd_state cpu (\<lambda>t. t\<lparr>si_pending := 0, si_processing := p\<rparr>) s)))"

definition do_softirq :: "'a softirq_act \<Rightarrow> nat \<Rightarrow> u16 \<Rightarrow> 'a softirq_sys_scheme \<Rightarrow> 'a softirq_sys_scheme exec option" where
  "do_softirq act n cpu s =
     (if unat cpu \<ge> n then Some Trap
      else if si_nest (state_of cpu s) \<ge> 10 then Some (Done s)
      else map_option (\<lambda>s1. Done (upd_state cpu (\<lambda>t. t\<lparr>si_nest := si_nest t - 1\<rparr>) s1))
             (softirq_loop act cpu (upd_state cpu (\<lambda>t. t\<lparr>si_nest := si_nest t + 1,
                si_dispatch_count := si_dispatch_count t + 1\<rparr>) s)))"

section \<open>Draining\<close>

text \<open>
  \<open>handlers_forward\<close> is what \<open>do_softirq\<close> needs of the handlers registered in the table \<open>T\<close>:
  a handler leaves the table and the nesting depth of the CPU as they are, and of the vectors
  of this CPU it raises only those behind its own. \<open>log\<close> is any record the state keeps of the
  handlers that ran.
\<close>

definition handlers_forward ::
  "'a softirq_act \<Rightarrow> u16 \<Rightarrow> softirq_entry list \<Rightarrow> nat \<Rightarrow> ('a softirq_sys_scheme \<Rightarrow> fnptr list) \<Rightarrow> bool" where
  "handlers_forward act cpu T n log \<longleftrightarrow>
     (\<forall>x c. log (x\<lparr>g_per_cpu_state := c\<rparr>) = log x)
     \<and> (\<forall>idx f x. idx < NR_SOFTIRQS \<longrightarrow> sv_action (T ! idx) = Some f \<longrightarrow> g_vector_table x = T \<longrightarrow>
          length (g_per_cpu_state x) = n \<longrightarrow>
          (let y = act f (sv_data (T ! idx)) x in
             g_vector_table y = T \<and> length (g_per_cpu_state y) = n \<and> log y = log x @ [f]
             \<and> si_nest (state_of cpu y) = si_nest (state_of cpu x)
             \<and> (\<forall>j. bit (si_pending (state_of cpu y)) j \<longrightarrow>
                  bit (si_pending (state_of cpu x)) j \<or> idx < j \<and> j < NR_SOFTIRQS)))"

definition handlers_of :: "softirq_entry list \<Rightarrow> u32 \<Rightarrow> nat list \<Rightarrow> fnptr list" where
  "handlers_of T p idxs = concat (map (\<lambda>i. case sv_action (T ! i) of Some f \<Rightarrow> [f] | None \<Rightarrow> []) (filter (bit p) idxs))"

lemma upd_state_simps [simp]:
  "g_vector_table (upd_state cpu h s) = g_vector_table s"
  "length (g_per_cpu_state (upd_state cpu h s)) = length (g_per_cpu_state s)"
  "unat cpu < length (g_per_cpu_state s) \<Longrightarrow> state_of cpu (upd_state cpu h s) = h (state_of cpu s)"
  by (simp_all add: upd_state_def)

lemma log_upd_state: "handlers_forward act cpu T n log \<Longrightarrow> log (upd_state cpu h s) = log s"
  by (simp add: handlers_forward_def upd_state_def)

text \<open>What one vector and a sequence of vectors do to the state \<open>x\<close>.\<close>

definition vectors_ran ::
  "u16 \<Rightarrow> softirq_entry list \<Rightarrow> nat \<Rightarrow> ('a softirq_sys_scheme \<Rightarrow> fnptr list) \<Rightarrow> u32 \<Rightarrow> nat list \<Rightarrow>
   'a softirq_sys_scheme \<Rightarrow> 'a softirq_sys_scheme \<Rightarrow> bool" where
  "vectors_ran cpu T n log p idxs x y \<longleftrightarrow>
     g_vector_table y = T \<and> length (g_per_cpu_state y) = n \<and> log y = log x @ handlers_of T p idxs
     \<and> si_nest (state_of cpu y) = si_nest (state_of cpu x)
     \<and> (\<forall>j. bit (si_pending (state_of cpu y)) j \<longrightarrow>
          bit (si_pending (state_of cpu x)) j \<or> (\<exists>i \<in> set idxs. bit p i \<and> i < j))"

lemma run_vector_ran:
  assumes fw: "handlers_forward act cpu T n log" and idx: "idx < NR_SOFTIRQS" and cpu: "unat cpu < n"
    and x: "g_vector_table x = T" "length (g_per_cpu_state x) = n"
  shows "vectors_ran cpu T n log p [idx] x (run_vector act cpu p idx x)"
proof (cases "bit p idx \<and> sv_action (T ! idx) \<noteq> None")
  case True
  then obtain f where f: "sv_action (T ! idx) = Some f" by auto
  define y where "y = act f (sv_data (T ! idx)) x"
  have y: "g_vector_table y = T" "length (g_per_cpu_state y) = n" "log y = log x @ [f]"
    "si_nest (state_of cpu y) = si_nest (state_of cpu x)"
    "\<And>j. bit (si_pending (state_of cpu y)) j \<Longrightarrow> bit (si_pending (state_of cpu x)) j \<or> idx < j"
    using fw idx f x unfolding handlers_forward_def y_def by (metis (no_types, lifting))+
  then show ?thesis
    using True f cpu x log_upd_state [OF fw]
    by (auto simp: vectors_ran_def run_vector_def handlers_of_def Let_def y_def [symmetric])
next
  case False
  then show ?thesis
    using cpu x log_upd_state [OF fw]
    by (auto simp: vectors_ran_def run_vector_def handlers_of_def Let_def split: option.splits)
qed

lemma vectors_ran_append:
  assumes "vectors_ran cpu T n log p is x y" "vectors_ran cpu T n log p js y z"
  shows "vectors_ran cpu T n log p (is @ js) x z"
  using assms by (fastforce simp: vectors_ran_def handlers_of_def)

lemma vectors_fold_ran:
  assumes fw: "handlers_forward act cpu T n log" and cpu: "unat cpu < n"
    and idxs: "\<forall>i \<in> set idxs. i < NR_SOFTIRQS"
    and x: "g_vector_table x = T" "length (g_per_cpu_state x) = n"
  shows "vectors_ran cpu T n log p idxs x (fold (run_vector act cpu p) idxs x)"
  using idxs x
proof (induction idxs arbitrary: x)
  case Nil
  then show ?case by (simp add: vectors_ran_def handlers_of_def)
next
  case (Cons i idxs)
  have one: "vectors_ran cpu T n log p [i] x (run_vector act cpu p i x)"
    by (rule run_vector_ran [OF fw _ cpu]) (use Cons.prems in auto)
  from Cons.IH [of "run_vector act cpu p i x"] Cons.prems one
  have "vectors_ran cpu T n log p idxs (run_vector act cpu p i x) (fold (run_vector act cpu p) idxs (run_vector act cpu p i x))"
    by (simp add: vectors_ran_def)
  from vectors_ran_append [OF one this] show ?case by simp
qed

lemma softirq_loop_idle:
  "si_pending (state_of cpu s) = 0 \<Longrightarrow> softirq_loop act cpu s = Some s"
  by (subst softirq_loop.simps) simp

text \<open>One round of the loop: it is enough to drain the state after the pass.\<close>

definition drains ::
  "'a softirq_act \<Rightarrow> u16 \<Rightarrow> softirq_entry list \<Rightarrow> nat \<Rightarrow> ('a softirq_sys_scheme \<Rightarrow> fnptr list) \<Rightarrow> 'a softirq_sys_scheme \<Rightarrow> bool" where
  "drains act cpu T n log s \<longleftrightarrow>
     (\<exists>s' runs. softirq_loop act cpu s = Some s' \<and> si_pending (state_of cpu s') = 0
        \<and> si_nest (state_of cpu s') = si_nest (state_of cpu s) \<and> length (g_per_cpu_state s') = n
        \<and> log s' = log s @ runs \<and> prefix (handlers_of T (si_pending (state_of cpu s)) [0..<NR_SOFTIRQS]) runs)"

lemma drains_idle:
  "si_pending (state_of cpu s) = 0 \<Longrightarrow> length (g_per_cpu_state s) = n \<Longrightarrow> drains act cpu T n log s"
  by (simp add: drains_def handlers_of_def softirq_loop_idle)

lemma softirq_loop_step:
  assumes fw: "handlers_forward act cpu T n log" and cpu: "unat cpu < n"
    and x: "g_vector_table s = T" "length (g_per_cpu_state s) = n"
    and next_round: "\<And>s1. g_vector_table s1 = T \<Longrightarrow> length (g_per_cpu_state s1) = n \<Longrightarrow>
      (\<And>j. bit (si_pending (state_of cpu s1)) j \<Longrightarrow>
         \<exists>i < NR_SOFTIRQS. bit (si_pending (state_of cpu s)) i \<and> i < j) \<Longrightarrow> drains act cpu T n log s1"
  shows "drains act cpu T n log s"
proof (cases "si_pending (state_of cpu s) = 0")
  case True
  then show ?thesis using x(2) by (rule drains_idle)
next
  case False
  define p where "p = si_pending (state_of cpu s)"
  define s0 where "s0 = upd_state cpu (\<lambda>t. t\<lparr>si_pending := 0, si_processing := p\<rparr>) s"
  define s1 where "s1 = softirq_pass act cpu p s0"
  have s0: "g_vector_table s0 = T" "length (g_per_cpu_state s0) = n" "si_pending (state_of cpu s0) = 0"
    "si_nest (state_of cpu s0) = si_nest (state_of cpu s)" "log s0 = log s"
    using x cpu log_upd_state [OF fw] by (simp_all add: s0_def)
  have ran: "vectors_ran cpu T n log p [0..<NR_SOFTIRQS] s0 s1"
    unfolding softirq_pass_def s1_def by (rule vectors_fold_ran [OF fw cpu _ s0(1,2)]) simp
  have raised: "\<exists>i < NR_SOFTIRQS. bit (si_pending (state_of cpu s)) i \<and> i < j"
    if "bit (si_pending (state_of cpu s1)) j" for j
  proof -
    have "bit (si_pending (state_of cpu s0)) j \<or> (\<exists>i \<in> set [0..<NR_SOFTIRQS]. bit p i \<and> i < j)"
      using ran that by (simp only: vectors_ran_def)
    then show ?thesis by (auto simp: s0(3) p_def)
  qed
  have "drains act cpu T n log s1"
    by (rule next_round) (use ran raised in \<open>simp_all add: vectors_ran_def\<close>)
  moreover have "softirq_loop act cpu s = softirq_loop act cpu s1"
    using False by (subst softirq_loop.simps) (simp add: Let_def s1_def s0_def p_def)
  ultimately show ?thesis
    using ran s0(4,5) by (auto simp: drains_def vectors_ran_def p_def [symmetric])
qed

lemma softirq_loop_drains:
  assumes fw: "handlers_forward act cpu T n log" and cpu: "unat cpu < n"
    and x: "g_vector_table s = T" "length (g_per_cpu_state s) = n"
    and low: "\<And>j. bit (si_pending (state_of cpu s)) j \<Longrightarrow> NR_SOFTIRQS \<le> j + m"
  shows "drains act cpu T n log s"
  using x low
proof (induction m arbitrary: s)
  case 0
  show ?case
  proof (rule softirq_loop_step [OF fw cpu 0(1,2)])
    fix s1 :: "'a softirq_sys_scheme"
    assume len: "length (g_per_cpu_state s1) = n"
      and new: "\<And>j. bit (si_pending (state_of cpu s1)) j \<Longrightarrow>
        \<exists>i < NR_SOFTIRQS. bit (si_pending (state_of cpu s)) i \<and> i < j"
    have "\<not> bit (si_pending (state_of cpu s1)) j" for j
      using new [of j] 0(3) by fastforce
    then have "si_pending (state_of cpu s1) = 0" by (simp add: bit_eq_iff)
    then show "drains act cpu T n log s1" using len by (rule drains_idle)
  qed
next
  case (Suc m)
  show ?case
  proof (rule softirq_loop_step [OF fw cpu Suc.prems(1,2)])
    fix s1 :: "'a softirq_sys_scheme"
    assume tab: "g_vector_table s1 = T" and len: "length (g_per_cpu_state s1) = n"
      and new: "\<And>j. bit (si_pending (state_of cpu s1)) j \<Longrightarrow>
        \<exists>i < NR_SOFTIRQS. bit (si_pending (state_of cpu s)) i \<and> i < j"
    have "NR_SOFTIRQS \<le> j + m" if "bit (si_pending (state_of cpu s1)) j" for j
      using new [OF that] Suc.prems(3) by fastforce
    then show "drains act cpu T n log s1" by (rule Suc.IH [OF tab len])
  qed
qed

section \<open>Properties\<close>

text \<open>
  C30. Draining soft interrupts ends and serves everything: when the handlers raise only
  vectors behind their own, a call at a nesting depth below ten returns with nothing pending
  and the nesting depth restored, and the first handlers it runs are those of the vectors
  that were pending, each once and in the order of the vectors.
\<close>

theorem do_softirq_drains:
  assumes "handlers_forward act cpu (g_vector_table s) n log" and "length (g_per_cpu_state s) = n"
    and "unat cpu < n" and "si_nest (state_of cpu s) < 10"
  shows "\<exists>s' runs. do_softirq act n cpu s = Some (Done s') \<and> si_pending (state_of cpu s') = 0
    \<and> si_nest (state_of cpu s') = si_nest (state_of cpu s) \<and> log s' = log s @ runs
    \<and> prefix (handlers_of (g_vector_table s) (si_pending (state_of cpu s)) [0..<NR_SOFTIRQS]) runs"
proof -
  let ?s = "upd_state cpu (\<lambda>t. t\<lparr>si_nest := si_nest t + 1, si_dispatch_count := si_dispatch_count t + 1\<rparr>) s"
  have "drains act cpu (g_vector_table s) n log ?s"
    by (rule softirq_loop_drains [OF assms(1,3), where m = NR_SOFTIRQS]) (use assms(2) in simp_all)
  then show ?thesis
    using assms log_upd_state [OF assms(1)]
    by (fastforce simp: drains_def do_softirq_def)
qed

text \<open>The witness: vector 1 is open and pending; the state logs the handlers that ran.\<close>

definition ex_softirq :: "fnptr list softirq_sys_scheme" where
  "ex_softirq =
     \<lparr>g_vector_table = (replicate 13 \<lparr>sv_action = None, sv_data = None, sv_generation = 0\<rparr>)
        [1 := \<lparr>sv_action = Some 100, sv_data = None, sv_generation = 1\<rparr>],
      g_per_cpu_state = [\<lparr>si_pending = 2, si_processing = 0, si_nest = 0, si_dispatch_count = 0, si_raise_count = 1\<rparr>],
      deferred_pending = (\<lambda>_. 1), signals_sent = [], \<dots> = []\<rparr>"

theorem do_softirq_drains_witness:
  "\<exists>s' runs. do_softirq (\<lambda>f d. softirq_sys.more_update (\<lambda>l. l @ [f])) 1 0 ex_softirq = Some (Done s')
     \<and> si_pending (state_of 0 s') = 0 \<and> softirq_sys.more s' = runs \<and> prefix [100] runs"
proof -
  have "handlers_forward (\<lambda>f d. softirq_sys.more_update (\<lambda>l. l @ [f])) 0 (g_vector_table ex_softirq) 1 softirq_sys.more"
    by (simp add: handlers_forward_def Let_def)
  moreover have "handlers_of (g_vector_table ex_softirq) (si_pending (state_of 0 ex_softirq)) [0..<NR_SOFTIRQS] = [100]"
    by code_simp
  moreover have "length (g_per_cpu_state ex_softirq) = 1" "si_nest (state_of 0 ex_softirq) < 10"
    "softirq_sys.more ex_softirq = []"
    by (simp_all add: ex_softirq_def)
  ultimately show ?thesis
    using do_softirq_drains [of _ 0 ex_softirq 1 softirq_sys.more] by fastforce
qed

end
