(* ===== verification/ZX_Parmfile.thy ===== *)
theory ZX_Parmfile
  imports ZX_Base
begin

text \<open>
  The loader's parser of the memory limit on the command line
  (\<open>arch/s390x/init/zxfl/common/parmfile.c\<close>). A command line is the list of its bytes, in
  ASCII, and \<open>None\<close> a null pointer; the length argument is the length of the list. The buffer
  of the only caller has 512 bytes, so the 32-bit position never wraps and is a natural number.
\<close>

section \<open>Parser\<close>

definition PARMFILE_SYSSIZE_MIN_MB :: u64 where "PARMFILE_SYSSIZE_MIN_MB = 16"
definition PARMFILE_SYSSIZE_MAX_MB :: u64 where "PARMFILE_SYSSIZE_MAX_MB = 512 * 1024"
definition PARMFILE_SYSSIZE_INFINITE :: u64 where "PARMFILE_SYSSIZE_INFINITE = - 1"

definition is_digit :: "u8 \<Rightarrow> bool" where
  "is_digit c \<longleftrightarrow> c - 48 \<le> 9"

definition is_space :: "u8 \<Rightarrow> bool" where
  "is_space c \<longleftrightarrow> c = 32 \<or> c = 9 \<or> c = 13 \<or> c = 10"

text \<open>The key is \<open>syssize=\<close>.\<close>

definition syssize_key :: "u8 list" where
  "syssize_key = [115, 121, 115, 115, 105, 122, 101, 61]"

definition key_match :: "u8 list \<Rightarrow> nat \<Rightarrow> bool" where
  "key_match cs i \<longleftrightarrow> (i = 0 \<or> is_space (cs ! (i - 1))) \<and> take 8 (drop i cs) = syssize_key"

fun parse_digits :: "u64 \<Rightarrow> u8 list \<Rightarrow> (u64 \<times> u8 list) option" where
  "parse_digits v [] = Some (v, [])"
| "parse_digits v (c # cs) =
     (if \<not> is_digit c then Some (v, c # cs)
      else if v > PARMFILE_SYSSIZE_MAX_MB then None
      else parse_digits (v * 10 + (ucast c - 48)) cs)"

text \<open>The suffixes are \<open>G\<close>, \<open>g\<close>, \<open>M\<close> and \<open>m\<close>.\<close>

definition parse_suffix :: "u64 \<Rightarrow> u8 list \<Rightarrow> u64 option" where
  "parse_suffix v rest =
     (case rest of
        [] \<Rightarrow> Some v
      | c # _ \<Rightarrow>
          if c = 71 \<or> c = 103 then
            if v > PARMFILE_SYSSIZE_MAX_MB div 1024 then None else Some (v * 1024)
          else if c = 77 \<or> c = 109 then Some v
          else if \<not> is_space c \<and> c \<noteq> 0 then None
          else Some v)"

definition parse_value :: "u8 list \<Rightarrow> u64" where
  "parse_value cs =
     (if cs = [] \<or> \<not> is_digit (hd cs) then 0
      else case parse_digits 0 cs of
        None \<Rightarrow> 0
      | Some (v, rest) \<Rightarrow>
          (case parse_suffix v rest of
             None \<Rightarrow> 0
           | Some mb \<Rightarrow>
               if mb = 0 then PARMFILE_SYSSIZE_INFINITE
               else if mb < PARMFILE_SYSSIZE_MIN_MB \<or> mb > PARMFILE_SYSSIZE_MAX_MB then 0
               else push_bit 20 mb))"

definition parse_syssize :: "u8 list option \<Rightarrow> u64" where
  "parse_syssize cmdline =
     (case cmdline of
        None \<Rightarrow> PARMFILE_SYSSIZE_INFINITE
      | Some cs \<Rightarrow>
          if cs = [] then PARMFILE_SYSSIZE_INFINITE
          else case first_from (key_match cs) 0 (length cs + 1 - 8) of
            None \<Rightarrow> PARMFILE_SYSSIZE_INFINITE
          | Some i \<Rightarrow> parse_value (drop (i + 8) cs))"

section \<open>Decimal notation\<close>

fun decimal :: "nat \<Rightarrow> u8 list" where
  "decimal n = (if n < 10 then [48 + of_nat n] else decimal (n div 10) @ [48 + of_nat (n mod 10)])"

declare decimal.simps [simp del]

definition digit_val :: "u8 \<Rightarrow> nat" where
  "digit_val c = unat (c - 48)"

definition digits_val :: "nat \<Rightarrow> u8 list \<Rightarrow> nat" where
  "digits_val = foldl (\<lambda>v c. v * 10 + digit_val c)"

lemma digits_val_simps [simp]:
  "digits_val v [] = v" "digits_val v (c # cs) = digits_val (v * 10 + digit_val c) cs"
  "digits_val v (cs @ ds) = digits_val (digits_val v cs) ds"
  by (simp_all add: digits_val_def)

lemma digit_char: "n < 10 \<Longrightarrow> is_digit (48 + of_nat n) \<and> digit_val (48 + of_nat n) = n"
  by (simp add: is_digit_def digit_val_def word_le_nat_alt unat_of_nat)

lemma decimal_digits: "list_all is_digit (decimal n) \<and> digits_val 0 (decimal n) = n \<and> decimal n \<noteq> []"
proof (induction n rule: decimal.induct)
  case (1 n)
  show ?case
    using 1 digit_char [of n] digit_char [of "n mod 10"] by (subst (1 2 3) decimal.simps) auto
qed

lemma digits_val_le: "v \<le> digits_val v cs"
  by (induction cs arbitrary: v) (simp, metis digits_val_simps(2) le_add1 le_trans mult_le_mono2 mult_1_right one_le_numeral)

lemma digit_cast: "is_digit c \<Longrightarrow> (ucast c - 48 :: u64) = of_nat (digit_val c)"
proof -
  assume "is_digit c"
  then have d: "digit_val c \<le> 9" by (simp add: is_digit_def digit_val_def word_le_nat_alt)
  define e where "e = c - 48"
  have "unat (e + 48) = unat e + 48"
    using d by (simp add: unat_word_ariths(1) digit_val_def e_def [symmetric])
  then have "unat c = digit_val c + 48" by (simp add: e_def digit_val_def)
  then have "(ucast c :: u64) = of_nat (digit_val c + 48)" by (metis of_nat_unat)
  then show ?thesis by simp
qed

lemma parse_digits_val:
  assumes "list_all is_digit ds" "rest = [] \<or> \<not> is_digit (hd rest)" "digits_val v ds \<le> 512 * 1024"
  shows "parse_digits (of_nat v) (ds @ rest) = Some (of_nat (digits_val v ds), rest)"
  using assms
proof (induction ds arbitrary: v)
  case Nil
  then show ?case by (cases rest) simp_all
next
  case (Cons c ds)
  have v: "v * 10 + digit_val c \<le> 512 * 1024"
    using digits_val_le [of "v * 10 + digit_val c" ds] Cons.prems(3) by simp
  have "unat (of_nat v :: u64) = v" using v by (simp add: unat_of_nat)
  then have "\<not> PARMFILE_SYSSIZE_MAX_MB < (of_nat v :: u64)"
    using v by (simp add: word_less_nat_alt PARMFILE_SYSSIZE_MAX_MB_def)
  then show ?case
    using Cons.IH [of "v * 10 + digit_val c"] Cons.prems by (simp add: digit_cast)
qed

lemma parse_value_decimal:
  assumes "n \<le> 524288" "rest = [] \<or> \<not> is_digit (hd rest)"
    "parse_suffix (of_nat n) rest = Some (of_nat mb)" "16 \<le> mb" "mb \<le> 524288"
  shows "unat (parse_value (decimal n @ rest)) = mb * 2 ^ 20"
proof -
  have dec: "list_all is_digit (decimal n)" "digits_val 0 (decimal n) = n" "decimal n \<noteq> []"
    using decimal_digits by auto
  have "parse_digits 0 (decimal n @ rest) = Some (of_nat n, rest)"
    using parse_digits_val [OF dec(1) assms(2), of 0] dec(2) assms(1) by simp
  moreover have "is_digit (hd (decimal n @ rest))"
    using dec(1,3) by (cases "decimal n") simp_all
  moreover have mb: "unat (of_nat mb :: u64) = mb" using assms(5) by (simp add: unat_of_nat)
  ultimately have "parse_value (decimal n @ rest) = push_bit 20 (of_nat mb)"
    using assms(3-5) dec(3)
    by (simp add: parse_value_def word_less_nat_alt PARMFILE_SYSSIZE_MIN_MB_def PARMFILE_SYSSIZE_MAX_MB_def
        word_unat_eq_iff)
  then show ?thesis
    using mb assms(5) by (simp add: push_bit_eq_mult unat_word_ariths(2))
qed

lemma syssize_first:
  assumes "pre = [] \<or> is_space (last pre)"
    "\<forall>i < length pre. \<not> key_match (pre @ syssize_key @ value) i"
  shows "parse_syssize (Some (pre @ syssize_key @ value)) = parse_value value"
proof -
  let ?cs = "pre @ syssize_key @ value"
  have len: "length syssize_key = 8" by (simp add: syssize_key_def)
  have at: "key_match ?cs (length pre)"
    using assms(1) len by (cases "pre = []") (simp_all add: key_match_def nth_append last_conv_nth)
  have pos: "length pre < length ?cs + 1 - 8" using len by simp
  obtain i where i: "first_from (key_match ?cs) 0 (length ?cs + 1 - 8) = Some i"
    using at pos first_from_None [of "key_match ?cs" 0 "length ?cs + 1 - 8"]
    by (cases "first_from (key_match ?cs) 0 (length ?cs + 1 - 8)") auto
  have "i = length pre"
    using first_from_Some [OF i] assms(2) at by (metis le0 linorder_neqE_nat)
  moreover have "drop (length pre + 8) ?cs = value" using len by simp
  moreover have "?cs \<noteq> []" using len by auto
  ultimately show ?thesis
    unfolding parse_syssize_def using i by (simp only: option.case if_False)
qed

section \<open>Properties\<close>

definition limit_ok :: "u64 \<Rightarrow> bool" where
  "limit_ok r \<longleftrightarrow> r = 0 \<or> r = PARMFILE_SYSSIZE_INFINITE
     \<or> (\<exists>mb. 16 \<le> mb \<and> mb \<le> 512 * 1024 \<and> unat r = mb * 2 ^ 20)"

lemma parse_value_ok: "limit_ok (parse_value cs)"
proof -
  have "limit_ok (push_bit 20 mb)" if "\<not> mb < PARMFILE_SYSSIZE_MIN_MB" "\<not> mb > PARMFILE_SYSSIZE_MAX_MB" for mb
  proof -
    have "16 \<le> unat mb" "unat mb \<le> 512 * 1024"
      using that by (simp_all add: word_less_nat_alt not_less PARMFILE_SYSSIZE_MIN_MB_def PARMFILE_SYSSIZE_MAX_MB_def)
    then show ?thesis
      by (auto simp: limit_ok_def push_bit_eq_mult unat_word_ariths(2))
  qed
  then show ?thesis
    by (auto simp: parse_value_def limit_ok_def [of 0] limit_ok_def [of PARMFILE_SYSSIZE_INFINITE]
        split: option.splits prod.splits)
qed

lemma parse_suffix_kinds:
  "rest = [] \<or> hd rest \<in> {77, 109, 0} \<or> is_space (hd rest) \<Longrightarrow> parse_suffix v rest = Some v"
  "rest \<noteq> [] \<and> hd rest \<in> {71, 103} \<Longrightarrow> v \<le> 512 \<Longrightarrow> parse_suffix v rest = Some (v * 1024)"
  "rest = [] \<or> hd rest \<in> {77, 109, 0, 71, 103} \<or> is_space (hd rest) \<Longrightarrow> rest = [] \<or> \<not> is_digit (hd rest)"
  by (cases rest; auto simp: parse_suffix_def is_space_def is_digit_def PARMFILE_SYSSIZE_MAX_MB_def not_less)+



end
