(* ===== verification/Spec2Isabelle.thy ===== *)
theory Spec2Isabelle
  imports ZX_Registry ZX_Isolation ZX_Signal ZX_Cap ZX_Authorize ZX_Sha256 ZX_Sched_Index ZX_Dispatch ZX_Sched_Class ZX_Softirq
    ZX_Parmfile
begin

text \<open>
  A verification development for the ZXFoundation kernel, an s390x kernel whose unit of
  protection is the domain. This theory imports the whole development. Component paths are
  relative to \<open>src/zxfoundation\<close>; \<open>lib\<close>, \<open>crypto\<close> and \<open>cmake\<close> are directories of \<open>src\<close>, and
  \<open>zxfl\<close> is the loader under \<open>src/arch/s390x/init\<close>.

  \<^bold>\<open>The program.\<close> Every kernel object starts with a header (\<open>bobject\<close>) that has a lifecycle
  state, a generation and a reference count, and is registered in a nucleus-owned metadata
  table that records its parent. Object tables hand out slots with generations. A domain owns
  a storage key, a rights mask, a signal queue and scheduling budgets. Capabilities are 64-bit
  tokens naming slots, and a slot holds one reference to its target. A nucleus call names a
  gate; the dispatcher looks the call up, authorizes the operation against the caller's
  rights, takes a single-use lease and runs the handler. Strands, the schedulable parts of a
  domain, are queued per CPU in three classes, which use runtime budgets, kernel timers, two
  CPU indexes and the CPU topology. The boot loader hashes the kernel image and refuses one
  whose segments do not match the signed checksum table.

  \<^bold>\<open>How the code is modelled.\<close> Structures are records with the fields the modelled operations
  touch, enumerations are datatypes, integers are words of their width and wrap as in the
  code (\<open>cmake/flags.cmake\<close> compiles with wrapping signed arithmetic). A function that returns
  \<open>std::expected\<close> returns \<open>kernel_error + 'a\<close>. A trap, a null dereference and an index out of
  bounds are the outcome \<open>Trap\<close> of type \<open>exec\<close>. Mutable state is passed explicitly; state of
  a lower component is extended by the records of the higher ones (\<open>kheap\<close>, \<open>meta_state\<close>,
  \<open>cap_state\<close>, \<open>table_state\<close>, \<open>gate_state\<close>, \<open>dispatch_state\<close>, and \<open>timer_state\<close>,
  \<open>sched_state\<close>). Locks are erased: an operation that runs under its lock is one step. Code
  reached through a function pointer, the result of \<open>kmalloc\<close>, readings of the clock, the
  cryptographic instructions, and \<open>CONFIG_ZX_MAX_CPUS\<close> are parameters.

  \<^bold>\<open>Objects and tables.\<close>
  \<^item> \<open>ZX_Base\<close>: widths, errors, \<open>exec\<close>, masks, scans (\<open>lib/error.cxxm\<close>).
  \<^item> \<open>ZX_Kobject\<close>: \<open>scoms/kobject.zcomponent\<close>, lifecycle transitions and reference counts.
  \<^item> \<open>ZX_Metadata\<close>, \<open>ZX_Registry\<close>: \<open>scoms/metadata.zcomponent/core.cxx\<close>. The locale
    \<open>object_registry\<close> is the contract of its clients. Objects can be unregistered exactly
    when they have no live child, a tree can be taken down children first, registration and
    retirement have the stated outcomes, for every reachable table.
  \<^item> \<open>ZX_Table\<close>: \<open>scoms/table.cxxm\<close>. A slot is not reused before the last reference to its
    retired object is gone.

  \<^bold>\<open>Domains.\<close>
  \<^item> \<open>ZX_Rights\<close>, \<open>ZX_Isolation\<close>: \<open>dgp/isolation.zcomponent\<close>. Storage keys are exclusive in
    every reachable state (\<open>key_pool\<close>); destruction and revocation have exact effects.
  \<^item> \<open>ZX_Memory_Contract\<close>, \<open>ZX_Sync_Contract\<close>: the two contracts of \<open>dgp\<close>; the exact
    conditions of a mapping, and the order of the teardown phases.
  \<^item> \<open>ZX_Domain\<close>, \<open>ZX_Signal_Queue\<close>, \<open>ZX_Signal\<close>: \<open>dgp/domain.zcomponent/types.cxxm\<close> and
    \<open>dgp/signal.zcomponent\<close>. The ring refines a bounded list (\<open>overwriting_queue\<close>); delivery
    takes the first unblocked signal, ends when nothing is blocked, and does not end when
    everything is.
  \<^item> \<open>ZX_Cap\<close>: \<open>dgp/cap.zcomponent\<close>. Targets of active slots stay referenced in every
    reachable state, delegation never adds rights, release and revocation kill exactly the
    tokens they should. The two sweeps over the slots share the locale \<open>slot_sweep\<close>.
  \<^item> \<open>ZX_Authorize\<close>, \<open>ZX_Gate\<close>, \<open>ZX_Dispatch\<close>: \<open>dgp/authorize.zcomponent\<close> and
    \<open>dgp/gate.zcomponent\<close>. Authorization and dispatch are characterized exactly, and the boot
    table is complete.

  \<^bold>\<open>Time and scheduling.\<close>
  \<^item> \<open>ZX_Min_Heap\<close>, \<open>ZX_Timer\<close>, \<open>ZX_Time\<close>: \<open>lib/min_heap.cxxm\<close>, \<open>sys/timer.zcomponent\<close>,
    \<open>sys/time.zcomponent\<close>. The heap laws are proved once (\<open>heap_key\<close>); the comparator
    interrupt returns and expires exactly the due timers.
  \<^item> \<open>ZX_Sched_Policy\<close>, \<open>ZX_Sched_Index\<close>, \<open>ZX_Sched_Topology\<close>, \<open>ZX_Sched_Budget\<close>: policy
    records, \<open>cpupri\<close> and \<open>cpudl\<close>, the topology masks and the two budgets of \<open>sched\<close>. The
    deadline index refines a finite map, the masks are a function of the set of online CPUs,
    and the budgets share the contract \<open>budget_server\<close>.
  \<^item> \<open>ZX_Sched_Strand\<close>, \<open>ZX_Sched_Rt\<close>, \<open>ZX_Sched_Fair\<close>, \<open>ZX_Sched_Class\<close>: strands and run
    queues, the real-time, deadline and fair classes and the class dispatch of \<open>sched\<close>.
    Reservations balance in both admission-controlled classes (\<open>reservation\<close>), the queues
    stay well-formed under enqueue and dequeue, and selection follows the class order.
  \<^item> \<open>ZX_Softirq\<close>: \<open>lib/softirq.zcomponent\<close>, one CPU at a time. Draining ends when handlers
    raise only later vectors, and serves what was pending in order.

  \<^bold>\<open>Loader.\<close>
  \<^item> \<open>ZX_Sha256\<close>: \<open>crypto/sha256.zcomponent\<close>, \<open>zxfl/common/sha256.c\<close> and
    \<open>zxfl/common/zxvl_verify.c\<close>. Streaming equals one-shot hashing, the kernel and the
    loader agree, and a boot continues exactly for a table whose segments all match.
  \<^item> \<open>ZX_Parmfile\<close>: \<open>zxfl/common/parmfile.c\<close>. A memory limit on the command line is read back,
    and every result is in the legal range.

  \<^bold>\<open>Loops.\<close> Loops over arrays are structural recursion or folds over index ranges. Loops that
  may run forever are \<open>partial_function (option)\<close>: the signal delivery loop, the timer expiry
  loop, the soft-interrupt loop and the hash update loops; that they return is proved under
  the condition stated with each, and the delivery loop and the kernel's update loop are also
  shown not to return when it fails. No bound or fuel is used.

  \<^bold>\<open>Not modelled.\<close>
  \<^item> The virtual and physical memory managers, the object allocator, the page cache and the
    address translation: they thread their data through the memory they manage, and need a
    model of physical memory and of the translation hardware. Allocation appears as an
    argument that may fail.
  \<^item> Locks, wait queues, RCU, cross-CPU calls, the load balancer and its statistics: what
    they promise is about interleavings of atomic steps on several CPUs,
    and the models here are sequential.
  \<^item> The scheduler core, portals, message passing, services and domain creation: they switch
    stacks and address spaces, block and wake strands, and are built on the two groups above.
  \<^item> Traps, processor support, channel I/O, drivers, assembly, and the loader apart from its
    hashing, verification and command line: sequences of privileged instructions.
  \<^item> Console output, boot sequencing, the first user program and the build tools.
  \<^item> Inside the modelled components: the registration of interrupt handlers, memory orders
    of atomics, and the link fields of intrusive lists and trees, which are the sequences
    they represent.
\<close>

end
